theory Spec2Isabelle
  imports Complex_Main "HOL-Library.Signed_Division"
begin

section \<open>The allocator and collector of alloc.c\<close>

text \<open>
  Addresses are natural numbers; the null pointer is address 0.  Sizes that alloc.c
  takes from lisp.h (the width of a Lisp word, the sizes of the object structs) are
  the fields of the record \<open>abi\<close>, passed to every function that uses them.
\<close>

type_synonym addr = nat

definition NULL :: addr where
  "NULL = 0"

record abi =
  word_size :: nat
  header_size :: nat
  sizeof_Lisp_Cons :: nat
  sizeof_Lisp_Symbol :: nat
  sizeof_Lisp_String :: nat
  sizeof_Lisp_Float :: nat
  sizeof_interval :: nat
  sizeof_buffer :: nat

text \<open>A 64-bit build, used for the concrete evaluations below.\<close>

definition abi64 :: abi where
  "abi64 = \<lparr> word_size = 8, header_size = 8, sizeof_Lisp_Cons = 16,
             sizeof_Lisp_Symbol = 48, sizeof_Lisp_String = 32,
             sizeof_Lisp_Float = 8, sizeof_interval = 72, sizeof_buffer = 992 \<rparr>"

subsection \<open>Lisp values seen by the collector's control logic\<close>

text \<open>
  The type \<open>'f\<close> is the C type double.  Its arithmetic is not modelled: the one
  floating-point operation of this part of alloc.c, the product of a double and a
  byte count converted to \<open>intmax_t\<close>, is a parameter of the functions that use it.
\<close>

datatype 'f lisp_object =
    Qnil
  | Qt
  | Fixnum int
  | Bignum int
  | Float 'f
  | Symbol string
  | String string
  | List "'f lisp_object list"

definition INTMAX_MAX :: int where
  "INTMAX_MAX = 2 ^ 63 - 1"

definition INTMAX_MIN :: int where
  "INTMAX_MIN = - (2 ^ 63)"

fun INTEGERP :: "'f lisp_object \<Rightarrow> bool" where
  "INTEGERP (Fixnum n) = True"
| "INTEGERP (Bignum n) = True"
| "INTEGERP v = False"

fun FLOATP :: "'f lisp_object \<Rightarrow> bool" where
  "FLOATP (Float p) = True"
| "FLOATP v = False"

fun NILP :: "'f lisp_object \<Rightarrow> bool" where
  "NILP Qnil = True"
| "NILP v = False"

text \<open>\<open>integer_to_intmax\<close>: the value when it fits \<open>intmax_t\<close>.\<close>

fun integer_to_intmax :: "'f lisp_object \<Rightarrow> int option" where
  "integer_to_intmax (Fixnum n) = Some n"
| "integer_to_intmax (Bignum n) =
     (if INTMAX_MIN \<le> n \<and> n \<le> INTMAX_MAX then Some n else None)"
| "integer_to_intmax v = None"

subsection \<open>Collector state: thresholds, counters, statistics\<close>

record gcstat =
  total_conses :: nat
  total_free_conses :: nat
  total_symbols :: nat
  total_free_symbols :: nat
  total_strings :: nat
  total_free_strings :: nat
  total_string_bytes :: nat
  total_vectors :: nat
  total_vector_slots :: nat
  total_free_vector_slots :: nat
  total_floats :: nat
  total_free_floats :: nat
  total_intervals :: nat
  total_free_intervals :: nat
  total_buffers :: nat

text \<open>
  The field \<open>heap\<close> stands for everything marking and sweeping act on: the blocks,
  the free lists and the mark bits.
\<close>

record ('f, 'h) gc_state =
  gc_cons_threshold :: int
  Vgc_cons_percentage :: "'f lisp_object"
  bytes_since_gc :: int
  bytes_between_gc :: int
  gc_inhibited :: bool
  gc_in_progress :: bool
  gcs_done :: int
  gcstat :: gcstat
  heap :: 'h

definition GC_DEFAULT_THRESHOLD :: "abi \<Rightarrow> int" where
  "GC_DEFAULT_THRESHOLD abi = (2 ^ 17) * int (word_size abi)"

definition total_bytes_of_live_objects :: "abi \<Rightarrow> ('f, 'h) gc_state \<Rightarrow> nat" where
  "total_bytes_of_live_objects abi s =
     total_conses (gcstat s) * sizeof_Lisp_Cons abi
     + total_symbols (gcstat s) * sizeof_Lisp_Symbol abi
     + total_string_bytes (gcstat s)
     + total_vector_slots (gcstat s) * word_size abi
     + total_floats (gcstat s) * sizeof_Lisp_Float abi
     + total_intervals (gcstat s) * sizeof_interval abi
     + total_strings (gcstat s) * sizeof_Lisp_String abi"

text \<open>
  \<open>update_bytes_between_gc\<close>.  The parameter \<open>fmul p n\<close> is the C expression
  \<open>XFLOAT_DATA (p) * n\<close> converted to \<open>intmax_t\<close>.
\<close>

definition update_bytes_between_gc ::
  "abi \<Rightarrow> ('f \<Rightarrow> nat \<Rightarrow> int) \<Rightarrow> ('f, 'h) gc_state \<Rightarrow> ('f, 'h) gc_state" where
  "update_bytes_between_gc abi fmul s =
     (let threshold0 = gc_cons_threshold s;
          threshold1 = (case Vgc_cons_percentage s of
                          Float p \<Rightarrow> fmul p (total_bytes_of_live_objects abi s)
                        | _ \<Rightarrow> threshold0)
      in s\<lparr>bytes_between_gc := max threshold0 threshold1\<rparr>)"

text \<open>The two variable watchers; both return \<open>Qnil\<close>, so only the state is kept.\<close>

definition watch_gc_cons_threshold ::
  "abi \<Rightarrow> ('f \<Rightarrow> nat \<Rightarrow> int) \<Rightarrow> 'f lisp_object \<Rightarrow> ('f, 'h) gc_state \<Rightarrow> ('f, 'h) gc_state" where
  "watch_gc_cons_threshold abi fmul newval s =
     (if INTEGERP newval then
        (case integer_to_intmax newval of
           Some threshold \<Rightarrow>
             update_bytes_between_gc abi fmul
               (s\<lparr>gc_cons_threshold := max threshold (GC_DEFAULT_THRESHOLD abi div 2 ^ 3)\<rparr>)
         | None \<Rightarrow> s)
      else s)"

definition watch_gc_cons_percentage ::
  "abi \<Rightarrow> ('f \<Rightarrow> nat \<Rightarrow> int) \<Rightarrow> 'f lisp_object \<Rightarrow> ('f, 'h) gc_state \<Rightarrow> ('f, 'h) gc_state" where
  "watch_gc_cons_percentage abi fmul newval s =
     (if FLOATP newval then
        update_bytes_between_gc abi fmul (s\<lparr>Vgc_cons_percentage := newval\<rparr>)
      else s)"

text \<open>
  \<open>garbage_collect\<close>.  The parameter \<open>mark_and_sweep\<close> is the body between the
  guard and the reset of \<open>bytes_since_gc\<close>: buffer compaction, the marking of all
  roots, the weak tables and \<open>gc_sweep\<close>.
\<close>

definition garbage_collect ::
  "abi \<Rightarrow> ('f \<Rightarrow> nat \<Rightarrow> int) \<Rightarrow> (('f, 'h) gc_state \<Rightarrow> ('f, 'h) gc_state)
     \<Rightarrow> ('f, 'h) gc_state \<Rightarrow> ('f, 'h) gc_state" where
  "garbage_collect abi fmul mark_and_sweep s =
     (if gc_inhibited s \<or> gc_in_progress s then s
      else
        let s1 = s\<lparr>gc_in_progress := True\<rparr>;
            s2 = mark_and_sweep s1;
            s3 = s2\<lparr>bytes_since_gc := 0\<rparr>;
            s4 = update_bytes_between_gc abi fmul s3;
            s5 = s4\<lparr>gc_in_progress := False\<rparr>
        in s5\<lparr>gcs_done := gcs_done s5 + 1\<rparr>)"

datatype lisp_error = Wrong_type_argument | Memory_exhausted

text \<open>
  \<open>Fgarbage_collect_maybe\<close>.  \<open>CHECK_FIXNAT\<close> signals for anything but a
  non-negative fixnum; the division is C's, truncating towards zero.
\<close>

definition Fgarbage_collect_maybe ::
  "abi \<Rightarrow> ('f \<Rightarrow> nat \<Rightarrow> int) \<Rightarrow> (('f, 'h) gc_state \<Rightarrow> ('f, 'h) gc_state)
     \<Rightarrow> 'f lisp_object \<Rightarrow> ('f, 'h) gc_state
     \<Rightarrow> lisp_error + 'f lisp_object \<times> ('f, 'h) gc_state" where
  "Fgarbage_collect_maybe abi fmul mark_and_sweep factor s =
     (case factor of
        Fixnum fct \<Rightarrow>
          if fct < 0 then Inl Wrong_type_argument
          else if fct \<ge> 1 \<and> bytes_since_gc s > bytes_between_gc s sdiv fct
          then Inr (Qt, garbage_collect abi fmul mark_and_sweep s)
          else Inr (Qnil, s)
      | _ \<Rightarrow> Inl Wrong_type_argument)"

text \<open>
  Modelled from the spec: \<open>maybe_garbage_collect\<close>, the inline trigger on the
  allocation path, is defined in lisp.h, which is not among the sources.  The spec:
  automatic collection triggers exactly when cumulative bytes-since-last-collection
  exceeds the effective threshold.
\<close>

definition maybe_garbage_collect ::
  "abi \<Rightarrow> ('f \<Rightarrow> nat \<Rightarrow> int) \<Rightarrow> (('f, 'h) gc_state \<Rightarrow> ('f, 'h) gc_state)
     \<Rightarrow> ('f, 'h) gc_state \<Rightarrow> ('f, 'h) gc_state" where
  "maybe_garbage_collect abi fmul mark_and_sweep s =
     (if bytes_since_gc s > bytes_between_gc s
      then garbage_collect abi fmul mark_and_sweep s
      else s)"


subsection \<open>Out of memory\<close>

datatype 'f outcome = Fatal string | Signal "'f lisp_object" "'f lisp_object"

datatype sys_call = Malloc nat | Free

record 'f oom_state =
  initialized :: bool
  Vmemory_full :: "'f lisp_object"
  Vmemory_signal_data :: "'f lisp_object"

text \<open>
  \<open>memory_full\<close>.  The parameter \<open>malloc_succeeds n\<close> tells whether the C library's
  \<open>malloc (n)\<close> returns a block.  The result is how the function leaves (\<open>fatal\<close>
  ends the process, \<open>xsignal\<close> raises), the calls it made to the C allocator, and
  the state.
\<close>

definition memory_full ::
  "(nat \<Rightarrow> bool) \<Rightarrow> nat \<Rightarrow> 'f oom_state \<Rightarrow> 'f outcome \<times> sys_call list \<times> 'f oom_state" where
  "memory_full malloc_succeeds nbytes s =
     (let enough = 2 ^ 14 in
      if \<not> initialized s then (Fatal ''memory exhausted'', [], s)
      else
        let s1 = s\<lparr>Vmemory_full := Qt\<rparr> in
        if nbytes > enough then
          (if malloc_succeeds enough
           then let s2 = s1\<lparr>Vmemory_full := Qnil\<rparr>
                in (Signal Qnil (Vmemory_signal_data s2), [Malloc enough, Free], s2)
           else (Signal Qnil (Vmemory_signal_data s1), [Malloc enough], s1))
        else (Signal Qnil (Vmemory_signal_data s1), [], s1))"

text \<open>The value \<open>syms_of_alloc\<close> stores in \<open>Vmemory_signal_data\<close>, in pure space.\<close>

definition memory_signal_data :: "'f lisp_object" where
  "memory_signal_data =
     List [Symbol ''error'',
           String ''Memory exhausted--use M-x save-some-buffers then exit and restart Emacs'']"

subsection \<open>Concrete states for evaluation\<close>

text \<open>
  An idealised double for the concrete evaluations: a rational, with the product
  computed exactly and truncated towards zero.
\<close>

definition exact_fmul :: "rat \<Rightarrow> nat \<Rightarrow> int" where
  "exact_fmul p n = (if 0 \<le> p then \<lfloor>p * of_nat n\<rfloor> else \<lceil>p * of_nat n\<rceil>)"

definition gcstat0 :: gcstat where
  "gcstat0 = \<lparr> total_conses = 0, total_free_conses = 0, total_symbols = 0,
               total_free_symbols = 0, total_strings = 0, total_free_strings = 0,
               total_string_bytes = 0, total_vectors = 0, total_vector_slots = 0,
               total_free_vector_slots = 0, total_floats = 0, total_free_floats = 0,
               total_intervals = 0, total_free_intervals = 0, total_buffers = 0 \<rparr>"

text \<open>The state \<open>init_alloc_once\<close> and \<open>syms_of_alloc\<close> leave, before any collection.\<close>

definition gc_state0 :: "(rat, unit) gc_state" where
  "gc_state0 = \<lparr> gc_cons_threshold = GC_DEFAULT_THRESHOLD abi64,
                 Vgc_cons_percentage = Float (1 / 10),
                 bytes_since_gc = 0,
                 bytes_between_gc = GC_DEFAULT_THRESHOLD abi64,
                 gc_inhibited = False, gc_in_progress = False, gcs_done = 0,
                 gcstat = gcstat0, heap = () \<rparr>"

definition oom_state0 :: "rat oom_state" where
  "oom_state0 = \<lparr> initialized = True, Vmemory_full = Qnil,
                  Vmemory_signal_data = memory_signal_data \<rparr>"

definition malloc_available :: "nat \<Rightarrow> bool" where
  "malloc_available n = True"

subsection \<open>The conservative heap index: a red-black tree of address ranges\<close>

datatype mem_type =
    MEM_TYPE_NON_LISP
  | MEM_TYPE_CONS
  | MEM_TYPE_STRING
  | MEM_TYPE_SYMBOL
  | MEM_TYPE_FLOAT
  | MEM_TYPE_VECTORLIKE
  | MEM_TYPE_VBLOCK

datatype mem_color = MEM_BLACK | MEM_RED

record mem_node =
  left :: addr
  right :: addr
  parent :: addr
  start :: addr
  end' :: addr
  color :: mem_color
  type :: mem_type

text \<open>
  The nodes live in a store indexed by address.  \<open>MEM_NIL\<close> is the address of the
  sentinel \<open>mem_z\<close>.  \<open>xmalloc\<close> for a node is a bump allocator: it returns
  \<open>next_node\<close> and advances it; it is taken never to fail, and freed nodes are not
  handed out again.
\<close>

definition MEM_NIL :: addr where
  "MEM_NIL = 1"

record mem_state =
  mem :: "addr \<Rightarrow> mem_node"
  mem_root :: addr
  min_heap_address :: addr
  max_heap_address :: addr
  next_node :: addr

definition set_left :: "addr \<Rightarrow> addr \<Rightarrow> mem_state \<Rightarrow> mem_state" where
  "set_left a v s = s\<lparr>mem := (mem s)(a := (mem s a)\<lparr>left := v\<rparr>)\<rparr>"

definition set_right :: "addr \<Rightarrow> addr \<Rightarrow> mem_state \<Rightarrow> mem_state" where
  "set_right a v s = s\<lparr>mem := (mem s)(a := (mem s a)\<lparr>right := v\<rparr>)\<rparr>"

definition set_parent :: "addr \<Rightarrow> addr \<Rightarrow> mem_state \<Rightarrow> mem_state" where
  "set_parent a v s = s\<lparr>mem := (mem s)(a := (mem s a)\<lparr>parent := v\<rparr>)\<rparr>"

definition set_color :: "addr \<Rightarrow> mem_color \<Rightarrow> mem_state \<Rightarrow> mem_state" where
  "set_color a v s = s\<lparr>mem := (mem s)(a := (mem s a)\<lparr>color := v\<rparr>)\<rparr>"

definition set_range :: "addr \<Rightarrow> addr \<Rightarrow> addr \<Rightarrow> mem_type \<Rightarrow> mem_state \<Rightarrow> mem_state" where
  "set_range a st en ty s =
     s\<lparr>mem := (mem s)(a := (mem s a)\<lparr>start := st, end' := en, type := ty\<rparr>)\<rparr>"

text \<open>The static storage before \<open>mem_init\<close>: all zero (the first enumerators).\<close>

definition zero_node :: mem_node where
  "zero_node = \<lparr> left = NULL, right = NULL, parent = NULL, start = NULL, end' = NULL,
                 color = MEM_BLACK, type = MEM_TYPE_NON_LISP \<rparr>"

definition mem_state0 :: mem_state where
  "mem_state0 = \<lparr> mem = (\<lambda>a. zero_node), mem_root = NULL, min_heap_address = NULL,
                  max_heap_address = NULL, next_node = 2 \<rparr>"

definition mem_init :: "mem_state \<Rightarrow> mem_state" where
  "mem_init s =
     (let s1 = set_right MEM_NIL MEM_NIL (set_left MEM_NIL MEM_NIL s);
          s2 = set_parent MEM_NIL NULL s1;
          s3 = set_color MEM_NIL MEM_BLACK s2;
          s4 = s3\<lparr>mem := (mem s3)(MEM_NIL := (mem s3 MEM_NIL)\<lparr>start := NULL, end' := NULL\<rparr>)\<rparr>
      in s4\<lparr>mem_root := MEM_NIL\<rparr>)"

text \<open>\<open>mem_find\<close>: the bounds test, the write to the sentinel, then the search loop.\<close>

partial_function (option) mem_find_loop :: "mem_state \<Rightarrow> addr \<Rightarrow> addr \<Rightarrow> addr option" where
  "mem_find_loop s a p =
     (if a < start (mem s p) \<or> a \<ge> end' (mem s p)
      then mem_find_loop s a (if a < start (mem s p) then left (mem s p) else right (mem s p))
      else Some p)"

definition mem_find :: "addr \<Rightarrow> mem_state \<Rightarrow> (addr \<times> mem_state) option" where
  "mem_find a s =
     (if a < min_heap_address s \<or> a > max_heap_address s then Some (MEM_NIL, s)
      else
        let s1 = s\<lparr>mem := (mem s)(MEM_NIL := (mem s MEM_NIL)\<lparr>start := a, end' := a + 1\<rparr>)\<rparr>
        in map_option (\<lambda>p. (p, s1)) (mem_find_loop s1 a (mem_root s1)))"

definition mem_rotate_left :: "addr \<Rightarrow> mem_state \<Rightarrow> mem_state" where
  "mem_rotate_left x s =
     (let y = right (mem s x);
          s1 = set_right x (left (mem s y)) s;
          s2 = (if left (mem s1 y) \<noteq> MEM_NIL then set_parent (left (mem s1 y)) x s1 else s1);
          s3 = (if y \<noteq> MEM_NIL then set_parent y (parent (mem s2 x)) s2 else s2);
          s4 = (if parent (mem s3 x) \<noteq> NULL then
                  (if x = left (mem s3 (parent (mem s3 x)))
                   then set_left (parent (mem s3 x)) y s3
                   else set_right (parent (mem s3 x)) y s3)
                else s3\<lparr>mem_root := y\<rparr>);
          s5 = set_left y x s4
      in if x \<noteq> MEM_NIL then set_parent x y s5 else s5)"

definition mem_rotate_right :: "addr \<Rightarrow> mem_state \<Rightarrow> mem_state" where
  "mem_rotate_right x s =
     (let y = left (mem s x);
          s1 = set_left x (right (mem s y)) s;
          s2 = (if right (mem s1 y) \<noteq> MEM_NIL then set_parent (right (mem s1 y)) x s1 else s1);
          s3 = (if y \<noteq> MEM_NIL then set_parent y (parent (mem s2 x)) s2 else s2);
          s4 = (if parent (mem s3 x) \<noteq> NULL then
                  (if x = right (mem s3 (parent (mem s3 x)))
                   then set_right (parent (mem s3 x)) y s3
                   else set_left (parent (mem s3 x)) y s3)
                else s3\<lparr>mem_root := y\<rparr>);
          s5 = set_right y x s4
      in if x \<noteq> MEM_NIL then set_parent x y s5 else s5)"

text \<open>
  One turn of the loop of \<open>mem_insert_fixup\<close>: the new \<open>x\<close> and the new state.
  Pointers are read again after every write, as the C expressions are.
\<close>

definition mem_insert_fixup_step :: "addr \<Rightarrow> mem_state \<Rightarrow> addr \<times> mem_state" where
  "mem_insert_fixup_step x s =
     (if parent (mem s x) = left (mem s (parent (mem s (parent (mem s x))))) then
        (let y = right (mem s (parent (mem s (parent (mem s x))))) in
         if color (mem s y) = MEM_RED then
           (let s1 = set_color (parent (mem s x)) MEM_BLACK s;
                s2 = set_color y MEM_BLACK s1;
                s3 = set_color (parent (mem s2 (parent (mem s2 x)))) MEM_RED s2
            in (parent (mem s3 (parent (mem s3 x))), s3))
         else
           (let (x1, s1) = (if x = right (mem s (parent (mem s x)))
                            then (parent (mem s x), mem_rotate_left (parent (mem s x)) s)
                            else (x, s));
                s2 = set_color (parent (mem s1 x1)) MEM_BLACK s1;
                s3 = set_color (parent (mem s2 (parent (mem s2 x1)))) MEM_RED s2
            in (x1, mem_rotate_right (parent (mem s3 (parent (mem s3 x1)))) s3)))
      else
        (let y = left (mem s (parent (mem s (parent (mem s x))))) in
         if color (mem s y) = MEM_RED then
           (let s1 = set_color (parent (mem s x)) MEM_BLACK s;
                s2 = set_color y MEM_BLACK s1;
                s3 = set_color (parent (mem s2 (parent (mem s2 x)))) MEM_RED s2
            in (parent (mem s3 (parent (mem s3 x))), s3))
         else
           (let (x1, s1) = (if x = left (mem s (parent (mem s x)))
                            then (parent (mem s x), mem_rotate_right (parent (mem s x)) s)
                            else (x, s));
                s2 = set_color (parent (mem s1 x1)) MEM_BLACK s1;
                s3 = set_color (parent (mem s2 (parent (mem s2 x1)))) MEM_RED s2
            in (x1, mem_rotate_left (parent (mem s3 (parent (mem s3 x1)))) s3))))"

partial_function (option) mem_insert_fixup_loop :: "addr \<Rightarrow> mem_state \<Rightarrow> mem_state option" where
  "mem_insert_fixup_loop x s =
     (if x \<noteq> mem_root s \<and> color (mem s (parent (mem s x))) = MEM_RED
      then mem_insert_fixup_loop (fst (mem_insert_fixup_step x s))
             (snd (mem_insert_fixup_step x s))
      else Some s)"

definition mem_insert_fixup :: "addr \<Rightarrow> mem_state \<Rightarrow> mem_state option" where
  "mem_insert_fixup x s =
     map_option (\<lambda>s'. set_color (mem_root s') MEM_BLACK s') (mem_insert_fixup_loop x s)"

text \<open>The descent of \<open>mem_insert\<close> to the place of the new node; it returns \<open>parent\<close>.\<close>

partial_function (option) mem_insert_descend ::
  "mem_state \<Rightarrow> addr \<Rightarrow> addr \<Rightarrow> addr \<Rightarrow> addr option" where
  "mem_insert_descend s st c par =
     (if c \<noteq> MEM_NIL
      then mem_insert_descend s st
             (if st < start (mem s c) then left (mem s c) else right (mem s c)) c
      else Some par)"

definition mem_insert ::
  "addr \<Rightarrow> addr \<Rightarrow> mem_type \<Rightarrow> mem_state \<Rightarrow> (addr \<times> mem_state) option" where
  "mem_insert st en ty s =
     (let s1 = (if min_heap_address s = NULL \<or> st < min_heap_address s
                then s\<lparr>min_heap_address := st\<rparr> else s);
          s2 = (if max_heap_address s1 = NULL \<or> en > max_heap_address s1
                then s1\<lparr>max_heap_address := en\<rparr> else s1)
      in case mem_insert_descend s2 st (mem_root s2) NULL of
           None \<Rightarrow> None
         | Some par \<Rightarrow>
             let x = next_node s2;
                 s3 = s2\<lparr>next_node := x + 1,
                         mem := (mem s2)(x := \<lparr> left = MEM_NIL, right = MEM_NIL, parent = par,
                                               start = st, end' = en, color = MEM_RED,
                                               type = ty \<rparr>)\<rparr>;
                 s4 = (if par \<noteq> NULL then
                         (if st < start (mem s3 par) then set_left par x s3
                          else set_right par x s3)
                       else s3\<lparr>mem_root := x\<rparr>)
             in map_option (\<lambda>s5. (x, s5)) (mem_insert_fixup x s4))"

text \<open>
  One turn of the loop of \<open>mem_delete_fixup\<close>, in the pieces of the C text: the
  block for a red sibling \<open>w\<close>, which returns the new sibling, and the rest of the
  turn, which returns the new \<open>x\<close>; each for \<open>x\<close> a left child and for \<open>x\<close> a right
  child.
\<close>

definition mem_delete_fixup_sibling_left :: "addr \<Rightarrow> mem_state \<Rightarrow> addr \<times> mem_state" where
  "mem_delete_fixup_sibling_left x s =
     (let w = right (mem s (parent (mem s x))) in
      if color (mem s w) = MEM_RED then
        (let t1 = set_color w MEM_BLACK s;
             t2 = set_color (parent (mem t1 x)) MEM_RED t1;
             t3 = mem_rotate_left (parent (mem t2 x)) t2
         in (right (mem t3 (parent (mem t3 x))), t3))
      else (w, s))"

definition mem_delete_fixup_rest_left ::
  "addr \<Rightarrow> addr \<Rightarrow> mem_state \<Rightarrow> addr \<times> mem_state" where
  "mem_delete_fixup_rest_left x w s =
     (if color (mem s (left (mem s w))) = MEM_BLACK
         \<and> color (mem s (right (mem s w))) = MEM_BLACK
      then (parent (mem (set_color w MEM_RED s) x), set_color w MEM_RED s)
      else
        (let (w', s2) = (if color (mem s (right (mem s w))) = MEM_BLACK then
                           (let t1 = set_color (left (mem s w)) MEM_BLACK s;
                                t2 = set_color w MEM_RED t1;
                                t3 = mem_rotate_right w t2
                            in (right (mem t3 (parent (mem t3 x))), t3))
                         else (w, s));
             s3 = set_color w' (color (mem s2 (parent (mem s2 x)))) s2;
             s4 = set_color (parent (mem s3 x)) MEM_BLACK s3;
             s5 = set_color (right (mem s4 w')) MEM_BLACK s4;
             s6 = mem_rotate_left (parent (mem s5 x)) s5
         in (mem_root s6, s6)))"

definition mem_delete_fixup_sibling_right :: "addr \<Rightarrow> mem_state \<Rightarrow> addr \<times> mem_state" where
  "mem_delete_fixup_sibling_right x s =
     (let w = left (mem s (parent (mem s x))) in
      if color (mem s w) = MEM_RED then
        (let t1 = set_color w MEM_BLACK s;
             t2 = set_color (parent (mem t1 x)) MEM_RED t1;
             t3 = mem_rotate_right (parent (mem t2 x)) t2
         in (left (mem t3 (parent (mem t3 x))), t3))
      else (w, s))"

definition mem_delete_fixup_rest_right ::
  "addr \<Rightarrow> addr \<Rightarrow> mem_state \<Rightarrow> addr \<times> mem_state" where
  "mem_delete_fixup_rest_right x w s =
     (if color (mem s (right (mem s w))) = MEM_BLACK
         \<and> color (mem s (left (mem s w))) = MEM_BLACK
      then (parent (mem (set_color w MEM_RED s) x), set_color w MEM_RED s)
      else
        (let (w', s2) = (if color (mem s (left (mem s w))) = MEM_BLACK then
                           (let t1 = set_color (right (mem s w)) MEM_BLACK s;
                                t2 = set_color w MEM_RED t1;
                                t3 = mem_rotate_left w t2
                            in (left (mem t3 (parent (mem t3 x))), t3))
                         else (w, s));
             s3 = set_color w' (color (mem s2 (parent (mem s2 x)))) s2;
             s4 = set_color (parent (mem s3 x)) MEM_BLACK s3;
             s5 = set_color (left (mem s4 w')) MEM_BLACK s4;
             s6 = mem_rotate_right (parent (mem s5 x)) s5
         in (mem_root s6, s6)))"

definition mem_delete_fixup_step :: "addr \<Rightarrow> mem_state \<Rightarrow> addr \<times> mem_state" where
  "mem_delete_fixup_step x s =
     (if x = left (mem s (parent (mem s x))) then
        (case mem_delete_fixup_sibling_left x s of
           (w, s1) \<Rightarrow> mem_delete_fixup_rest_left x w s1)
      else
        (case mem_delete_fixup_sibling_right x s of
           (w, s1) \<Rightarrow> mem_delete_fixup_rest_right x w s1))"

partial_function (option) mem_delete_fixup_loop ::
  "addr \<Rightarrow> mem_state \<Rightarrow> (addr \<times> mem_state) option" where
  "mem_delete_fixup_loop x s =
     (if x \<noteq> mem_root s \<and> color (mem s x) = MEM_BLACK
      then mem_delete_fixup_loop (fst (mem_delete_fixup_step x s))
             (snd (mem_delete_fixup_step x s))
      else Some (x, s))"

definition mem_delete_fixup :: "addr \<Rightarrow> mem_state \<Rightarrow> mem_state option" where
  "mem_delete_fixup x s =
     map_option (\<lambda>(x', s'). set_color x' MEM_BLACK s') (mem_delete_fixup_loop x s)"

text \<open>The loop of \<open>mem_delete\<close> that finds the leftmost node below \<open>z->right\<close>.\<close>

partial_function (option) mem_delete_leftmost :: "mem_state \<Rightarrow> addr \<Rightarrow> addr option" where
  "mem_delete_leftmost s y =
     (if left (mem s y) \<noteq> MEM_NIL then mem_delete_leftmost s (left (mem s y)) else Some y)"

definition mem_delete :: "addr \<Rightarrow> mem_state \<Rightarrow> mem_state option" where
  "mem_delete z s =
     (if z = NULL \<or> z = MEM_NIL then Some s
      else
        case (if left (mem s z) = MEM_NIL \<or> right (mem s z) = MEM_NIL then Some z
              else mem_delete_leftmost s (right (mem s z))) of
          None \<Rightarrow> None
        | Some y \<Rightarrow>
            let x = (if left (mem s y) \<noteq> MEM_NIL then left (mem s y) else right (mem s y));
                s1 = set_parent x (parent (mem s y)) s;
                s2 = (if parent (mem s1 y) \<noteq> NULL then
                        (if y = left (mem s1 (parent (mem s1 y)))
                         then set_left (parent (mem s1 y)) x s1
                         else set_right (parent (mem s1 y)) x s1)
                      else s1\<lparr>mem_root := x\<rparr>);
                s3 = (if y \<noteq> z
                      then set_range z (start (mem s2 y)) (end' (mem s2 y)) (type (mem s2 y)) s2
                      else s2)
            in if color (mem s3 y) = MEM_BLACK then mem_delete_fixup x s3 else Some s3)"

text \<open>
  The two ways alloc.c uses the index: \<open>lisp_malloc\<close> registers a block with
  \<open>mem_insert\<close>; \<open>lisp_free\<close> and \<open>sweep_vectors\<close> remove one with
  \<open>mem_delete (mem_find (block))\<close>.
\<close>

datatype mem_op = Insert addr addr mem_type | Delete addr

definition mem_delete_find :: "addr \<Rightarrow> mem_state \<Rightarrow> mem_state option" where
  "mem_delete_find a s =
     (case mem_find a s of None \<Rightarrow> None | Some (z, s') \<Rightarrow> mem_delete z s')"

fun mem_run :: "mem_op list \<Rightarrow> mem_state \<Rightarrow> mem_state option" where
  "mem_run [] s = Some s"
| "mem_run (Insert st en ty # ops) s =
     (case mem_insert st en ty s of None \<Rightarrow> None | Some (x, s') \<Rightarrow> mem_run ops s')"
| "mem_run (Delete a # ops) s =
     (case mem_delete_find a s of None \<Rightarrow> None | Some s' \<Rightarrow> mem_run ops s')"

subsection \<open>Reading the tree off the store\<close>

text \<open>
  A \<open>shape\<close> is a binary tree of node addresses.  \<open>wf h par p t\<close> says that in the
  store \<open>h\<close> the pointer \<open>p\<close>, found in a node at \<open>par\<close>, is the root of a subtree of
  shape \<open>t\<close>: child and parent pointers agree with \<open>t\<close>, and a leaf is the sentinel.
\<close>

datatype shape = Leaf | Node shape addr shape

fun inorder :: "shape \<Rightarrow> addr list" where
  "inorder Leaf = []"
| "inorder (Node l a r) = inorder l @ a # inorder r"

fun rootp :: "shape \<Rightarrow> addr" where
  "rootp Leaf = MEM_NIL"
| "rootp (Node l a r) = a"

fun wf :: "(addr \<Rightarrow> mem_node) \<Rightarrow> addr \<Rightarrow> addr \<Rightarrow> shape \<Rightarrow> bool" where
  "wf h par p Leaf = (p = MEM_NIL)"
| "wf h par p (Node l a r) =
     (p = a \<and> a \<noteq> MEM_NIL \<and> a \<noteq> NULL \<and> parent (h a) = par
      \<and> wf h a (left (h a)) l \<and> wf h a (right (h a)) r)"

text \<open>The colour of a subtree's root (a leaf is the black sentinel) and black heights.\<close>

fun root_color :: "(addr \<Rightarrow> mem_node) \<Rightarrow> shape \<Rightarrow> mem_color" where
  "root_color h Leaf = MEM_BLACK"
| "root_color h (Node l a r) = color (h a)"

fun bh :: "(addr \<Rightarrow> mem_node) \<Rightarrow> shape \<Rightarrow> nat" where
  "bh h Leaf = 0"
| "bh h (Node l a r) = bh h l + (if color (h a) = MEM_BLACK then 1 else 0)"

fun balanced :: "(addr \<Rightarrow> mem_node) \<Rightarrow> shape \<Rightarrow> bool" where
  "balanced h Leaf = True"
| "balanced h (Node l a r) = (balanced h l \<and> balanced h r \<and> bh h l = bh h r)"

fun no_red_red :: "(addr \<Rightarrow> mem_node) \<Rightarrow> shape \<Rightarrow> bool" where
  "no_red_red h Leaf = True"
| "no_red_red h (Node l a r) =
     (no_red_red h l \<and> no_red_red h r
      \<and> (color (h a) = MEM_BLACK
         \<or> (root_color h l = MEM_BLACK \<and> root_color h r = MEM_BLACK)))"

text \<open>
  \<open>tree_of s t\<close>: the store of \<open>s\<close> holds a tree of shape \<open>t\<close> below \<open>mem_root\<close>, on
  distinct nodes that \<open>xmalloc\<close> has handed out, and the sentinel is black.
\<close>

definition tree_of :: "mem_state \<Rightarrow> shape \<Rightarrow> bool" where
  "tree_of s t =
     (wf (mem s) NULL (mem_root s) t \<and> distinct (inorder t)
      \<and> list_all (\<lambda>a. 2 \<le> a \<and> a < next_node s) (inorder t)
      \<and> 2 \<le> next_node s
      \<and> color (mem s MEM_NIL) = MEM_BLACK)"

text \<open>
  The red-black invariants: the root is black, no red node has a red child, every
  path from the root to a leaf has the same number of black nodes.
\<close>

definition red_black :: "mem_state \<Rightarrow> shape \<Rightarrow> bool" where
  "red_black s t =
     (tree_of s t \<and> color (mem s (mem_root s)) = MEM_BLACK
      \<and> no_red_red (mem s) t \<and> balanced (mem s) t)"

text \<open>
  The ranges of a tree in order, and what the search needs of them: each range is
  non-empty and ends at or before the start of every later one.
\<close>

definition ranges :: "(addr \<Rightarrow> mem_node) \<Rightarrow> shape \<Rightarrow> (addr \<times> addr) list" where
  "ranges h t = map (\<lambda>a. (start (h a), end' (h a))) (inorder t)"

definition before_range :: "addr \<times> addr \<Rightarrow> addr \<times> addr \<Rightarrow> bool" where
  "before_range r1 r2 = (snd r1 \<le> fst r2)"

definition ordered :: "(addr \<times> addr) list \<Rightarrow> bool" where
  "ordered rs = (list_all (\<lambda>r. fst r < snd r) rs \<and> sorted_wrt before_range rs)"

definition in_range :: "addr \<Rightarrow> addr \<times> addr \<Rightarrow> bool" where
  "in_range a r = (fst r \<le> a \<and> a < snd r)"

definition overlap :: "addr \<times> addr \<Rightarrow> addr \<times> addr \<Rightarrow> bool" where
  "overlap r1 r2 = (fst r1 < snd r2 \<and> fst r2 < snd r1)"

text \<open>
  The position in a tree: the path from a subtree up to the root, nearest node first.
  \<open>LeftOf a r\<close>: the subtree is the left child of \<open>a\<close>, whose right subtree is \<open>r\<close>.
\<close>

datatype frame = LeftOf addr shape | RightOf shape addr

fun plug :: "frame list \<Rightarrow> shape \<Rightarrow> shape" where
  "plug [] t = t"
| "plug (LeftOf a r # c) t = plug c (Node t a r)"
| "plug (RightOf l a # c) t = plug c (Node l a t)"

fun hole_parent :: "frame list \<Rightarrow> addr" where
  "hole_parent [] = NULL"
| "hole_parent (LeftOf a r # c) = a"
| "hole_parent (RightOf l a # c) = a"

fun before :: "frame list \<Rightarrow> addr list" where
  "before [] = []"
| "before (LeftOf a r # c) = before c"
| "before (RightOf l a # c) = before c @ inorder l @ [a]"

fun after :: "frame list \<Rightarrow> addr list" where
  "after [] = []"
| "after (LeftOf a r # c) = a # inorder r @ after c"
| "after (RightOf l a # c) = after c"

fun wfc :: "(addr \<Rightarrow> mem_node) \<Rightarrow> addr \<Rightarrow> frame list \<Rightarrow> addr \<Rightarrow> bool" where
  "wfc h rt [] p = (rt = p)"
| "wfc h rt (LeftOf a r # c) p =
     (a \<noteq> MEM_NIL \<and> a \<noteq> NULL \<and> left (h a) = p \<and> wf h a (right (h a)) r
      \<and> parent (h a) = hole_parent c \<and> wfc h rt c a)"
| "wfc h rt (RightOf l a # c) p =
     (a \<noteq> MEM_NIL \<and> a \<noteq> NULL \<and> right (h a) = p \<and> wf h a (left (h a)) l
      \<and> parent (h a) = hole_parent c \<and> wfc h rt c a)"

text \<open>
  \<open>cbal h c n\<close>: the path is balanced when the subtree has black height \<open>n\<close>;
  \<open>cnrr h c k\<close>: the path has no red node with a red child when the subtree's root
  has colour \<open>k\<close>.
\<close>

fun cbal :: "(addr \<Rightarrow> mem_node) \<Rightarrow> frame list \<Rightarrow> nat \<Rightarrow> bool" where
  "cbal h [] n = True"
| "cbal h (LeftOf a r # c) n =
     (balanced h r \<and> bh h r = n
      \<and> cbal h c (n + (if color (h a) = MEM_BLACK then 1 else 0)))"
| "cbal h (RightOf l a # c) n =
     (balanced h l \<and> bh h l = n
      \<and> cbal h c (n + (if color (h a) = MEM_BLACK then 1 else 0)))"

fun cnrr :: "(addr \<Rightarrow> mem_node) \<Rightarrow> frame list \<Rightarrow> mem_color \<Rightarrow> bool" where
  "cnrr h [] k = True"
| "cnrr h (LeftOf a r # c) k =
     (no_red_red h r
      \<and> (color (h a) = MEM_BLACK \<or> (k = MEM_BLACK \<and> root_color h r = MEM_BLACK))
      \<and> cnrr h c (color (h a)))"
| "cnrr h (RightOf l a # c) k =
     (no_red_red h l
      \<and> (color (h a) = MEM_BLACK \<or> (root_color h l = MEM_BLACK \<and> k = MEM_BLACK))
      \<and> cnrr h c (color (h a)))"

text \<open>
  The ranges registered by a sequence of operations, as the callers see them: an
  insertion adds its range, a deletion at an address removes the range holding it.
  An insertion is \<open>valid\<close> when its range is non-empty, does not start at the null
  address, and overlaps no registered range (the blocks come from \<open>malloc\<close>).
\<close>

fun registered :: "mem_op list \<Rightarrow> (addr \<times> addr) list \<Rightarrow> (addr \<times> addr) list" where
  "registered [] rs = rs"
| "registered (Insert st en ty # ops) rs = registered ops ((st, en) # rs)"
| "registered (Delete a # ops) rs = registered ops (filter (\<lambda>r. \<not> in_range a r) rs)"

fun valid_ops :: "mem_op list \<Rightarrow> (addr \<times> addr) list \<Rightarrow> bool" where
  "valid_ops [] rs = True"
| "valid_ops (Insert st en ty # ops) rs =
     (0 < st \<and> st < en \<and> list_all (\<lambda>r. \<not> overlap (st, en) r) rs
      \<and> valid_ops ops ((st, en) # rs))"
| "valid_ops (Delete a # ops) rs = valid_ops ops (filter (\<lambda>r. \<not> in_range a r) rs)"

text \<open>
  The path of the descent of \<open>mem_insert\<close>: it goes left of a node exactly when the
  new start lies below the node's.
\<close>

fun path_ok :: "(addr \<Rightarrow> mem_node) \<Rightarrow> addr \<Rightarrow> frame list \<Rightarrow> bool" where
  "path_ok h st [] = True"
| "path_ok h st (LeftOf a r # c) = (st < start (h a) \<and> path_ok h st c)"
| "path_ok h st (RightOf l a # c) = (start (h a) \<le> st \<and> path_ok h st c)"

text \<open>
  The two steps of \<open>mem_insert\<close> around the descent, named for the proofs: the update
  of the heap bounds, and the allocation and linking of the new node below \<open>par\<close>.
\<close>

definition insert_bounds :: "addr \<Rightarrow> addr \<Rightarrow> mem_state \<Rightarrow> mem_state" where
  "insert_bounds st en s =
     (let s1 = (if min_heap_address s = NULL \<or> st < min_heap_address s
                then s\<lparr>min_heap_address := st\<rparr> else s)
      in if max_heap_address s1 = NULL \<or> en > max_heap_address s1
         then s1\<lparr>max_heap_address := en\<rparr> else s1)"

definition link_node :: "addr \<Rightarrow> addr \<Rightarrow> mem_type \<Rightarrow> addr \<Rightarrow> mem_state \<Rightarrow> mem_state" where
  "link_node st en ty par s2 =
     (let x = next_node s2;
          s3 = s2\<lparr>next_node := x + 1,
                  mem := (mem s2)(x := \<lparr> left = MEM_NIL, right = MEM_NIL, parent = par,
                                        start = st, end' = en, color = MEM_RED,
                                        type = ty \<rparr>)\<rparr>
      in if par \<noteq> NULL then
           (if st < start (mem s3 par) then set_left par x s3 else set_right par x s3)
         else s3\<lparr>mem_root := x\<rparr>)"

text \<open>
  The invariant of the loop of \<open>mem_insert_fixup\<close> at the subtree \<open>t\<close> rooted at \<open>x\<close>,
  in the position \<open>c\<close>: \<open>x\<close> is red, and the only red node with a red child can be
  the parent of \<open>x\<close>.  \<open>same_data\<close>: two states agree on every node's range and type,
  on the heap bounds and on the allocation pointer.  \<open>fix_post\<close>: what the loop
  establishes.
\<close>

definition ins_inv :: "mem_state \<Rightarrow> frame list \<Rightarrow> shape \<Rightarrow> bool" where
  "ins_inv s c t =
     (tree_of s (plug c t) \<and> t \<noteq> Leaf \<and> color (mem s (rootp t)) = MEM_RED
      \<and> no_red_red (mem s) t \<and> balanced (mem s) (plug c t) \<and> cnrr (mem s) c MEM_BLACK
      \<and> (c \<noteq> [] \<longrightarrow> color (mem s (mem_root s)) = MEM_BLACK))"

definition same_data :: "mem_state \<Rightarrow> mem_state \<Rightarrow> bool" where
  "same_data s s' =
     ((\<forall>n. start (mem s' n) = start (mem s n) \<and> end' (mem s' n) = end' (mem s n)
           \<and> type (mem s' n) = type (mem s n))
      \<and> min_heap_address s' = min_heap_address s
      \<and> max_heap_address s' = max_heap_address s
      \<and> next_node s' = next_node s)"

definition fix_post :: "mem_state \<Rightarrow> mem_state \<Rightarrow> shape \<Rightarrow> bool" where
  "fix_post s s' t =
     (\<exists>t'. tree_of s' t' \<and> no_red_red (mem s') t' \<and> balanced (mem s') t'
           \<and> inorder t' = inorder t \<and> same_data s s')"

text \<open>
  The range a node records, and the step of \<open>mem_delete\<close> that unlinks \<open>y\<close> and puts
  its only child \<open>x\<close> in its place.  \<open>sentinel_write\<close> is the write of \<open>mem_find\<close> to
  \<open>mem_z\<close>.
\<close>

definition node_range :: "(addr \<Rightarrow> mem_node) \<Rightarrow> addr \<Rightarrow> addr \<times> addr" where
  "node_range h n = (start (h n), end' (h n))"

definition splice :: "addr \<Rightarrow> addr \<Rightarrow> mem_state \<Rightarrow> mem_state" where
  "splice x y s =
     (let s1 = set_parent x (parent (mem s y)) s
      in if parent (mem s1 y) \<noteq> NULL then
           (if y = left (mem s1 (parent (mem s1 y)))
            then set_left (parent (mem s1 y)) x s1
            else set_right (parent (mem s1 y)) x s1)
         else s1\<lparr>mem_root := x\<rparr>)"

definition sentinel_write :: "addr \<Rightarrow> mem_state \<Rightarrow> mem_state" where
  "sentinel_write a s =
     s\<lparr>mem := (mem s)(MEM_NIL := (mem s MEM_NIL)\<lparr>start := a, end' := a + 1\<rparr>)\<rparr>"

text \<open>
  The invariant of the loop of \<open>mem_delete_fixup\<close> at the subtree \<open>t\<close> rooted at \<open>x\<close>,
  in the position \<open>c\<close>: the subtree lacks one black node on every path, and its
  root may be red below a red parent.  \<open>del_post\<close>: what the loop establishes once
  the node it stops at is painted black.
\<close>

fun nrr_below :: "(addr \<Rightarrow> mem_node) \<Rightarrow> shape \<Rightarrow> bool" where
  "nrr_below h Leaf = True"
| "nrr_below h (Node l a r) = (no_red_red h l \<and> no_red_red h r)"

definition del_inv :: "mem_state \<Rightarrow> frame list \<Rightarrow> shape \<Rightarrow> bool" where
  "del_inv s c t =
     (tree_of s (plug c t) \<and> parent (mem s (rootp t)) = hole_parent c
      \<and> balanced (mem s) t \<and> cbal (mem s) c (bh (mem s) t + 1)
      \<and> nrr_below (mem s) t \<and> cnrr (mem s) c MEM_BLACK
      \<and> (c \<noteq> [] \<longrightarrow> color (mem s (mem_root s)) = MEM_BLACK))"

definition del_post :: "mem_state \<Rightarrow> addr \<Rightarrow> mem_state \<Rightarrow> shape \<Rightarrow> bool" where
  "del_post s x' s' t =
     (\<exists>t'. inorder t' = inorder t \<and> red_black (set_color x' MEM_BLACK s') t'
           \<and> same_data s s')"

text \<open>
  What the callers keep true of the index: every recorded range lies within the heap
  bounds, which are set once a node exists; and, with \<open>rs\<close> the ranges registered so
  far, the tree is a red-black tree whose ranges, in order, are those of \<open>rs\<close>.
  \<open>no_overlap\<close>: no two ranges of a list share an address.
\<close>

definition within_bounds :: "mem_state \<Rightarrow> shape \<Rightarrow> bool" where
  "within_bounds s t =
     ((inorder t \<noteq> [] \<longrightarrow> min_heap_address s \<noteq> NULL)
      \<and> list_all (\<lambda>n. min_heap_address s \<le> start (mem s n)
                       \<and> end' (mem s n) \<le> max_heap_address s) (inorder t))"

definition index_inv :: "mem_state \<Rightarrow> shape \<Rightarrow> (addr \<times> addr) list \<Rightarrow> bool" where
  "index_inv s t rs =
     (red_black s t \<and> ordered (ranges (mem s) t) \<and> set (ranges (mem s) t) = set rs
      \<and> within_bounds s t)"

fun no_overlap :: "(addr \<times> addr) list \<Rightarrow> bool" where
  "no_overlap [] = True"
| "no_overlap (r # rs) = (list_all (\<lambda>q. \<not> overlap r q) rs \<and> no_overlap rs)"

subsection \<open>Vectors: the free lists of the vector blocks\<close>

text \<open>
  The sizes of lisp.h that the vector allocator uses on top of those of \<open>abi\<close>.
  Byte counts, lengths and free-list indices are \<open>ptrdiff_t\<close> in alloc.c and
  integers here; \<open>sdiv\<close> is the division of C.
\<close>

record vabi = abi +
  PSEUDOVECTOR_SIZE_BITS :: nat
  sizeof_uintptr_t :: int
  sizeof_Lisp_Object :: int
  large_vector_contents_offset :: int
  VECTOR_ELTS_MAX :: int

definition vabi64 :: vabi where
  "vabi64 = \<lparr> word_size = 8, header_size = 8, sizeof_Lisp_Cons = 16,
              sizeof_Lisp_Symbol = 48, sizeof_Lisp_String = 32,
              sizeof_Lisp_Float = 8, sizeof_interval = 72, sizeof_buffer = 992,
              PSEUDOVECTOR_SIZE_BITS = 12, sizeof_uintptr_t = 8, sizeof_Lisp_Object = 8,
              large_vector_contents_offset = 8, VECTOR_ELTS_MAX = 2 ^ 60 - 3 \<rparr>"

definition VBLOCK_ALIGN :: "vabi \<Rightarrow> int" where
  "VBLOCK_ALIGN v = 2 ^ PSEUDOVECTOR_SIZE_BITS v"

definition VBLOCK_NBYTES :: "vabi \<Rightarrow> int" where
  "VBLOCK_NBYTES v = VBLOCK_ALIGN v - sizeof_uintptr_t v"

definition LISP_VECTOR_MIN :: "vabi \<Rightarrow> int" where
  "LISP_VECTOR_MIN v = int (header_size v) + sizeof_Lisp_Object v"

definition LARGE_VECTOR_THRESH :: "vabi \<Rightarrow> int" where
  "LARGE_VECTOR_THRESH v = drop_bit 1 (VBLOCK_NBYTES v) - int (word_size v)"

definition VBLOCK_NFREE_LISTS :: "vabi \<Rightarrow> int" where
  "VBLOCK_NFREE_LISTS v =
     1 + (VBLOCK_NBYTES v - LISP_VECTOR_MIN v) sdiv int (word_size v)"

definition ADVANCE :: "addr \<Rightarrow> int \<Rightarrow> addr" where
  "ADVANCE p nbytes = nat (int p + nbytes)"

definition VINDEX :: "vabi \<Rightarrow> int \<Rightarrow> int" where
  "VINDEX v nbytes = (nbytes - LISP_VECTOR_MIN v) sdiv int (word_size v)"

text \<open>
  The state of the vector allocator.  A vector's header is either the plain length
  that \<open>allocate_vectorlike\<close> stores or the mark of a free vector with its word
  count; \<open>contents0\<close> is the first slot of a vector read as a pointer, which links
  the free lists.  \<open>malloc\<close> hands out fresh addresses from \<open>heap_next\<close>; the calls
  to \<open>mem_insert\<close> and \<open>memclear\<close> are recorded in the order made, latest first.
\<close>

datatype vector_header = Header_size int | Header_free int

datatype alloc_error = Memory_full | Abort

record vector_state =
  vector_free_lists :: "int \<Rightarrow> addr"
  contents0 :: "addr \<Rightarrow> addr"
  header :: "addr \<Rightarrow> vector_header"
  vector_blocks :: "addr list"
  large_vectors :: "addr list"
  zero_vector :: addr
  vector_bytes_since_gc :: int
  vector_cells_consed :: int
  heap_next :: addr
  mem_inserted :: "(addr \<times> addr \<times> mem_type) list"
  memcleared :: "(addr \<times> int) list"
  suspicious_objects :: "addr list"

definition next_vector :: "vector_state \<Rightarrow> addr \<Rightarrow> addr" where
  "next_vector s p = contents0 s p"

definition set_next_vector :: "addr \<Rightarrow> addr \<Rightarrow> vector_state \<Rightarrow> vector_state" where
  "set_next_vector p q s = s\<lparr>contents0 := (contents0 s)(p := q)\<rparr>"

definition add_vector_free_lists :: "vabi \<Rightarrow> addr \<Rightarrow> int \<Rightarrow> vector_state \<Rightarrow> vector_state" where
  "add_vector_free_lists v p nbytes s =
     (let nwords = (nbytes - int (header_size v)) sdiv int (word_size v);
          s1 = s\<lparr>header := (header s)(p := Header_free nwords)\<rparr>;
          vindex = VINDEX v nbytes;
          s2 = set_next_vector p (vector_free_lists s1 vindex) s1
      in s2\<lparr>vector_free_lists := (vector_free_lists s2)(vindex := p)\<rparr>)"

text \<open>
  \<open>lisp_malloc\<close> and \<open>allocate_vector_block\<close>, with a \<open>malloc\<close> that succeeds: the
  block is taken at \<open>heap_next\<close> and registered in the heap index.
\<close>

definition lisp_malloc ::
  "int \<Rightarrow> bool \<Rightarrow> mem_type \<Rightarrow> vector_state \<Rightarrow> addr \<times> vector_state" where
  "lisp_malloc nbytes q_clear ty s =
     (let val = heap_next s;
          s1 = s\<lparr>heap_next := ADVANCE val nbytes\<rparr>;
          s2 = (if q_clear then s1\<lparr>memcleared := (val, nbytes) # memcleared s1\<rparr> else s1)
      in (val, if ty \<noteq> MEM_TYPE_NON_LISP
               then s2\<lparr>mem_inserted := (val, ADVANCE val nbytes, ty) # mem_inserted s2\<rparr>
               else s2))"

definition allocate_vector_block :: "vabi \<Rightarrow> vector_state \<Rightarrow> addr \<times> vector_state" where
  "allocate_vector_block v s =
     (let block = heap_next s;
          s1 = s\<lparr>heap_next := ADVANCE block (VBLOCK_NBYTES v + sizeof_uintptr_t v)\<rparr>;
          s2 = s1\<lparr>mem_inserted :=
                   (block, ADVANCE block (VBLOCK_NBYTES v), MEM_TYPE_VBLOCK) # mem_inserted s1\<rparr>
      in (block, s2\<lparr>vector_blocks := block # vector_blocks s2\<rparr>))"

definition find_suspicious_object_in_range :: "vector_state \<Rightarrow> addr \<Rightarrow> addr \<Rightarrow> addr" where
  "find_suspicious_object_in_range s begin_a end_a =
     (case find (\<lambda>ob. begin_a \<le> ob \<and> ob < end_a) (suspicious_objects s) of
        None \<Rightarrow> NULL | Some ob \<Rightarrow> ob)"

text \<open>
  The loop of \<open>allocate_vectorlike\<close> over the free lists, from \<open>index\<close> on: it
  returns the vector taken (or the null pointer), the last value of \<open>restbytes\<close>,
  and the state.
\<close>

function scan_free_lists ::
  "vabi \<Rightarrow> int \<Rightarrow> int \<Rightarrow> int \<Rightarrow> vector_state \<Rightarrow> addr \<times> int \<times> vector_state" where
  "scan_free_lists v nbytes index restbytes0 s =
     (if index < VBLOCK_NFREE_LISTS v then
        let restbytes = index * int (word_size v) + LISP_VECTOR_MIN v - nbytes in
        if (restbytes = 0 \<or> restbytes \<ge> LISP_VECTOR_MIN v)
           \<and> vector_free_lists s index \<noteq> NULL
        then (vector_free_lists s index, restbytes,
              s\<lparr>vector_free_lists :=
                   (vector_free_lists s)(index := next_vector s (vector_free_lists s index))\<rparr>)
        else scan_free_lists v nbytes (index + 1) restbytes s
      else (NULL, restbytes0, s))"
  by pat_completeness auto
termination
  by (relation "measure (\<lambda>(v, nbytes, index, restbytes0, s). nat (VBLOCK_NFREE_LISTS v - index))")
     auto

declare scan_free_lists.simps [simp del]

definition allocate_vectorlike ::
  "vabi \<Rightarrow> int \<Rightarrow> bool \<Rightarrow> vector_state \<Rightarrow> alloc_error + addr \<times> vector_state" where
  "allocate_vectorlike v len q_clear s =
     (let nbytes = int (header_size v) + len * int (word_size v) in
      if len = 0 then Inr (zero_vector s, s)
      else if len > VECTOR_ELTS_MAX v then Inl Memory_full
      else
        let (p, s4) =
          (if nbytes > LARGE_VECTOR_THRESH v then
             let (lv, s1) = lisp_malloc (large_vector_contents_offset v + nbytes) q_clear
                              MEM_TYPE_VECTORLIKE s
             in (ADVANCE lv (large_vector_contents_offset v),
                 s1\<lparr>large_vectors := lv # large_vectors s1\<rparr>)
           else
             let (p0, restbytes0, s1) = scan_free_lists v nbytes (VINDEX v nbytes) 0 s;
                 (p, restbytes, s2) =
                   (if p0 = NULL
                    then let (block, s') = allocate_vector_block v s1
                         in (block, VBLOCK_NBYTES v - nbytes, s')
                    else (p0, restbytes0, s1));
                 s3 = (if restbytes \<noteq> 0
                       then add_vector_free_lists v (ADVANCE p nbytes) restbytes s2 else s2)
             in (p, if q_clear then s3\<lparr>memcleared := (p, nbytes) # memcleared s3\<rparr> else s3))
        in if find_suspicious_object_in_range s4 p (ADVANCE p nbytes) \<noteq> NULL then Inl Abort
           else Inr (p, s4\<lparr>vector_bytes_since_gc := vector_bytes_since_gc s4 + nbytes,
                           vector_cells_consed := vector_cells_consed s4 + len,
                           header := (header s4)(p := Header_size len)\<rparr>))"

text \<open>
  The scan in the words of the specification: the size of the class of an index,
  what is left of a block of that class after the request, the classes the request
  may take a block from, and the first of them from the exact class upward.
\<close>

definition class_size :: "vabi \<Rightarrow> int \<Rightarrow> int" where
  "class_size v i = i * int (word_size v) + LISP_VECTOR_MIN v"

definition residual :: "vabi \<Rightarrow> int \<Rightarrow> int \<Rightarrow> int" where
  "residual v nbytes i = class_size v i - nbytes"

definition fits :: "vabi \<Rightarrow> vector_state \<Rightarrow> int \<Rightarrow> int \<Rightarrow> bool" where
  "fits v s nbytes i =
     ((residual v nbytes i = 0 \<or> residual v nbytes i \<ge> LISP_VECTOR_MIN v)
      \<and> vector_free_lists s i \<noteq> NULL)"

definition first_fit :: "vabi \<Rightarrow> vector_state \<Rightarrow> int \<Rightarrow> int option" where
  "first_fit v s nbytes =
     find (fits v s nbytes) [VINDEX v nbytes .. VBLOCK_NFREE_LISTS v - 1]"

definition requeue :: "vabi \<Rightarrow> addr \<Rightarrow> int \<Rightarrow> (int \<Rightarrow> addr) \<Rightarrow> int \<Rightarrow> addr" where
  "requeue v a rest fl = (if rest = 0 then fl else fl(VINDEX v rest := a))"

definition vector_state0 :: vector_state where
  "vector_state0 =
     \<lparr> vector_free_lists = (\<lambda>i. NULL), contents0 = (\<lambda>a. NULL),
       header = (\<lambda>a. Header_size 0), vector_blocks = [], large_vectors = [],
       zero_vector = 64, vector_bytes_since_gc = 0, vector_cells_consed = 0,
       heap_next = 4096, mem_inserted = [], memcleared = [], suspicious_objects = [] \<rparr>"

text \<open>
  The builds the proofs below are about: the vector header, a Lisp word and a
  pointer each take one word, and a vector block holds at least eight.  The end of
  \<open>allocate_vectorlike\<close> once the vector \<open>p\<close> and \<open>restbytes\<close> are known, named for the
  proofs.  A state with two free vectors, of 40 and 56 bytes.
\<close>

definition word_aligned :: "vabi \<Rightarrow> bool" where
  "word_aligned v =
     (0 < word_size v \<and> header_size v = word_size v
      \<and> sizeof_Lisp_Object v = int (word_size v)
      \<and> sizeof_uintptr_t v = int (word_size v)
      \<and> int (word_size v) dvd VBLOCK_ALIGN v
      \<and> 8 * int (word_size v) \<le> VBLOCK_ALIGN v)"

definition small_tail ::
  "vabi \<Rightarrow> int \<Rightarrow> int \<Rightarrow> bool \<Rightarrow> addr \<Rightarrow> int \<Rightarrow> vector_state \<Rightarrow> vector_state" where
  "small_tail v len nbytes q_clear p restbytes s2 =
     (let s3 = (if restbytes \<noteq> 0
                then add_vector_free_lists v (ADVANCE p nbytes) restbytes s2 else s2);
          s4 = (if q_clear then s3\<lparr>memcleared := (p, nbytes) # memcleared s3\<rparr> else s3)
      in s4\<lparr>vector_bytes_since_gc := vector_bytes_since_gc s4 + nbytes,
              vector_cells_consed := vector_cells_consed s4 + len,
              header := (header s4)(p := Header_size len)\<rparr>)"

definition vector_state1 :: vector_state where
  "vector_state1 =
     vector_state0\<lparr>vector_free_lists := (\<lambda>i. if i = 3 then 6000 else if i = 5 then 5000 else NULL),
                    vector_blocks := [4096], heap_next := 8192\<rparr>"

subsection \<open>Conses: marking and sweeping\<close>

text \<open>
  A Lisp word is its type tag and what the tag qualifies: a fixnum, or the address of
  an object.  A symbol is tagged by its offset from \<open>lispsym\<close>, and \<open>nil\<close> is the symbol
  at offset 0.  The two words of a cons are its \<open>car\<close> and the union of its \<open>cdr\<close> and
  of the link \<open>chain\<close> of the free list.  \<open>dead_object\<close> is the null string of lisp.h.
\<close>

datatype Lisp_Object =
    Lisp_Symbol addr
  | Lisp_Int int
  | Lisp_String addr
  | Lisp_Vectorlike addr
  | Lisp_Cons addr
  | Lisp_Float addr

datatype cons_u = Cdr Lisp_Object | Chain addr

record Lisp_Cons_cell =
  car :: Lisp_Object
  cdr_or_chain :: cons_u




text \<open>
  The sizes of the cons blocks.  \<open>BLOCK_NBITS\<close> is fixed by alloc.c; the width of a
  word of mark bits and the size of a pointer come from the build.
\<close>

record cabi = abi +
  BITS_PER_BITS_WORD :: nat
  sizeof_bits_word :: nat
  sizeof_pointer :: nat


definition BLOCK_NBITS :: nat where
  "BLOCK_NBITS = 10"

definition BLOCK_ALIGN :: nat where
  "BLOCK_ALIGN = 2 ^ BLOCK_NBITS"

definition BLOCK_NBYTES :: "cabi \<Rightarrow> nat" where
  "BLOCK_NBYTES c = BLOCK_ALIGN - sizeof_pointer c"

definition BLOCK_NCONS :: "cabi \<Rightarrow> nat" where
  "BLOCK_NCONS c =
     ((BITS_PER_BITS_WORD c div sizeof_bits_word c) * (BLOCK_NBYTES c - sizeof_bits_word c))
     div ((BITS_PER_BITS_WORD c div sizeof_bits_word c) * sizeof_Lisp_Cons c + 1)"

text \<open>
  The state that marking and sweeping conses act on.  The cons blocks are the chain
  \<open>cons_block\<close>, the block being filled first; \<open>conses\<close> is the memory of the cells,
  by address, and \<open>gcmarkbits\<close> the mark bits of each block, by block address and
  index.  The mark stack is a list, its top first.  Of the other kinds of object
  only the mark bits are kept.  No object lies in a dump, so that \<open>cons_marked_p\<close>
  is \<open>XCONS_MARKED_P\<close>.  \<open>lisp_align_malloc\<close> succeeds and hands out the aligned
  address \<open>ablock_next\<close>; its calls of \<open>mem_insert\<close> are recorded in \<open>ablock_inserted\<close>,
  latest first.
\<close>

record mark_state =
  conses :: "addr \<Rightarrow> Lisp_Cons_cell"
  gcmarkbits :: "addr \<Rightarrow> nat \<Rightarrow> bool"
  cons_block :: "addr list"
  cons_block_index :: nat
  cons_free_list :: addr
  float_marked :: "addr \<Rightarrow> bool"
  string_marked :: "addr \<Rightarrow> bool"
  symbol_marked :: "addr \<Rightarrow> bool"
  vector_marked :: "addr \<Rightarrow> bool"
  pure_p :: "addr \<Rightarrow> bool"
  mark_stk :: "Lisp_Object list"
  cons_gcstat :: gcstat
  freed_blocks :: "addr list"
  cons_cells_consed :: int
  ablock_next :: addr
  ablock_inserted :: "(addr \<times> addr \<times> mem_type) list"


definition CONS_BLOCK :: "addr \<Rightarrow> addr" where
  "CONS_BLOCK a = a - a mod BLOCK_ALIGN"

definition CONS_INDEX :: "cabi \<Rightarrow> addr \<Rightarrow> nat" where
  "CONS_INDEX c a = (a mod BLOCK_ALIGN) div sizeof_Lisp_Cons c"

definition XCONS_MARKED_P :: "cabi \<Rightarrow> mark_state \<Rightarrow> addr \<Rightarrow> bool" where
  "XCONS_MARKED_P c s a = gcmarkbits s (CONS_BLOCK a) (CONS_INDEX c a)"

definition XMARK_CONS :: "cabi \<Rightarrow> addr \<Rightarrow> mark_state \<Rightarrow> mark_state" where
  "XMARK_CONS c a s =
     s\<lparr>gcmarkbits := (gcmarkbits s)
          (CONS_BLOCK a := (gcmarkbits s (CONS_BLOCK a))(CONS_INDEX c a := True))\<rparr>"


definition XCAR :: "mark_state \<Rightarrow> addr \<Rightarrow> Lisp_Object" where
  "XCAR s a = car (conses s a)"

text \<open>
  Reading \<open>u.cdr\<close> of a cell whose union holds a \<open>chain\<close> link gives the bits of that
  pointer, whose tag is that of a symbol.
\<close>

definition XCDR :: "mark_state \<Rightarrow> addr \<Rightarrow> Lisp_Object" where
  "XCDR s a = (case cdr_or_chain (conses s a) of Cdr x \<Rightarrow> x | Chain p \<Rightarrow> Lisp_Symbol p)"














subsection \<open>The statistics list of \<open>Fgarbage_collect\<close>\<close>

















subsection \<open>Conses reachable from a root, and what a sweep leaves\<close>


fun cons_addr :: "Lisp_Object \<Rightarrow> addr set" where
  "cons_addr (Lisp_Cons a) = {a}"
| "cons_addr (Lisp_Symbol a) = {}"
| "cons_addr (Lisp_Int n) = {}"
| "cons_addr (Lisp_String a) = {}"
| "cons_addr (Lisp_Vectorlike a) = {}"
| "cons_addr (Lisp_Float a) = {}"

definition kids :: "mark_state \<Rightarrow> addr \<Rightarrow> addr set" where
  "kids s a = cons_addr (XCAR s a) \<union> cons_addr (XCDR s a)"

text \<open>
  The conses that marking from the conses \<open>P\<close> visits: those reached from \<open>P\<close> along
  cars and cdrs through conses that are neither marked nor pure.
\<close>

inductive_set ureach :: "cabi \<Rightarrow> mark_state \<Rightarrow> addr set \<Rightarrow> addr set"
  for c :: cabi and s :: mark_state and P :: "addr set" where
  start: "a \<in> P \<Longrightarrow> \<not> XCONS_MARKED_P c s a \<Longrightarrow> \<not> pure_p s a \<Longrightarrow> a \<in> ureach c s P"
| step: "a \<in> ureach c s P \<Longrightarrow> b \<in> kids s a \<Longrightarrow> \<not> XCONS_MARKED_P c s b
         \<Longrightarrow> \<not> pure_p s b \<Longrightarrow> b \<in> ureach c s P"










text \<open>
  The cell at a position of a block, and the sizes under which the cells of a block
  lie within its alignment.  \<open>sweep_rel\<close> is what sweeping the positions \<open>lo ..< hi\<close>
  of a block does: the marked cells are counted as used and the others as free, the
  mark bits of the range are cleared, and only unmarked cells of the range are
  written.
\<close>

definition cell_at :: "cabi \<Rightarrow> addr \<Rightarrow> nat \<Rightarrow> addr" where
  "cell_at c cblk pos = cblk + pos * sizeof_Lisp_Cons c"

definition cabi_ok :: "cabi \<Rightarrow> bool" where
  "cabi_ok c =
     (0 < sizeof_Lisp_Cons c \<and> 0 < BITS_PER_BITS_WORD c
      \<and> BLOCK_NCONS c * sizeof_Lisp_Cons c \<le> BLOCK_ALIGN)"










section \<open>Properties\<close>

subsection \<open>The collection threshold and the collector's guard\<close>

lemma sdiv_threshold:
  fixes b E N :: int
  assumes "0 \<le> E" "1 \<le> N"
  shows "(b > E sdiv N) = (b * N > E)"
proof -
  have sd: "E sdiv N = E div N"
    using assms by (simp add: signed_divide_int_def sgn_if)
  have e: "E = N * (E div N) + E mod N" by simp
  have m: "0 \<le> E mod N" "E mod N < N" using assms by simp_all
  show ?thesis unfolding sd
  proof
    assume "E div N < b"
    then have "E div N + 1 \<le> b" by simp
    then have "(E div N + 1) * N \<le> b * N" using assms by (simp add: mult_right_mono)
    then have "N * (E div N) + N \<le> b * N" by (simp add: algebra_simps)
    with e m show "E < b * N" by linarith
  next
    assume a: "E < b * N"
    show "E div N < b"
    proof (rule ccontr)
      assume "\<not> E div N < b"
      then have "b \<le> E div N" by simp
      then have "b * N \<le> (E div N) * N" using assms by (simp add: mult_right_mono)
      then have "b * N \<le> N * (E div N)" by (simp add: algebra_simps)
      with e m a show False by linarith
    qed
  qed
qed

lemma GC_DEFAULT_THRESHOLD_nonneg: "0 \<le> GC_DEFAULT_THRESHOLD abi div 2 ^ 3"
  by (simp add: GC_DEFAULT_THRESHOLD_def pos_imp_zdiv_nonneg_iff)

text \<open>
  Claim C1, as the code has it.  A threshold \<open>T\<close> given to the watcher of
  \<open>gc-cons-threshold\<close> is first raised to at least \<open>GC_DEFAULT_THRESHOLD >> 3\<close>; the
  effective threshold \<open>bytes_between_gc\<close> is then the larger of that value and the
  product of the percentage and the live bytes, and it is recomputed at once by
  either watcher.  With that threshold \<open>E\<close> and \<open>b\<close> bytes allocated since the last
  collection, the automatic trigger calls the collector exactly when \<open>b > E\<close>, and
  \<open>garbage-collect-maybe\<close> with factor \<open>N \<ge> 1\<close> exactly when \<open>b > E / N\<close>, that is
  \<open>b * N > E\<close>.
\<close>

theorem effective_threshold:
  fixes fmul :: "'f \<Rightarrow> nat \<Rightarrow> int" and s :: "('f, 'h) gc_state" and abi :: abi
  assumes "integer_to_intmax newval = Some T"
      and "Vgc_cons_percentage s = Float P"
      and "1 \<le> N"
  defines "s' \<equiv> watch_gc_cons_threshold abi fmul newval s"
      and "E \<equiv> max (max T (GC_DEFAULT_THRESHOLD abi div 2 ^ 3))
                    (fmul P (total_bytes_of_live_objects abi s))"
  shows "bytes_between_gc s' = E
       \<and> bytes_between_gc (watch_gc_cons_percentage abi fmul (Float P') s)
           = max (gc_cons_threshold s) (fmul P' (total_bytes_of_live_objects abi s))
       \<and> maybe_garbage_collect abi fmul ms (s'\<lparr>bytes_since_gc := b\<rparr>)
           = (if b > E then garbage_collect abi fmul ms (s'\<lparr>bytes_since_gc := b\<rparr>)
              else s'\<lparr>bytes_since_gc := b\<rparr>)
       \<and> Fgarbage_collect_maybe abi fmul ms (Fixnum N) (s'\<lparr>bytes_since_gc := b\<rparr>)
           = (if b * N > E
              then Inr (Qt, garbage_collect abi fmul ms (s'\<lparr>bytes_since_gc := b\<rparr>))
              else Inr (Qnil, s'\<lparr>bytes_since_gc := b\<rparr>))"
proof -
  have int: "INTEGERP newval" using assms(1) by (cases newval) simp_all
  have b: "bytes_between_gc s' = E"
    using assms(1,2) int
    by (simp add: s'_def E_def watch_gc_cons_threshold_def update_bytes_between_gc_def
        total_bytes_of_live_objects_def)
  have E0: "0 \<le> E"
    using GC_DEFAULT_THRESHOLD_nonneg [of abi] unfolding E_def by linarith
  have p: "bytes_between_gc (watch_gc_cons_percentage abi fmul (Float P') s)
           = max (gc_cons_threshold s) (fmul P' (total_bytes_of_live_objects abi s))"
    by (simp add: watch_gc_cons_percentage_def update_bytes_between_gc_def
        total_bytes_of_live_objects_def)
  have m: "maybe_garbage_collect abi fmul ms (s'\<lparr>bytes_since_gc := b\<rparr>)
           = (if b > E then garbage_collect abi fmul ms (s'\<lparr>bytes_since_gc := b\<rparr>)
              else s'\<lparr>bytes_since_gc := b\<rparr>)"
    using b by (simp add: maybe_garbage_collect_def)
  have f: "Fgarbage_collect_maybe abi fmul ms (Fixnum N) (s'\<lparr>bytes_since_gc := b\<rparr>)
           = (if b * N > E
              then Inr (Qt, garbage_collect abi fmul ms (s'\<lparr>bytes_since_gc := b\<rparr>))
              else Inr (Qnil, s'\<lparr>bytes_since_gc := b\<rparr>))"
    using b assms(3) sdiv_threshold [OF E0 assms(3), of b]
    by (simp add: Fgarbage_collect_maybe_def)
  from b p m f show ?thesis by blast
qed

theorem effective_threshold_witness:
  "bytes_between_gc (watch_gc_cons_threshold abi64 exact_fmul (Fixnum 2000000) gc_state0) = 2000000
   \<and> fst (projr (Fgarbage_collect_maybe abi64 exact_fmul id (Fixnum 2)
        ((watch_gc_cons_threshold abi64 exact_fmul (Fixnum 2000000) gc_state0)
           \<lparr>bytes_since_gc := 1000001\<rparr>))) = Qt"
  using effective_threshold [of "Fixnum 2000000" 2000000 gc_state0 "1 / 10" 2
      abi64 exact_fmul "1 / 10" id 1000001]
  by (simp add: gc_state0_def gcstat0_def abi64_def GC_DEFAULT_THRESHOLD_def exact_fmul_def
      total_bytes_of_live_objects_def)

text \<open>
  Claim C1 as stated fails: with \<open>T = 1000\<close> and no live bytes the effective
  threshold is \<open>131072\<close>, not \<open>max (T, P \<times> 0) = 1000\<close>.
\<close>

theorem threshold_clamped_counterexample:
  "bytes_between_gc (watch_gc_cons_threshold abi64 exact_fmul (Fixnum 1000) gc_state0) = 131072
   \<and> max 1000 (exact_fmul (1 / 10) (total_bytes_of_live_objects abi64 gc_state0)) = 1000"
  by (simp add: gc_state0_def gcstat0_def abi64_def GC_DEFAULT_THRESHOLD_def exact_fmul_def
      total_bytes_of_live_objects_def watch_gc_cons_threshold_def update_bytes_between_gc_def)












subsection \<open>Out of memory\<close>

text \<open>
  Claim C9, as the code has it.  Before initialisation \<open>memory_full\<close> is fatal.
  Afterwards it raises the signal whose data is the stored, precomputed
  \<open>Vmemory_signal_data\<close>, and changes nothing but the memory-full flag: the flag
  is set to \<open>t\<close>, unless the failed request was larger than \<open>2 ^ 14\<close> bytes and a probe
  \<open>malloc\<close> of \<open>2 ^ 14\<close> bytes succeeds, in which case the flag is nil and the probe is
  freed at once.  That probe is the only call to the allocator.
\<close>

theorem memory_full_outcome:
  "memory_full malloc_succeeds nbytes s =
     (if \<not> initialized s then (Fatal ''memory exhausted'', [], s)
      else if nbytes > 2 ^ 14 \<and> malloc_succeeds (2 ^ 14)
      then (Signal Qnil (Vmemory_signal_data s), [Malloc (2 ^ 14), Free],
            s\<lparr>Vmemory_full := Qnil\<rparr>)
      else (Signal Qnil (Vmemory_signal_data s),
            if nbytes > 2 ^ 14 then [Malloc (2 ^ 14)] else [],
            s\<lparr>Vmemory_full := Qt\<rparr>))"
  by (simp add: memory_full_def Let_def)

text \<open>
  Claim C9 as stated fails: after a failed request of 20000 bytes, with the probe
  succeeding, the signal is raised and the memory-full flag is nil.
\<close>

theorem memory_full_flag_counterexample:
  "memory_full malloc_available 20000 oom_state0
     = (Signal Qnil memory_signal_data, [Malloc 16384, Free], oom_state0)
   \<and> Vmemory_full oom_state0 = Qnil"
  by (simp add: memory_full_def oom_state0_def Let_def malloc_available_def)

subsection \<open>The heap index: trees, positions and frames\<close>

lemma inorder_plug: "inorder (plug c t) = before c @ inorder t @ after c"
  by (induction c t rule: plug.induct) simp_all

lemma wf_rootp: "wf h par p t \<Longrightarrow> p = rootp t"
  by (cases t) simp_all

lemma wf_rootp_iff: "wf h par p t = (p = rootp t \<and> wf h par (rootp t) t)"
  by (cases t) auto

lemma wf_plug:
  "wf h NULL rt (plug c t) = (wfc h rt c (rootp t) \<and> wf h (hole_parent c) (rootp t) t)"
proof (induction c t rule: plug.induct)
  case (1 t)
  show ?case using wf_rootp_iff [of h NULL rt t] by auto
next
  case (2 a r c t)
  show ?case using 2 wf_rootp_iff [of h a "left (h a)" t] by auto
next
  case (3 l a c t)
  show ?case using 3 wf_rootp_iff [of h a "right (h a)" t] by auto
qed

lemma bh_plug_cong: "bh h t = bh h t' \<Longrightarrow> bh h (plug c t) = bh h (plug c t')"
  by (induction c t arbitrary: t' rule: plug.induct) simp_all

lemma balanced_plug: "balanced h (plug c t) = (balanced h t \<and> cbal h c (bh h t))"
  by (induction c t rule: plug.induct) auto

lemma root_color_plug_nonempty:
  "c \<noteq> [] \<Longrightarrow> root_color h (plug c t) = root_color h (plug c t')"
proof (induction c t arbitrary: t' rule: plug.induct)
  case (2 a r c t)
  then show ?case by (cases c) (auto split: frame.splits)
next
  case (3 l a c t)
  then show ?case by (cases c) (auto split: frame.splits)
qed simp

lemma no_red_red_plug:
  "no_red_red h (plug c t) = (no_red_red h t \<and> cnrr h c (root_color h t))"
  by (induction c t rule: plug.induct) auto

text \<open>Frame lemmas: the predicates read the store only at the nodes of the tree.\<close>

lemma wf_frame:
  "\<forall>a \<in> set (inorder t). h' a = h a \<Longrightarrow> wf h' par p t = wf h par p t"
  by (induction t arbitrary: par p) auto

lemma wf_frame_fields:
  "\<forall>a \<in> set (inorder t). left (h' a) = left (h a) \<and> right (h' a) = right (h a)
      \<and> parent (h' a) = parent (h a) \<Longrightarrow> wf h' par p t = wf h par p t"
  by (induction t arbitrary: par p) auto

lemma wf_reparent:
  "wf h par p t \<Longrightarrow>
   \<forall>a \<in> set (inorder t). left (h' a) = left (h a) \<and> right (h' a) = right (h a) \<Longrightarrow>
   \<forall>a \<in> set (inorder t). a \<noteq> p \<longrightarrow> parent (h' a) = parent (h a) \<Longrightarrow>
   t \<noteq> Leaf \<longrightarrow> parent (h' p) = par' \<Longrightarrow>
   distinct (inorder t) \<Longrightarrow>
   wf h' par' p t"
proof (cases t)
  case Leaf
  assume "wf h par p t" then show ?thesis using Leaf by simp
next
  case (Node l a r)
  assume w: "wf h par p t"
    and lr: "\<forall>a \<in> set (inorder t). left (h' a) = left (h a) \<and> right (h' a) = right (h a)"
    and pa: "\<forall>a \<in> set (inorder t). a \<noteq> p \<longrightarrow> parent (h' a) = parent (h a)"
    and pp: "t \<noteq> Leaf \<longrightarrow> parent (h' p) = par'"
    and d: "distinct (inorder t)"
  have pa': "p = a" using w Node by simp
  have "wf h' a (left (h a)) l = wf h a (left (h a)) l"
    using lr pa d Node pa' by (intro wf_frame_fields) auto
  moreover have "wf h' a (right (h a)) r = wf h a (right (h a)) r"
    using lr pa d Node pa' by (intro wf_frame_fields) auto
  ultimately show ?thesis using w lr pp Node by auto
qed

lemma bh_frame:
  "\<forall>a \<in> set (inorder t). color (h' a) = color (h a) \<Longrightarrow> bh h' t = bh h t"
  by (induction t) auto

lemma balanced_frame:
  "\<forall>a \<in> set (inorder t). color (h' a) = color (h a) \<Longrightarrow> balanced h' t = balanced h t"
proof (induction t)
  case Leaf show ?case by simp
next
  case (Node l a r)
  have "bh h' l = bh h l" "bh h' r = bh h r"
    using Node.prems by (auto intro!: bh_frame)
  moreover have "balanced h' l = balanced h l" "balanced h' r = balanced h r"
    using Node by auto
  ultimately show ?case by simp
qed

lemma root_color_frame:
  "\<forall>a \<in> set (inorder t). color (h' a) = color (h a) \<Longrightarrow> root_color h' t = root_color h t"
  by (cases t) auto

lemma no_red_red_frame:
  "\<forall>a \<in> set (inorder t). color (h' a) = color (h a) \<Longrightarrow> no_red_red h' t = no_red_red h t"
proof (induction t)
  case Leaf show ?case by simp
next
  case (Node l a r)
  have "root_color h' l = root_color h l" "root_color h' r = root_color h r"
    using Node.prems by (auto intro!: root_color_frame)
  moreover have "no_red_red h' l = no_red_red h l" "no_red_red h' r = no_red_red h r"
    using Node by auto
  moreover have "color (h' a) = color (h a)" using Node.prems by simp
  ultimately show ?case by simp
qed

lemma cbal_frame:
  "\<forall>a \<in> set (before c @ after c). color (h' a) = color (h a) \<Longrightarrow> cbal h' c n = cbal h c n"
proof (induction c arbitrary: n)
  case Nil show ?case by simp
next
  case (Cons f c)
  show ?case
  proof (cases f)
    case (LeftOf a r)
    have "bh h' r = bh h r" "balanced h' r = balanced h r" "color (h' a) = color (h a)"
      using Cons.prems LeftOf by (auto intro!: bh_frame balanced_frame)
    moreover have "\<And>m. cbal h' c m = cbal h c m"
      using Cons.prems LeftOf by (intro Cons.IH) auto
    ultimately show ?thesis using LeftOf by simp
  next
    case (RightOf l a)
    have "bh h' l = bh h l" "balanced h' l = balanced h l" "color (h' a) = color (h a)"
      using Cons.prems RightOf by (auto intro!: bh_frame balanced_frame)
    moreover have "\<And>m. cbal h' c m = cbal h c m"
      using Cons.prems RightOf by (intro Cons.IH) auto
    ultimately show ?thesis using RightOf by simp
  qed
qed

lemma cnrr_frame:
  "\<forall>a \<in> set (before c @ after c). color (h' a) = color (h a) \<Longrightarrow> cnrr h' c k = cnrr h c k"
proof (induction c arbitrary: k)
  case Nil show ?case by simp
next
  case (Cons f c)
  show ?case
  proof (cases f)
    case (LeftOf a r)
    have "no_red_red h' r = no_red_red h r" "root_color h' r = root_color h r"
      "color (h' a) = color (h a)"
      using Cons.prems LeftOf by (auto intro!: no_red_red_frame root_color_frame)
    moreover have "\<And>m. cnrr h' c m = cnrr h c m"
      using Cons.prems LeftOf by (intro Cons.IH) auto
    ultimately show ?thesis using LeftOf by simp
  next
    case (RightOf l a)
    have "no_red_red h' l = no_red_red h l" "root_color h' l = root_color h l"
      "color (h' a) = color (h a)"
      using Cons.prems RightOf by (auto intro!: no_red_red_frame root_color_frame)
    moreover have "\<And>m. cnrr h' c m = cnrr h c m"
      using Cons.prems RightOf by (intro Cons.IH) auto
    ultimately show ?thesis using RightOf by simp
  qed
qed

lemma wfc_frame:
  "\<forall>a \<in> set (before c @ after c). left (h' a) = left (h a) \<and> right (h' a) = right (h a)
      \<and> parent (h' a) = parent (h a) \<Longrightarrow> wfc h' rt c p = wfc h rt c p"
proof (induction c arbitrary: p)
  case Nil show ?case by simp
next
  case (Cons f c)
  show ?case
  proof (cases f)
    case (LeftOf a r)
    have "wf h' a (right (h a)) r = wf h a (right (h a)) r"
      using Cons.prems LeftOf by (intro wf_frame_fields) auto
    moreover have "left (h' a) = left (h a)" "right (h' a) = right (h a)"
      "parent (h' a) = parent (h a)"
      using Cons.prems LeftOf by auto
    moreover have "\<And>q. wfc h' rt c q = wfc h rt c q"
      using Cons.prems LeftOf by (intro Cons.IH) auto
    ultimately show ?thesis using LeftOf by simp
  next
    case (RightOf l a)
    have "wf h' a (left (h a)) l = wf h a (left (h a)) l"
      using Cons.prems RightOf by (intro wf_frame_fields) auto
    moreover have "left (h' a) = left (h a)" "right (h' a) = right (h a)"
      "parent (h' a) = parent (h a)"
      using Cons.prems RightOf by auto
    moreover have "\<And>q. wfc h' rt c q = wfc h rt c q"
      using Cons.prems RightOf by (intro Cons.IH) auto
    ultimately show ?thesis using RightOf by simp
  qed
qed

lemma set_left_reads [simp]:
  "left (mem (set_left a v s) n) = (if n = a then v else left (mem s n))"
  "right (mem (set_left a v s) n) = right (mem s n)"
  "parent (mem (set_left a v s) n) = parent (mem s n)"
  "color (mem (set_left a v s) n) = color (mem s n)"
  "start (mem (set_left a v s) n) = start (mem s n)"
  "end' (mem (set_left a v s) n) = end' (mem s n)"
  "type (mem (set_left a v s) n) = type (mem s n)"
  "mem_root (set_left a v s) = mem_root s"
  "min_heap_address (set_left a v s) = min_heap_address s"
  "max_heap_address (set_left a v s) = max_heap_address s"
  "next_node (set_left a v s) = next_node s"
  by (simp_all add: set_left_def)

lemma set_right_reads [simp]:
  "left (mem (set_right a v s) n) = left (mem s n)"
  "right (mem (set_right a v s) n) = (if n = a then v else right (mem s n))"
  "parent (mem (set_right a v s) n) = parent (mem s n)"
  "color (mem (set_right a v s) n) = color (mem s n)"
  "start (mem (set_right a v s) n) = start (mem s n)"
  "end' (mem (set_right a v s) n) = end' (mem s n)"
  "type (mem (set_right a v s) n) = type (mem s n)"
  "mem_root (set_right a v s) = mem_root s"
  "min_heap_address (set_right a v s) = min_heap_address s"
  "max_heap_address (set_right a v s) = max_heap_address s"
  "next_node (set_right a v s) = next_node s"
  by (simp_all add: set_right_def)

lemma set_parent_reads [simp]:
  "left (mem (set_parent a v s) n) = left (mem s n)"
  "right (mem (set_parent a v s) n) = right (mem s n)"
  "parent (mem (set_parent a v s) n) = (if n = a then v else parent (mem s n))"
  "color (mem (set_parent a v s) n) = color (mem s n)"
  "start (mem (set_parent a v s) n) = start (mem s n)"
  "end' (mem (set_parent a v s) n) = end' (mem s n)"
  "type (mem (set_parent a v s) n) = type (mem s n)"
  "mem_root (set_parent a v s) = mem_root s"
  "min_heap_address (set_parent a v s) = min_heap_address s"
  "max_heap_address (set_parent a v s) = max_heap_address s"
  "next_node (set_parent a v s) = next_node s"
  by (simp_all add: set_parent_def)

lemma set_color_reads [simp]:
  "left (mem (set_color a k s) n) = left (mem s n)"
  "right (mem (set_color a k s) n) = right (mem s n)"
  "parent (mem (set_color a k s) n) = parent (mem s n)"
  "color (mem (set_color a k s) n) = (if n = a then k else color (mem s n))"
  "start (mem (set_color a k s) n) = start (mem s n)"
  "end' (mem (set_color a k s) n) = end' (mem s n)"
  "type (mem (set_color a k s) n) = type (mem s n)"
  "mem_root (set_color a k s) = mem_root s"
  "min_heap_address (set_color a k s) = min_heap_address s"
  "max_heap_address (set_color a k s) = max_heap_address s"
  "next_node (set_color a k s) = next_node s"
  by (simp_all add: set_color_def)

lemma set_range_reads [simp]:
  "left (mem (set_range a st en ty s) n) = left (mem s n)"
  "right (mem (set_range a st en ty s) n) = right (mem s n)"
  "parent (mem (set_range a st en ty s) n) = parent (mem s n)"
  "color (mem (set_range a st en ty s) n) = color (mem s n)"
  "start (mem (set_range a st en ty s) n) = (if n = a then st else start (mem s n))"
  "end' (mem (set_range a st en ty s) n) = (if n = a then en else end' (mem s n))"
  "type (mem (set_range a st en ty s) n) = (if n = a then ty else type (mem s n))"
  "mem_root (set_range a st en ty s) = mem_root s"
  "min_heap_address (set_range a st en ty s) = min_heap_address s"
  "max_heap_address (set_range a st en ty s) = max_heap_address s"
  "next_node (set_range a st en ty s) = next_node s"
  by (simp_all add: set_range_def)

lemma root_update_reads [simp]:
  "mem (s\<lparr>mem_root := r\<rparr>) = mem s"
  "min_heap_address (s\<lparr>mem_root := r\<rparr>) = min_heap_address s"
  "max_heap_address (s\<lparr>mem_root := r\<rparr>) = max_heap_address s"
  "next_node (s\<lparr>mem_root := r\<rparr>) = next_node s"
  by simp_all

lemma mem_rotate_left_fields:
  assumes x: "x \<noteq> MEM_NIL" and y: "right (mem s x) = y" "y \<noteq> MEM_NIL" "y \<noteq> x"
      and b: "left (mem s y) = bp" "bp \<noteq> x" "bp \<noteq> y"
      and p: "parent (mem s x) = pp" "pp \<noteq> x" "pp \<noteq> y" "pp \<noteq> bp"
  shows "left (mem (mem_rotate_left x s) n) =
           (if n = y then x
            else if n = pp \<and> pp \<noteq> NULL \<and> left (mem s pp) = x then y
            else left (mem s n))"
    and "right (mem (mem_rotate_left x s) n) =
           (if n = x then bp
            else if n = pp \<and> pp \<noteq> NULL \<and> left (mem s pp) \<noteq> x then y
            else right (mem s n))"
    and "parent (mem (mem_rotate_left x s) n) =
           (if n = x then y else if n = y then pp
            else if n = bp \<and> bp \<noteq> MEM_NIL then x
            else parent (mem s n))"
    and "color (mem (mem_rotate_left x s) n) = color (mem s n)"
    and "start (mem (mem_rotate_left x s) n) = start (mem s n)"
    and "end' (mem (mem_rotate_left x s) n) = end' (mem s n)"
    and "type (mem (mem_rotate_left x s) n) = type (mem s n)"
    and "mem_root (mem_rotate_left x s) = (if pp = NULL then y else mem_root s)"
    and "min_heap_address (mem_rotate_left x s) = min_heap_address s"
    and "max_heap_address (mem_rotate_left x s) = max_heap_address s"
    and "next_node (mem_rotate_left x s) = next_node s"
proof -
  define s1 where "s1 = set_right x (left (mem s y)) s"
  define s2 where
    "s2 = (if left (mem s1 y) \<noteq> MEM_NIL then set_parent (left (mem s1 y)) x s1 else s1)"
  define s3 where "s3 = (if y \<noteq> MEM_NIL then set_parent y (parent (mem s2 x)) s2 else s2)"
  define s4 where
    "s4 = (if parent (mem s3 x) \<noteq> NULL then
             (if x = left (mem s3 (parent (mem s3 x)))
              then set_left (parent (mem s3 x)) y s3
              else set_right (parent (mem s3 x)) y s3)
           else s3\<lparr>mem_root := y\<rparr>)"
  define s5 where "s5 = set_left y x s4"
  have e: "mem_rotate_left x s = (if x \<noteq> MEM_NIL then set_parent x y s5 else s5)"
    by (simp only: mem_rotate_left_def Let_def s1_def s2_def s3_def s4_def s5_def y(1))
  have e1: "s1 = set_right x bp s" by (simp only: s1_def b(1))
  have l1: "left (mem s1 y) = bp" by (simp add: e1 b(1))
  have e2: "s2 = (if bp \<noteq> MEM_NIL then set_parent bp x s1 else s1)"
    by (simp only: s2_def l1)
  have p2: "parent (mem s2 x) = pp" using b(2) p(1) by (simp add: e2 e1)
  have e3: "s3 = set_parent y pp s2" using y(2) by (simp add: s3_def p2)
  have p3: "parent (mem s3 x) = pp" using y(3) p2 by (simp add: e3)
  have l3: "left (mem s3 pp) = left (mem s pp)" by (simp add: e3 e2 e1)
  have e4: "s4 = (if pp \<noteq> NULL then
                    (if x = left (mem s pp) then set_left pp y s3 else set_right pp y s3)
                  else s3\<lparr>mem_root := y\<rparr>)"
    by (simp only: s4_def p3 l3)
  have e': "mem_rotate_left x s = set_parent x y s5" using x by (simp add: e)
  show "left (mem (mem_rotate_left x s) n) =
           (if n = y then x
            else if n = pp \<and> pp \<noteq> NULL \<and> left (mem s pp) = x then y
            else left (mem s n))"
    by (simp add: e' s5_def e4 e3 e2 e1 eq_commute [of x "left (mem s pp)"])
  show "right (mem (mem_rotate_left x s) n) =
           (if n = x then bp
            else if n = pp \<and> pp \<noteq> NULL \<and> left (mem s pp) \<noteq> x then y
            else right (mem s n))"
    using p(2) by (simp add: e' s5_def e4 e3 e2 e1 eq_commute [of x "left (mem s pp)"])
  show "parent (mem (mem_rotate_left x s) n) =
           (if n = x then y else if n = y then pp
            else if n = bp \<and> bp \<noteq> MEM_NIL then x
            else parent (mem s n))"
    using b(3) by (simp add: e' s5_def e4 e3 e2 e1)
  show "color (mem (mem_rotate_left x s) n) = color (mem s n)"
    by (simp add: e' s5_def e4 e3 e2 e1)
  show "start (mem (mem_rotate_left x s) n) = start (mem s n)"
    by (simp add: e' s5_def e4 e3 e2 e1)
  show "end' (mem (mem_rotate_left x s) n) = end' (mem s n)"
    by (simp add: e' s5_def e4 e3 e2 e1)
  show "type (mem (mem_rotate_left x s) n) = type (mem s n)"
    by (simp add: e' s5_def e4 e3 e2 e1)
  show "mem_root (mem_rotate_left x s) = (if pp = NULL then y else mem_root s)"
    by (simp add: e' s5_def e4 e3 e2 e1)
  show "min_heap_address (mem_rotate_left x s) = min_heap_address s"
    by (simp add: e' s5_def e4 e3 e2 e1)
  show "max_heap_address (mem_rotate_left x s) = max_heap_address s"
    by (simp add: e' s5_def e4 e3 e2 e1)
  show "next_node (mem_rotate_left x s) = next_node s"
    by (simp add: e' s5_def e4 e3 e2 e1)
qed

lemma mem_rotate_right_fields:
  assumes x: "x \<noteq> MEM_NIL" and y: "left (mem s x) = y" "y \<noteq> MEM_NIL" "y \<noteq> x"
      and b: "right (mem s y) = bp" "bp \<noteq> x" "bp \<noteq> y"
      and p: "parent (mem s x) = pp" "pp \<noteq> x" "pp \<noteq> y" "pp \<noteq> bp"
  shows "right (mem (mem_rotate_right x s) n) =
           (if n = y then x
            else if n = pp \<and> pp \<noteq> NULL \<and> right (mem s pp) = x then y
            else right (mem s n))"
    and "left (mem (mem_rotate_right x s) n) =
           (if n = x then bp
            else if n = pp \<and> pp \<noteq> NULL \<and> right (mem s pp) \<noteq> x then y
            else left (mem s n))"
    and "parent (mem (mem_rotate_right x s) n) =
           (if n = x then y else if n = y then pp
            else if n = bp \<and> bp \<noteq> MEM_NIL then x
            else parent (mem s n))"
    and "color (mem (mem_rotate_right x s) n) = color (mem s n)"
    and "start (mem (mem_rotate_right x s) n) = start (mem s n)"
    and "end' (mem (mem_rotate_right x s) n) = end' (mem s n)"
    and "type (mem (mem_rotate_right x s) n) = type (mem s n)"
    and "mem_root (mem_rotate_right x s) = (if pp = NULL then y else mem_root s)"
    and "min_heap_address (mem_rotate_right x s) = min_heap_address s"
    and "max_heap_address (mem_rotate_right x s) = max_heap_address s"
    and "next_node (mem_rotate_right x s) = next_node s"
proof -
  define s1 where "s1 = set_left x (right (mem s y)) s"
  define s2 where
    "s2 = (if right (mem s1 y) \<noteq> MEM_NIL then set_parent (right (mem s1 y)) x s1 else s1)"
  define s3 where "s3 = (if y \<noteq> MEM_NIL then set_parent y (parent (mem s2 x)) s2 else s2)"
  define s4 where
    "s4 = (if parent (mem s3 x) \<noteq> NULL then
             (if x = right (mem s3 (parent (mem s3 x)))
              then set_right (parent (mem s3 x)) y s3
              else set_left (parent (mem s3 x)) y s3)
           else s3\<lparr>mem_root := y\<rparr>)"
  define s5 where "s5 = set_right y x s4"
  have e: "mem_rotate_right x s = (if x \<noteq> MEM_NIL then set_parent x y s5 else s5)"
    by (simp only: mem_rotate_right_def Let_def s1_def s2_def s3_def s4_def s5_def y(1))
  have e1: "s1 = set_left x bp s" by (simp only: s1_def b(1))
  have l1: "right (mem s1 y) = bp" by (simp add: e1 b(1))
  have e2: "s2 = (if bp \<noteq> MEM_NIL then set_parent bp x s1 else s1)"
    by (simp only: s2_def l1)
  have p2: "parent (mem s2 x) = pp" using b(2) p(1) by (simp add: e2 e1)
  have e3: "s3 = set_parent y pp s2" using y(2) by (simp add: s3_def p2)
  have p3: "parent (mem s3 x) = pp" using y(3) p2 by (simp add: e3)
  have l3: "right (mem s3 pp) = right (mem s pp)" by (simp add: e3 e2 e1)
  have e4: "s4 = (if pp \<noteq> NULL then
                    (if x = right (mem s pp) then set_right pp y s3 else set_left pp y s3)
                  else s3\<lparr>mem_root := y\<rparr>)"
    by (simp only: s4_def p3 l3)
  have e': "mem_rotate_right x s = set_parent x y s5" using x by (simp add: e)
  show "right (mem (mem_rotate_right x s) n) =
           (if n = y then x
            else if n = pp \<and> pp \<noteq> NULL \<and> right (mem s pp) = x then y
            else right (mem s n))"
    by (simp add: e' s5_def e4 e3 e2 e1 eq_commute [of x "right (mem s pp)"])
  show "left (mem (mem_rotate_right x s) n) =
           (if n = x then bp
            else if n = pp \<and> pp \<noteq> NULL \<and> right (mem s pp) \<noteq> x then y
            else left (mem s n))"
    using p(2) by (simp add: e' s5_def e4 e3 e2 e1 eq_commute [of x "right (mem s pp)"])
  show "parent (mem (mem_rotate_right x s) n) =
           (if n = x then y else if n = y then pp
            else if n = bp \<and> bp \<noteq> MEM_NIL then x
            else parent (mem s n))"
    using b(3) by (simp add: e' s5_def e4 e3 e2 e1)
  show "color (mem (mem_rotate_right x s) n) = color (mem s n)"
    by (simp add: e' s5_def e4 e3 e2 e1)
  show "start (mem (mem_rotate_right x s) n) = start (mem s n)"
    by (simp add: e' s5_def e4 e3 e2 e1)
  show "end' (mem (mem_rotate_right x s) n) = end' (mem s n)"
    by (simp add: e' s5_def e4 e3 e2 e1)
  show "type (mem (mem_rotate_right x s) n) = type (mem s n)"
    by (simp add: e' s5_def e4 e3 e2 e1)
  show "mem_root (mem_rotate_right x s) = (if pp = NULL then y else mem_root s)"
    by (simp add: e' s5_def e4 e3 e2 e1)
  show "min_heap_address (mem_rotate_right x s) = min_heap_address s"
    by (simp add: e' s5_def e4 e3 e2 e1)
  show "max_heap_address (mem_rotate_right x s) = max_heap_address s"
    by (simp add: e' s5_def e4 e3 e2 e1)
  show "next_node (mem_rotate_right x s) = next_node s"
    by (simp add: e' s5_def e4 e3 e2 e1)
qed

lemma wf_nodes: "wf h par p t \<Longrightarrow> a \<in> set (inorder t) \<Longrightarrow> a \<noteq> MEM_NIL \<and> a \<noteq> NULL"
  by (induction t arbitrary: par p) auto

lemma rootp_cases: "rootp t = MEM_NIL \<or> rootp t \<in> set (inorder t)"
  by (cases t) auto

lemma wfc_nodes:
  "wfc h rt c p \<Longrightarrow> a \<in> set (before c @ after c) \<Longrightarrow> a \<noteq> MEM_NIL \<and> a \<noteq> NULL"
proof (induction c arbitrary: p)
  case Nil then show ?case by simp
next
  case (Cons f c)
  then show ?case by (cases f) (auto dest: wf_nodes)
qed

lemma hole_parent_cases: "hole_parent c = NULL \<and> c = [] \<or> hole_parent c \<in> set (before c @ after c)"
  by (cases c rule: hole_parent.cases) auto

lemma NULL_neq_MEM_NIL [simp]: "NULL \<noteq> MEM_NIL" "MEM_NIL \<noteq> NULL"
  by (simp_all add: NULL_def MEM_NIL_def)

lemma wfc_replace:
  assumes w: "wfc h rt c p"
    and fr: "\<forall>a \<in> set (before c @ after c). a \<noteq> hole_parent c \<longrightarrow>
               left (h' a) = left (h a) \<and> right (h' a) = right (h a)
               \<and> parent (h' a) = parent (h a)"
    and hp: "c \<noteq> [] \<longrightarrow> parent (h' (hole_parent c)) = parent (h (hole_parent c))
               \<and> (if left (h (hole_parent c)) = p
                   then left (h' (hole_parent c)) = p'
                        \<and> right (h' (hole_parent c)) = right (h (hole_parent c))
                   else right (h' (hole_parent c)) = p'
                        \<and> left (h' (hole_parent c)) = left (h (hole_parent c)))"
    and rt: "rt' = (if c = [] then p' else rt)"
    and d: "distinct (before c @ after c)"
    and pl: "p \<noteq> MEM_NIL" "p \<notin> set (before c @ after c)"
  shows "wfc h' rt' c p'"
proof (cases c)
  case Nil
  then show ?thesis using rt by simp
next
  case (Cons f c')
  show ?thesis
  proof (cases f)
    case (LeftOf a r)
    have ha: "hole_parent c = a" using Cons LeftOf by simp
    have "wf h' a (right (h a)) r = wf h a (right (h a)) r"
      using fr d Cons LeftOf by (intro wf_frame_fields) auto
    moreover have "wfc h' rt c' a = wfc h rt c' a"
      using fr d Cons LeftOf by (intro wfc_frame) auto
    moreover have "left (h a) = p" using w Cons LeftOf by simp
    ultimately show ?thesis using w hp rt Cons LeftOf by simp
  next
    case (RightOf l a)
    have ha: "hole_parent c = a" using Cons RightOf by simp
    have "wf h' a (left (h a)) l = wf h a (left (h a)) l"
      using fr d Cons RightOf by (intro wf_frame_fields) auto
    moreover have "wfc h' rt c' a = wfc h rt c' a"
      using fr d Cons RightOf by (intro wfc_frame) auto
    moreover have "left (h a) \<noteq> p"
    proof -
      have "wf h a (left (h a)) l" using w Cons RightOf by simp
      then have "left (h a) = rootp l" by (rule wf_rootp)
      then show ?thesis using rootp_cases [of l] pl Cons RightOf by auto
    qed
    ultimately show ?thesis using w hp rt Cons RightOf by simp
  qed
qed

lemma wf_rootp_nonnull: "wf h par p t \<Longrightarrow> rootp t \<noteq> NULL"
  by (cases t) auto

lemma rotate_left_tree:
  assumes w: "wf (mem s) NULL (mem_root s) (plug c (Node a x (Node b y d)))"
      and d: "distinct (inorder (plug c (Node a x (Node b y d))))"
  shows "wf (mem (mem_rotate_left x s)) NULL (mem_root (mem_rotate_left x s))
           (plug c (Node (Node a x b) y d))"
    and "color (mem (mem_rotate_left x s) n) = color (mem s n)"
    and "start (mem (mem_rotate_left x s) n) = start (mem s n)"
    and "end' (mem (mem_rotate_left x s) n) = end' (mem s n)"
    and "type (mem (mem_rotate_left x s) n) = type (mem s n)"
    and "min_heap_address (mem_rotate_left x s) = min_heap_address s"
    and "max_heap_address (mem_rotate_left x s) = max_heap_address s"
    and "next_node (mem_rotate_left x s) = next_node s"
    and "parent (mem (mem_rotate_left x s) MEM_NIL) = parent (mem s MEM_NIL)"
proof -
  let ?h = "mem s" and ?s' = "mem_rotate_left x s"
  let ?pp = "hole_parent c" and ?bp = "rootp b"
  have wc: "wfc ?h (mem_root s) c x" and wx: "wf ?h ?pp x (Node a x (Node b y d))"
    using w by (simp_all add: wf_plug)
  have dd: "distinct (before c @ (inorder a @ x # inorder b @ y # inorder d) @ after c)"
    using d by (simp add: inorder_plug)
  have x: "x \<noteq> MEM_NIL" "x \<noteq> NULL" "parent (?h x) = ?pp" "right (?h x) = y"
    and wa: "wf ?h x (left (?h x)) a"
    and y: "y \<noteq> MEM_NIL" "y \<noteq> NULL" "parent (?h y) = x"
    and wb: "wf ?h y (left (?h y)) b" and wd: "wf ?h y (right (?h y)) d"
    using wx by simp_all
  have lb: "left (?h y) = ?bp" using wb by (rule wf_rootp)
  have la: "left (?h x) = rootp a" using wa by (rule wf_rootp)
  have rd: "right (?h y) = rootp d" using wd by (rule wf_rootp)
  have yx: "y \<noteq> x" using dd by auto
  have bpx: "?bp \<noteq> x" "?bp \<noteq> y" using rootp_cases [of b] dd x y by auto
  have cn: "\<And>n. n \<in> set (before c @ after c) \<Longrightarrow> n \<noteq> MEM_NIL \<and> n \<noteq> NULL"
    using wfc_nodes [OF wc] by blast
  have ppx: "?pp \<noteq> x" "?pp \<noteq> y" using hole_parent_cases [of c] dd x y by auto
  have bpn: "?bp \<noteq> NULL" using wb by (rule wf_rootp_nonnull)
  have ppb: "?pp \<noteq> ?bp"
  proof (cases "c = []")
    case True then show ?thesis using bpn by simp
  next
    case False
    then have "?pp \<in> set (before c @ after c)" using hole_parent_cases [of c] by auto
    then show ?thesis using rootp_cases [of b] dd cn by auto
  qed
  note f = mem_rotate_left_fields [OF x(1) x(4) y(1) yx lb bpx x(3) ppx ppb]
  show "color (mem ?s' n) = color (mem s n)" by (rule f)
  show "start (mem ?s' n) = start (mem s n)" by (rule f)
  show "end' (mem ?s' n) = end' (mem s n)" by (rule f)
  show "type (mem ?s' n) = type (mem s n)" by (rule f)
  show "min_heap_address ?s' = min_heap_address s" by (rule f)
  show "max_heap_address ?s' = max_heap_address s" by (rule f)
  show "next_node ?s' = next_node s" by (rule f)
  have ppn: "?pp \<noteq> MEM_NIL" using hole_parent_cases [of c] cn by auto
  show "parent (mem ?s' MEM_NIL) = parent (mem s MEM_NIL)"
    using x(1) y(1) by (simp add: f(3))
  have unch: "\<And>n. n \<noteq> x \<Longrightarrow> n \<noteq> y \<Longrightarrow> n \<noteq> ?pp \<Longrightarrow>
      left (mem ?s' n) = left (?h n) \<and> right (mem ?s' n) = right (?h n)"
    by (simp add: f(1,2))
  have unchp: "\<And>n. n \<noteq> x \<Longrightarrow> n \<noteq> y \<Longrightarrow> n \<noteq> ?bp \<Longrightarrow> parent (mem ?s' n) = parent (?h n)"
    by (simp add: f(3))
  have ina: "\<And>n. n \<in> set (inorder a) \<Longrightarrow> n \<noteq> x \<and> n \<noteq> y \<and> n \<noteq> ?pp \<and> n \<noteq> ?bp"
    using dd hole_parent_cases [of c] rootp_cases [of b] wf_nodes [OF wa] by auto
  have inb: "\<And>n. n \<in> set (inorder b) \<Longrightarrow> n \<noteq> x \<and> n \<noteq> y \<and> n \<noteq> ?pp"
    using dd hole_parent_cases [of c] wf_nodes [OF wb] by auto
  have ind: "\<And>n. n \<in> set (inorder d) \<Longrightarrow> n \<noteq> x \<and> n \<noteq> y \<and> n \<noteq> ?pp \<and> n \<noteq> ?bp"
    using dd hole_parent_cases [of c] rootp_cases [of b] wf_nodes [OF wd] by auto
  have inc: "\<And>n. n \<in> set (before c @ after c) \<Longrightarrow> n \<noteq> x \<and> n \<noteq> y \<and> n \<noteq> ?bp"
    using dd rootp_cases [of b] cn by auto
  have wa': "wf (mem ?s') x (rootp a) a"
  proof -
    have "wf (mem ?s') x (rootp a) a = wf ?h x (rootp a) a"
      by (rule wf_frame_fields) (use ina unch unchp in auto)
    then show ?thesis using wa la by simp
  qed
  have wd': "wf (mem ?s') y (rootp d) d"
  proof -
    have "wf (mem ?s') y (rootp d) d = wf ?h y (rootp d) d"
      by (rule wf_frame_fields) (use ind unch unchp in auto)
    then show ?thesis using wd rd by simp
  qed
  have wb': "wf (mem ?s') x ?bp b"
  proof (rule wf_reparent)
    show "wf ?h y ?bp b" using wb lb by simp
    show "\<forall>n\<in>set (inorder b). left (mem ?s' n) = left (?h n) \<and> right (mem ?s' n) = right (?h n)"
      using inb unch by auto
    show "\<forall>n\<in>set (inorder b). n \<noteq> ?bp \<longrightarrow> parent (mem ?s' n) = parent (?h n)"
      using inb unchp by auto
    show "b \<noteq> Leaf \<longrightarrow> parent (mem ?s' ?bp) = x"
      using bpx wf_nodes [OF wb] by (cases b) (auto simp: f(3))
    show "distinct (inorder b)" using dd by simp
  qed
  have wx': "wf (mem ?s') ?pp y (Node (Node a x b) y d)"
    using x y yx ppx la wa' wb' wd' rd by (simp add: f(1,2,3))
  have wc': "wfc (mem ?s') (mem_root ?s') c y"
  proof (rule wfc_replace [OF wc])
    show "\<forall>n\<in>set (before c @ after c). n \<noteq> ?pp \<longrightarrow>
            left (mem ?s' n) = left (?h n) \<and> right (mem ?s' n) = right (?h n)
            \<and> parent (mem ?s' n) = parent (?h n)"
      using inc unch unchp by auto
    show "c \<noteq> [] \<longrightarrow> parent (mem ?s' ?pp) = parent (?h ?pp)
            \<and> (if left (?h ?pp) = x
                then left (mem ?s' ?pp) = y \<and> right (mem ?s' ?pp) = right (?h ?pp)
                else right (mem ?s' ?pp) = y \<and> left (mem ?s' ?pp) = left (?h ?pp))"
    proof
      assume "c \<noteq> []"
      then have "?pp \<in> set (before c @ after c)" using hole_parent_cases [of c] by auto
      then have "?pp \<noteq> NULL" using cn by auto
      then show "parent (mem ?s' ?pp) = parent (?h ?pp)
            \<and> (if left (?h ?pp) = x
                then left (mem ?s' ?pp) = y \<and> right (mem ?s' ?pp) = right (?h ?pp)
                else right (mem ?s' ?pp) = y \<and> left (mem ?s' ?pp) = left (?h ?pp))"
        using ppx ppb by (simp add: f(1,2,3))
    qed
    show "mem_root ?s' = (if c = [] then y else mem_root s)"
      using hole_parent_cases [of c] cn by (auto simp: f(8))
    show "distinct (before c @ after c)" using dd by auto
    show "x \<noteq> MEM_NIL" by (rule x)
    show "x \<notin> set (before c @ after c)" using dd by auto
  qed
  show "wf (mem ?s') NULL (mem_root ?s') (plug c (Node (Node a x b) y d))"
    using wc' wx' by (simp add: wf_plug)
qed

lemma wfc_child_side:
  assumes "wfc h rt c p" "c \<noteq> []" "p \<noteq> MEM_NIL" "p \<notin> set (before c @ after c)"
  shows "(left (h (hole_parent c)) = p) = (right (h (hole_parent c)) \<noteq> p)"
proof (cases c)
  case Nil then show ?thesis using assms by simp
next
  case (Cons f c')
  show ?thesis
  proof (cases f)
    case (LeftOf a r)
    have "wf h a (right (h a)) r" using assms Cons LeftOf by simp
    then have "right (h a) = rootp r" by (rule wf_rootp)
    then have "right (h a) \<noteq> p" using rootp_cases [of r] assms Cons LeftOf by auto
    then show ?thesis using assms Cons LeftOf by simp
  next
    case (RightOf l a)
    have "wf h a (left (h a)) l" using assms Cons RightOf by simp
    then have "left (h a) = rootp l" by (rule wf_rootp)
    then have "left (h a) \<noteq> p" using rootp_cases [of l] assms Cons RightOf by auto
    then show ?thesis using assms Cons RightOf by simp
  qed
qed

lemma rotate_right_tree:
  assumes w: "wf (mem s) NULL (mem_root s) (plug c (Node (Node d y b) x a))"
      and d: "distinct (inorder (plug c (Node (Node d y b) x a)))"
  shows "wf (mem (mem_rotate_right x s)) NULL (mem_root (mem_rotate_right x s))
           (plug c (Node d y (Node b x a)))"
    and "color (mem (mem_rotate_right x s) n) = color (mem s n)"
    and "start (mem (mem_rotate_right x s) n) = start (mem s n)"
    and "end' (mem (mem_rotate_right x s) n) = end' (mem s n)"
    and "type (mem (mem_rotate_right x s) n) = type (mem s n)"
    and "min_heap_address (mem_rotate_right x s) = min_heap_address s"
    and "max_heap_address (mem_rotate_right x s) = max_heap_address s"
    and "next_node (mem_rotate_right x s) = next_node s"
    and "parent (mem (mem_rotate_right x s) MEM_NIL) = parent (mem s MEM_NIL)"
proof -
  let ?h = "mem s" and ?s' = "mem_rotate_right x s"
  let ?pp = "hole_parent c" and ?bp = "rootp b"
  have wc: "wfc ?h (mem_root s) c x" and wx: "wf ?h ?pp x (Node (Node d y b) x a)"
    using w by (simp_all add: wf_plug)
  have dd: "distinct (before c @ (inorder d @ y # inorder b @ x # inorder a) @ after c)"
    using d by (simp add: inorder_plug)
  have x: "x \<noteq> MEM_NIL" "x \<noteq> NULL" "parent (?h x) = ?pp" "left (?h x) = y"
    and wa: "wf ?h x (right (?h x)) a"
    and y: "y \<noteq> MEM_NIL" "y \<noteq> NULL" "parent (?h y) = x"
    and wb: "wf ?h y (right (?h y)) b" and wd: "wf ?h y (left (?h y)) d"
    using wx by simp_all
  have lb: "right (?h y) = ?bp" using wb by (rule wf_rootp)
  have la: "right (?h x) = rootp a" using wa by (rule wf_rootp)
  have rd: "left (?h y) = rootp d" using wd by (rule wf_rootp)
  have yx: "y \<noteq> x" using dd by auto
  have bpx: "?bp \<noteq> x" "?bp \<noteq> y" using rootp_cases [of b] dd x y by auto
  have cn: "\<And>n. n \<in> set (before c @ after c) \<Longrightarrow> n \<noteq> MEM_NIL \<and> n \<noteq> NULL"
    using wfc_nodes [OF wc] by blast
  have ppx: "?pp \<noteq> x" "?pp \<noteq> y" using hole_parent_cases [of c] dd x y by auto
  have bpn: "?bp \<noteq> NULL" using wb by (rule wf_rootp_nonnull)
  have ppb: "?pp \<noteq> ?bp"
  proof (cases "c = []")
    case True then show ?thesis using bpn by simp
  next
    case False
    then have "?pp \<in> set (before c @ after c)" using hole_parent_cases [of c] by auto
    then show ?thesis using rootp_cases [of b] dd cn by auto
  qed
  note f = mem_rotate_right_fields [OF x(1) x(4) y(1) yx lb bpx x(3) ppx ppb]
  show "color (mem ?s' n) = color (mem s n)" by (rule f)
  show "start (mem ?s' n) = start (mem s n)" by (rule f)
  show "end' (mem ?s' n) = end' (mem s n)" by (rule f)
  show "type (mem ?s' n) = type (mem s n)" by (rule f)
  show "min_heap_address ?s' = min_heap_address s" by (rule f)
  show "max_heap_address ?s' = max_heap_address s" by (rule f)
  show "next_node ?s' = next_node s" by (rule f)
  have ppn: "?pp \<noteq> MEM_NIL" using hole_parent_cases [of c] cn by auto
  show "parent (mem ?s' MEM_NIL) = parent (mem s MEM_NIL)"
    using x(1) y(1) by (simp add: f(3))
  have unch: "\<And>n. n \<noteq> x \<Longrightarrow> n \<noteq> y \<Longrightarrow> n \<noteq> ?pp \<Longrightarrow>
      right (mem ?s' n) = right (?h n) \<and> left (mem ?s' n) = left (?h n)"
    by (simp add: f(1,2))
  have unchp: "\<And>n. n \<noteq> x \<Longrightarrow> n \<noteq> y \<Longrightarrow> n \<noteq> ?bp \<Longrightarrow> parent (mem ?s' n) = parent (?h n)"
    by (simp add: f(3))
  have ina: "\<And>n. n \<in> set (inorder a) \<Longrightarrow> n \<noteq> x \<and> n \<noteq> y \<and> n \<noteq> ?pp \<and> n \<noteq> ?bp"
    using dd hole_parent_cases [of c] rootp_cases [of b] wf_nodes [OF wa] by auto
  have inb: "\<And>n. n \<in> set (inorder b) \<Longrightarrow> n \<noteq> x \<and> n \<noteq> y \<and> n \<noteq> ?pp"
    using dd hole_parent_cases [of c] wf_nodes [OF wb] by auto
  have ind: "\<And>n. n \<in> set (inorder d) \<Longrightarrow> n \<noteq> x \<and> n \<noteq> y \<and> n \<noteq> ?pp \<and> n \<noteq> ?bp"
    using dd hole_parent_cases [of c] rootp_cases [of b] wf_nodes [OF wd] by auto
  have inc: "\<And>n. n \<in> set (before c @ after c) \<Longrightarrow> n \<noteq> x \<and> n \<noteq> y \<and> n \<noteq> ?bp"
    using dd rootp_cases [of b] cn by auto
  have wa': "wf (mem ?s') x (rootp a) a"
  proof -
    have "wf (mem ?s') x (rootp a) a = wf ?h x (rootp a) a"
      by (rule wf_frame_fields) (use ina unch unchp in auto)
    then show ?thesis using wa la by simp
  qed
  have wd': "wf (mem ?s') y (rootp d) d"
  proof -
    have "wf (mem ?s') y (rootp d) d = wf ?h y (rootp d) d"
      by (rule wf_frame_fields) (use ind unch unchp in auto)
    then show ?thesis using wd rd by simp
  qed
  have wb': "wf (mem ?s') x ?bp b"
  proof (rule wf_reparent)
    show "wf ?h y ?bp b" using wb lb by simp
    show "\<forall>n\<in>set (inorder b). left (mem ?s' n) = left (?h n) \<and> right (mem ?s' n) = right (?h n)"
      using inb unch by auto
    show "\<forall>n\<in>set (inorder b). n \<noteq> ?bp \<longrightarrow> parent (mem ?s' n) = parent (?h n)"
      using inb unchp by auto
    show "b \<noteq> Leaf \<longrightarrow> parent (mem ?s' ?bp) = x"
      using bpx wf_nodes [OF wb] by (cases b) (auto simp: f(3))
    show "distinct (inorder b)" using dd by simp
  qed
  have wx': "wf (mem ?s') ?pp y (Node d y (Node b x a))"
    using x y yx ppx la wa' wb' wd' rd by (simp add: f(1,2,3))
  have wc': "wfc (mem ?s') (mem_root ?s') c y"
  proof (rule wfc_replace [OF wc])
    show "\<forall>n\<in>set (before c @ after c). n \<noteq> ?pp \<longrightarrow>
            left (mem ?s' n) = left (?h n) \<and> right (mem ?s' n) = right (?h n)
            \<and> parent (mem ?s' n) = parent (?h n)"
      using inc unch unchp by auto
    show "c \<noteq> [] \<longrightarrow> parent (mem ?s' ?pp) = parent (?h ?pp)
            \<and> (if left (?h ?pp) = x
                then left (mem ?s' ?pp) = y \<and> right (mem ?s' ?pp) = right (?h ?pp)
                else right (mem ?s' ?pp) = y \<and> left (mem ?s' ?pp) = left (?h ?pp))"
    proof
      assume ne: "c \<noteq> []"
      then have "?pp \<in> set (before c @ after c)" using hole_parent_cases [of c] by auto
      then have "?pp \<noteq> NULL" using cn by auto
      moreover have "(left (?h ?pp) = x) = (right (?h ?pp) \<noteq> x)"
        using wfc_child_side [OF wc ne x(1)] dd by auto
      ultimately show "parent (mem ?s' ?pp) = parent (?h ?pp)
            \<and> (if left (?h ?pp) = x
                then left (mem ?s' ?pp) = y \<and> right (mem ?s' ?pp) = right (?h ?pp)
                else right (mem ?s' ?pp) = y \<and> left (mem ?s' ?pp) = left (?h ?pp))"
        using ppx ppb by (simp add: f(1,2,3))
    qed
    show "mem_root ?s' = (if c = [] then y else mem_root s)"
      using hole_parent_cases [of c] cn by (auto simp: f(8))
    show "distinct (before c @ after c)" using dd by auto
    show "x \<noteq> MEM_NIL" by (rule x)
    show "x \<notin> set (before c @ after c)" using dd by auto
  qed
  show "wf (mem ?s') NULL (mem_root ?s') (plug c (Node d y (Node b x a)))"
    using wc' wx' by (simp add: wf_plug)
qed

lemma root_color_rootp:
  "color (h MEM_NIL) = MEM_BLACK \<Longrightarrow> root_color h t = color (h (rootp t))"
  by (cases t) simp_all

lemma wf_set_color [simp]: "wf (mem (set_color a k s)) par p t = wf (mem s) par p t"
  by (rule wf_frame_fields) simp

lemma wfc_set_color [simp]: "wfc (mem (set_color a k s)) rt c p = wfc (mem s) rt c p"
  by (rule wfc_frame) simp

lemma tree_of_set_color:
  "tree_of s t \<Longrightarrow> a \<noteq> MEM_NIL \<or> k = MEM_BLACK \<Longrightarrow> tree_of (set_color a k s) t"
  by (auto simp: tree_of_def)

lemma tree_of_rotate_left:
  assumes "tree_of s (plug c (Node a x (Node b y d)))"
  shows "tree_of (mem_rotate_left x s) (plug c (Node (Node a x b) y d))"
proof -
  have w: "wf (mem s) NULL (mem_root s) (plug c (Node a x (Node b y d)))"
    and d: "distinct (inorder (plug c (Node a x (Node b y d))))"
    using assms by (simp_all add: tree_of_def)
  have i: "inorder (plug c (Node (Node a x b) y d)) = inorder (plug c (Node a x (Node b y d)))"
    by (simp add: inorder_plug)
  show ?thesis
    using assms rotate_left_tree [OF w d]
    unfolding tree_of_def i by simp
qed

lemma tree_of_rotate_right:
  assumes "tree_of s (plug c (Node (Node d y b) x a))"
  shows "tree_of (mem_rotate_right x s) (plug c (Node d y (Node b x a)))"
proof -
  have w: "wf (mem s) NULL (mem_root s) (plug c (Node (Node d y b) x a))"
    and d: "distinct (inorder (plug c (Node (Node d y b) x a)))"
    using assms by (simp_all add: tree_of_def)
  have i: "inorder (plug c (Node d y (Node b x a))) = inorder (plug c (Node (Node d y b) x a))"
    by (simp add: inorder_plug)
  show ?thesis
    using assms rotate_right_tree [OF w d]
    unfolding tree_of_def i by simp
qed

lemma wfc_root_in:
  "wfc h rt c p \<Longrightarrow> c \<noteq> [] \<Longrightarrow> rt \<in> set (before c @ after c)"
proof (induction c arbitrary: p)
  case Nil then show ?case by simp
next
  case (Cons f c)
  show ?case
  proof (cases "c = []")
    case True
    then show ?thesis using Cons.prems by (cases f) auto
  next
    case False
    obtain q where "wfc h rt c q" using Cons.prems by (cases f) auto
    then have "rt \<in> set (before c @ after c)" using False by (rule Cons.IH)
    then show ?thesis by (cases f) auto
  qed
qed

lemma color_frame:
  assumes "\<forall>a \<in> set (inorder t). color (h' a) = color (h a)"
  shows "bh h' t = bh h t" "balanced h' t = balanced h t"
        "no_red_red h' t = no_red_red h t" "root_color h' t = root_color h t"
  using assms bh_frame balanced_frame no_red_red_frame root_color_frame by blast+

lemma ctx_color_frame:
  assumes "\<forall>a \<in> set (before c @ after c). color (h' a) = color (h a)"
  shows "cbal h' c n = cbal h c n" "cnrr h' c k = cnrr h c k"
  using assms cbal_frame cnrr_frame by blast+

lemma same_data_refl [simp]: "same_data s s"
  by (simp add: same_data_def)

lemma same_data_trans: "same_data s s1 \<Longrightarrow> same_data s1 s2 \<Longrightarrow> same_data s s2"
  by (simp add: same_data_def)

lemma same_data_set_color [simp]:
  "same_data (set_color a k s) s' = same_data s s'"
  "same_data s (set_color a k s') = same_data s s'"
  by (simp_all add: same_data_def)

lemma same_data_rotate_left:
  "tree_of s (plug c (Node a x (Node b y d))) \<Longrightarrow> same_data s (mem_rotate_left x s)"
  unfolding same_data_def tree_of_def
  using rotate_left_tree(3,4,5,6,7,8) [of s c a x b y d] by simp

lemma same_data_rotate_right:
  "tree_of s (plug c (Node (Node d y b) x a)) \<Longrightarrow> same_data s (mem_rotate_right x s)"
  unfolding same_data_def tree_of_def
  using rotate_right_tree(3,4,5,6,7,8) [of s c d y b x a] by simp

lemma color_rotate_left:
  "tree_of s (plug c (Node a x (Node b y d))) \<Longrightarrow>
   color (mem (mem_rotate_left x s) n) = color (mem s n)"
  unfolding tree_of_def using rotate_left_tree(2) [of s c a x b y d] by simp

lemma color_rotate_right:
  "tree_of s (plug c (Node (Node d y b) x a)) \<Longrightarrow>
   color (mem (mem_rotate_right x s) n) = color (mem s n)"
  unfolding tree_of_def using rotate_right_tree(2) [of s c d y b x a] by simp

text \<open>Uncle black, \<open>x\<close> the left child of a left child.\<close>

lemma ins_black_LL:
  assumes inv: "ins_inv s (LeftOf p pr # LeftOf g u # c) (Node xl x xr)"
      and pr: "color (mem s p) = MEM_RED"
      and ub: "root_color (mem s) u = MEM_BLACK"
  shows "\<exists>s'. mem_insert_fixup_step x s = (x, s')
           \<and> color (mem s' (parent (mem s' x))) = MEM_BLACK
           \<and> fix_post s s' (plug (LeftOf p pr # LeftOf g u # c) (Node xl x xr))"
proof -
  let ?h = "mem s"
  let ?T = "plug c (Node (Node (Node xl x xr) p pr) g u)"
  let ?T' = "plug c (Node (Node xl x xr) p (Node pr g u))"
  have t: "tree_of s ?T" and xred: "color (?h x) = MEM_RED"
    and nx: "no_red_red ?h (Node xl x xr)" and bal: "balanced ?h ?T"
    and cn: "cnrr ?h (LeftOf p pr # LeftOf g u # c) MEM_BLACK"
    using inv by (auto simp: ins_inv_def)
  have nil: "color (?h MEM_NIL) = MEM_BLACK" using t by (simp add: tree_of_def)
  have w: "wf ?h (hole_parent c) g (Node (Node (Node xl x xr) p pr) g u)"
    using t by (simp add: tree_of_def wf_plug)
  have d: "distinct (before c @ (inorder xl @ x # inorder xr @ p # inorder pr @ g # inorder u)
             @ after c)"
    using t by (simp add: tree_of_def inorder_plug)
  have ptr: "parent (?h x) = p" "parent (?h p) = g" "left (?h g) = p" "left (?h p) = x"
    and wpr: "wf ?h p (right (?h p)) pr" and wu: "wf ?h g (right (?h g)) u"
    and nn: "x \<noteq> MEM_NIL" "p \<noteq> MEM_NIL" "g \<noteq> MEM_NIL"
    using w by simp_all
  have rp: "right (?h p) = rootp pr" using wpr by (rule wf_rootp)
  have rg: "right (?h g) = rootp u" using wu by (rule wf_rootp)
  have ne: "x \<noteq> p" "x \<noteq> g" "p \<noteq> g" using d by auto
  have xpr: "x \<noteq> rootp pr" using rootp_cases [of pr] d nn by auto
  have uc: "color (?h (rootp u)) = MEM_BLACK" using ub nil by (simp add: root_color_rootp)
  define s3 where "s3 = set_color g MEM_RED (set_color p MEM_BLACK s)"
  define s4 where "s4 = mem_rotate_right g s3"
  have step: "mem_insert_fixup_step x s = (x, s4)"
    using ptr rp rg ne xpr uc
    by (simp add: mem_insert_fixup_step_def Let_def s4_def s3_def)
  have t3: "tree_of s3 ?T"
    unfolding s3_def using t nn by (intro tree_of_set_color) auto
  have t4: "tree_of s4 ?T'" unfolding s4_def using t3 by (rule tree_of_rotate_right)
  have col: "\<And>n. color (mem s4 n) = (if n = g then MEM_RED else if n = p then MEM_BLACK
                                        else color (?h n))"
    unfolding s4_def using color_rotate_right [OF t3] by (simp add: s3_def)
  have sd: "same_data s s4"
    unfolding s4_def using same_data_rotate_right [OF t3]
    by (simp add: s3_def)
  have w4: "wf (mem s4) (hole_parent c) p (Node (Node xl x xr) p (Node pr g u))"
    using t4 by (simp add: tree_of_def wf_plug)
  have px: "parent (mem s4 x) = p" using w4 by simp
  have exit: "color (mem s4 (parent (mem s4 x))) = MEM_BLACK"
    using ne by (simp add: px col)
  have fr: "\<forall>a\<in>set (inorder xl). color (mem s4 a) = color (?h a)"
      "\<forall>a\<in>set (inorder xr). color (mem s4 a) = color (?h a)"
      "\<forall>a\<in>set (inorder pr). color (mem s4 a) = color (?h a)"
      "\<forall>a\<in>set (inorder u). color (mem s4 a) = color (?h a)"
      "\<forall>a\<in>set (before c @ after c). color (mem s4 a) = color (?h a)"
    using d by (auto simp: col)
  note cf = color_frame [OF fr(1)] color_frame [OF fr(2)] color_frame [OF fr(3)]
    color_frame [OF fr(4)] ctx_color_frame [OF fr(5)]
  have gb: "color (?h g) = MEM_BLACK" and prb: "root_color ?h pr = MEM_BLACK"
    using cn pr by auto
  have nrr: "no_red_red (mem s4) ?T'"
    using nx cn pr ub gb prb xred ne
    by (auto simp: no_red_red_plug col cf)
  have bal4: "balanced (mem s4) ?T'"
    using bal pr gb xred ne
    by (auto simp: balanced_plug col cf)
  have "fix_post s s4 ?T"
    unfolding fix_post_def
    using t4 nrr bal4 sd by (intro exI [of _ ?T']) (simp add: inorder_plug)
  then show ?thesis using step exit by simp
qed

text \<open>Uncle black, \<open>x\<close> the right child of a left child.\<close>

lemma ins_black_LR:
  assumes inv: "ins_inv s (RightOf pl p # LeftOf g u # c) (Node xl x xr)"
      and pr: "color (mem s p) = MEM_RED"
      and ub: "root_color (mem s) u = MEM_BLACK"
  shows "\<exists>s'. mem_insert_fixup_step x s = (p, s')
           \<and> color (mem s' (parent (mem s' p))) = MEM_BLACK
           \<and> fix_post s s' (plug (RightOf pl p # LeftOf g u # c) (Node xl x xr))"
proof -
  let ?h = "mem s"
  let ?T = "plug c (Node (Node pl p (Node xl x xr)) g u)"
  let ?T1 = "plug c (Node (Node (Node pl p xl) x xr) g u)"
  let ?T' = "plug c (Node (Node pl p xl) x (Node xr g u))"
  have t: "tree_of s ?T" and xred: "color (?h x) = MEM_RED"
    and nx: "no_red_red ?h (Node xl x xr)" and bal: "balanced ?h ?T"
    and cn: "cnrr ?h (RightOf pl p # LeftOf g u # c) MEM_BLACK"
    using inv by (auto simp: ins_inv_def)
  have nil: "color (?h MEM_NIL) = MEM_BLACK" using t by (simp add: tree_of_def)
  have w: "wf ?h (hole_parent c) g (Node (Node pl p (Node xl x xr)) g u)"
    using t by (simp add: tree_of_def wf_plug)
  have d: "distinct (before c @ (inorder pl @ p # inorder xl @ x # inorder xr @ g # inorder u)
             @ after c)"
    using t by (simp add: tree_of_def inorder_plug)
  have ptr: "parent (?h x) = p" "parent (?h p) = g" "left (?h g) = p" "right (?h p) = x"
    and wu: "wf ?h g (right (?h g)) u"
    and nn: "x \<noteq> MEM_NIL" "p \<noteq> MEM_NIL" "g \<noteq> MEM_NIL"
    using w by simp_all
  have rg: "right (?h g) = rootp u" using wu by (rule wf_rootp)
  have ne: "x \<noteq> p" "x \<noteq> g" "p \<noteq> g" using d by auto
  have uc: "color (?h (rootp u)) = MEM_BLACK" using ub nil by (simp add: root_color_rootp)
  have t1: "tree_of (mem_rotate_left p s) ?T1"
    using tree_of_rotate_left [of s "LeftOf g u # c" pl p xl x xr] t by simp
  have w1: "wf (mem (mem_rotate_left p s)) (hole_parent c) g (Node (Node (Node pl p xl) x xr) g u)"
    using t1 by (simp add: tree_of_def wf_plug)
  have ptr1: "parent (mem (mem_rotate_left p s) p) = x" "parent (mem (mem_rotate_left p s) x) = g"
    using w1 by simp_all
  define s3 where "s3 = set_color g MEM_RED (set_color x MEM_BLACK (mem_rotate_left p s))"
  define s4 where "s4 = mem_rotate_right g s3"
  have step: "mem_insert_fixup_step x s = (p, s4)"
    using ptr rg ne uc ptr1
    by (simp add: mem_insert_fixup_step_def Let_def s4_def s3_def)
  have t3: "tree_of s3 ?T1"
    unfolding s3_def using t1 nn by (intro tree_of_set_color) auto
  have t4: "tree_of s4 ?T'" unfolding s4_def using t3 by (rule tree_of_rotate_right)
  have c1: "\<And>n. color (mem (mem_rotate_left p s) n) = color (?h n)"
    using color_rotate_left [of s "LeftOf g u # c" pl p xl x xr] t by simp
  have col: "\<And>n. color (mem s4 n) = (if n = g then MEM_RED else if n = x then MEM_BLACK
                                        else color (?h n))"
    unfolding s4_def using color_rotate_right [OF t3] by (simp add: s3_def c1)
  have sd1: "same_data s (mem_rotate_left p s)"
    using same_data_rotate_left [of s "LeftOf g u # c" pl p xl x xr] t by simp
  have "same_data s3 s4" unfolding s4_def using t3 by (rule same_data_rotate_right)
  then have sd: "same_data s s4"
    using sd1 by (auto simp: s3_def intro: same_data_trans)
  have w4: "wf (mem s4) (hole_parent c) x (Node (Node pl p xl) x (Node xr g u))"
    using t4 by (simp add: tree_of_def wf_plug)
  have px: "parent (mem s4 p) = x" using w4 by simp
  have exit: "color (mem s4 (parent (mem s4 p))) = MEM_BLACK"
    using ne by (simp add: px col)
  have fr: "\<forall>a\<in>set (inorder xl). color (mem s4 a) = color (?h a)"
      "\<forall>a\<in>set (inorder xr). color (mem s4 a) = color (?h a)"
      "\<forall>a\<in>set (inorder pl). color (mem s4 a) = color (?h a)"
      "\<forall>a\<in>set (inorder u). color (mem s4 a) = color (?h a)"
      "\<forall>a\<in>set (before c @ after c). color (mem s4 a) = color (?h a)"
    using d by (auto simp: col)
  note cf = color_frame [OF fr(1)] color_frame [OF fr(2)] color_frame [OF fr(3)]
    color_frame [OF fr(4)] ctx_color_frame [OF fr(5)]
  have gb: "color (?h g) = MEM_BLACK" and plb: "root_color ?h pl = MEM_BLACK"
    using cn pr by auto
  have nrr: "no_red_red (mem s4) ?T'"
    using nx cn pr ub gb plb xred ne
    by (auto simp: no_red_red_plug col cf)
  have bal4: "balanced (mem s4) ?T'"
    using bal pr gb xred ne
    by (auto simp: balanced_plug col cf)
  have "fix_post s s4 ?T"
    unfolding fix_post_def
    using t4 nrr bal4 sd by (intro exI [of _ ?T']) (simp add: inorder_plug)
  then show ?thesis using step exit by simp
qed

text \<open>Uncle black, \<open>x\<close> the right child of a right child.\<close>

lemma ins_black_RR:
  assumes inv: "ins_inv s (RightOf pl p # RightOf u g # c) (Node xl x xr)"
      and pr: "color (mem s p) = MEM_RED"
      and ub: "root_color (mem s) u = MEM_BLACK"
  shows "\<exists>s'. mem_insert_fixup_step x s = (x, s')
           \<and> color (mem s' (parent (mem s' x))) = MEM_BLACK
           \<and> fix_post s s' (plug (RightOf pl p # RightOf u g # c) (Node xl x xr))"
proof -
  let ?h = "mem s"
  let ?T = "plug c (Node u g (Node pl p (Node xl x xr)))"
  let ?T' = "plug c (Node (Node u g pl) p (Node xl x xr))"
  have t: "tree_of s ?T" and xred: "color (?h x) = MEM_RED"
    and nx: "no_red_red ?h (Node xl x xr)" and bal: "balanced ?h ?T"
    and cn: "cnrr ?h (RightOf pl p # RightOf u g # c) MEM_BLACK"
    using inv by (auto simp: ins_inv_def)
  have nil: "color (?h MEM_NIL) = MEM_BLACK" using t by (simp add: tree_of_def)
  have w: "wf ?h (hole_parent c) g (Node u g (Node pl p (Node xl x xr)))"
    using t by (simp add: tree_of_def wf_plug)
  have d: "distinct (before c @ (inorder u @ g # inorder pl @ p # inorder xl @ x # inorder xr)
             @ after c)"
    using t by (simp add: tree_of_def inorder_plug)
  have ptr: "parent (?h x) = p" "parent (?h p) = g" "right (?h g) = p" "right (?h p) = x"
    and wpl: "wf ?h p (left (?h p)) pl" and wu: "wf ?h g (left (?h g)) u"
    and nn: "x \<noteq> MEM_NIL" "p \<noteq> MEM_NIL" "g \<noteq> MEM_NIL"
    using w by simp_all
  have lp: "left (?h p) = rootp pl" using wpl by (rule wf_rootp)
  have lg: "left (?h g) = rootp u" using wu by (rule wf_rootp)
  have ne: "x \<noteq> p" "x \<noteq> g" "p \<noteq> g" using d by auto
  have xpl: "x \<noteq> rootp pl" using rootp_cases [of pl] d nn by auto
  have pu: "p \<noteq> rootp u" using rootp_cases [of u] d nn by auto
  have uc: "color (?h (rootp u)) = MEM_BLACK" using ub nil by (simp add: root_color_rootp)
  define s3 where "s3 = set_color g MEM_RED (set_color p MEM_BLACK s)"
  define s4 where "s4 = mem_rotate_left g s3"
  have step: "mem_insert_fixup_step x s = (x, s4)"
    using ptr lp lg ne xpl pu uc
    by (simp add: mem_insert_fixup_step_def Let_def s4_def s3_def)
  have t3: "tree_of s3 ?T"
    unfolding s3_def using t nn by (intro tree_of_set_color) auto
  have t4: "tree_of s4 ?T'" unfolding s4_def using t3 by (rule tree_of_rotate_left)
  have col: "\<And>n. color (mem s4 n) = (if n = g then MEM_RED else if n = p then MEM_BLACK
                                        else color (?h n))"
    unfolding s4_def using color_rotate_left [OF t3] by (simp add: s3_def)
  have sd: "same_data s s4"
    unfolding s4_def using same_data_rotate_left [OF t3]
    by (simp add: s3_def)
  have w4: "wf (mem s4) (hole_parent c) p (Node (Node u g pl) p (Node xl x xr))"
    using t4 by (simp add: tree_of_def wf_plug)
  have px: "parent (mem s4 x) = p" using w4 by simp
  have exit: "color (mem s4 (parent (mem s4 x))) = MEM_BLACK"
    using ne by (simp add: px col)
  have fr: "\<forall>a\<in>set (inorder xl). color (mem s4 a) = color (?h a)"
      "\<forall>a\<in>set (inorder xr). color (mem s4 a) = color (?h a)"
      "\<forall>a\<in>set (inorder pl). color (mem s4 a) = color (?h a)"
      "\<forall>a\<in>set (inorder u). color (mem s4 a) = color (?h a)"
      "\<forall>a\<in>set (before c @ after c). color (mem s4 a) = color (?h a)"
    using d by (auto simp: col)
  note cf = color_frame [OF fr(1)] color_frame [OF fr(2)] color_frame [OF fr(3)]
    color_frame [OF fr(4)] ctx_color_frame [OF fr(5)]
  have gb: "color (?h g) = MEM_BLACK" and plb: "root_color ?h pl = MEM_BLACK"
    using cn pr by auto
  have nrr: "no_red_red (mem s4) ?T'"
    using nx cn pr ub gb plb xred ne
    by (auto simp: no_red_red_plug col cf)
  have bal4: "balanced (mem s4) ?T'"
    using bal pr gb xred ne
    by (auto simp: balanced_plug col cf)
  have "fix_post s s4 ?T"
    unfolding fix_post_def
    using t4 nrr bal4 sd by (intro exI [of _ ?T']) (simp add: inorder_plug)
  then show ?thesis using step exit by simp
qed

text \<open>Uncle black, \<open>x\<close> the left child of a right child.\<close>

lemma ins_black_RL:
  assumes inv: "ins_inv s (LeftOf p pr # RightOf u g # c) (Node xl x xr)"
      and pr: "color (mem s p) = MEM_RED"
      and ub: "root_color (mem s) u = MEM_BLACK"
  shows "\<exists>s'. mem_insert_fixup_step x s = (p, s')
           \<and> color (mem s' (parent (mem s' p))) = MEM_BLACK
           \<and> fix_post s s' (plug (LeftOf p pr # RightOf u g # c) (Node xl x xr))"
proof -
  let ?h = "mem s"
  let ?T = "plug c (Node u g (Node (Node xl x xr) p pr))"
  let ?T1 = "plug c (Node u g (Node xl x (Node xr p pr)))"
  let ?T' = "plug c (Node (Node u g xl) x (Node xr p pr))"
  have t: "tree_of s ?T" and xred: "color (?h x) = MEM_RED"
    and nx: "no_red_red ?h (Node xl x xr)" and bal: "balanced ?h ?T"
    and cn: "cnrr ?h (LeftOf p pr # RightOf u g # c) MEM_BLACK"
    using inv by (auto simp: ins_inv_def)
  have nil: "color (?h MEM_NIL) = MEM_BLACK" using t by (simp add: tree_of_def)
  have w: "wf ?h (hole_parent c) g (Node u g (Node (Node xl x xr) p pr))"
    using t by (simp add: tree_of_def wf_plug)
  have d: "distinct (before c @ (inorder u @ g # inorder xl @ x # inorder xr @ p # inorder pr)
             @ after c)"
    using t by (simp add: tree_of_def inorder_plug)
  have ptr: "parent (?h x) = p" "parent (?h p) = g" "right (?h g) = p" "left (?h p) = x"
    and wu: "wf ?h g (left (?h g)) u"
    and nn: "x \<noteq> MEM_NIL" "p \<noteq> MEM_NIL" "g \<noteq> MEM_NIL"
    using w by simp_all
  have lg: "left (?h g) = rootp u" using wu by (rule wf_rootp)
  have ne: "x \<noteq> p" "x \<noteq> g" "p \<noteq> g" using d by auto
  have pu: "p \<noteq> rootp u" using rootp_cases [of u] d nn by auto
  have uc: "color (?h (rootp u)) = MEM_BLACK" using ub nil by (simp add: root_color_rootp)
  have t1: "tree_of (mem_rotate_right p s) ?T1"
    using tree_of_rotate_right [of s "RightOf u g # c" xl x xr p pr] t by simp
  have w1: "wf (mem (mem_rotate_right p s)) (hole_parent c) g (Node u g (Node xl x (Node xr p pr)))"
    using t1 by (simp add: tree_of_def wf_plug)
  have ptr1: "parent (mem (mem_rotate_right p s) p) = x" "parent (mem (mem_rotate_right p s) x) = g"
    using w1 by simp_all
  define s3 where "s3 = set_color g MEM_RED (set_color x MEM_BLACK (mem_rotate_right p s))"
  define s4 where "s4 = mem_rotate_left g s3"
  have step: "mem_insert_fixup_step x s = (p, s4)"
    using ptr lg ne pu uc ptr1
    by (simp add: mem_insert_fixup_step_def Let_def s4_def s3_def)
  have t3: "tree_of s3 ?T1"
    unfolding s3_def using t1 nn by (intro tree_of_set_color) auto
  have t4: "tree_of s4 ?T'" unfolding s4_def using t3 by (rule tree_of_rotate_left)
  have c1: "\<And>n. color (mem (mem_rotate_right p s) n) = color (?h n)"
    using color_rotate_right [of s "RightOf u g # c" xl x xr p pr] t by simp
  have col: "\<And>n. color (mem s4 n) = (if n = g then MEM_RED else if n = x then MEM_BLACK
                                        else color (?h n))"
    unfolding s4_def using color_rotate_left [OF t3] by (simp add: s3_def c1)
  have sd1: "same_data s (mem_rotate_right p s)"
    using same_data_rotate_right [of s "RightOf u g # c" xl x xr p pr] t by simp
  have "same_data s3 s4" unfolding s4_def using t3 by (rule same_data_rotate_left)
  then have sd: "same_data s s4"
    using sd1 by (auto simp: s3_def intro: same_data_trans)
  have w4: "wf (mem s4) (hole_parent c) x (Node (Node u g xl) x (Node xr p pr))"
    using t4 by (simp add: tree_of_def wf_plug)
  have px: "parent (mem s4 p) = x" using w4 by simp
  have exit: "color (mem s4 (parent (mem s4 p))) = MEM_BLACK"
    using ne by (simp add: px col)
  have fr: "\<forall>a\<in>set (inorder xl). color (mem s4 a) = color (?h a)"
      "\<forall>a\<in>set (inorder xr). color (mem s4 a) = color (?h a)"
      "\<forall>a\<in>set (inorder pr). color (mem s4 a) = color (?h a)"
      "\<forall>a\<in>set (inorder u). color (mem s4 a) = color (?h a)"
      "\<forall>a\<in>set (before c @ after c). color (mem s4 a) = color (?h a)"
    using d by (auto simp: col)
  note cf = color_frame [OF fr(1)] color_frame [OF fr(2)] color_frame [OF fr(3)]
    color_frame [OF fr(4)] ctx_color_frame [OF fr(5)]
  have gb: "color (?h g) = MEM_BLACK" and prb: "root_color ?h pr = MEM_BLACK"
    using cn pr by auto
  have nrr: "no_red_red (mem s4) ?T'"
    using nx cn pr ub gb prb xred ne
    by (auto simp: no_red_red_plug col cf)
  have bal4: "balanced (mem s4) ?T'"
    using bal pr gb xred ne
    by (auto simp: balanced_plug col cf)
  have "fix_post s s4 ?T"
    unfolding fix_post_def
    using t4 nrr bal4 sd by (intro exI [of _ ?T']) (simp add: inorder_plug)
  then show ?thesis using step exit by simp
qed

text \<open>Uncle red: recolour and continue at the grandparent.\<close>

lemma ins_red_LL:
  assumes inv: "ins_inv s (LeftOf p pr # LeftOf g (Node ul y ur) # c) (Node xl x xr)"
      and pr: "color (mem s p) = MEM_RED"
      and ur: "color (mem s y) = MEM_RED"
  shows "\<exists>s'. mem_insert_fixup_step x s = (g, s')
           \<and> ins_inv s' c (Node (Node (Node xl x xr) p pr) g (Node ul y ur))
           \<and> same_data s s'"
proof -
  let ?h = "mem s" and ?u = "Node ul y ur"
  let ?t' = "Node (Node (Node xl x xr) p pr) g ?u"
  let ?T = "plug c ?t'"
  have t: "tree_of s ?T" and xred: "color (?h x) = MEM_RED"
    and nx: "no_red_red ?h (Node xl x xr)" and bal: "balanced ?h ?T"
    and cn: "cnrr ?h (LeftOf p pr # LeftOf g ?u # c) MEM_BLACK"
    and rb: "color (?h (mem_root s)) = MEM_BLACK"
    using inv by (auto simp: ins_inv_def)
  have wc: "wfc ?h (mem_root s) c g" and w: "wf ?h (hole_parent c) g ?t'"
    using t by (simp_all add: tree_of_def wf_plug)
  have d: "distinct (before c @ (inorder xl @ x # inorder xr @ p # inorder pr @ g
             # inorder ul @ y # inorder ur) @ after c)"
    using t by (simp add: tree_of_def inorder_plug)
  have ptr: "parent (?h x) = p" "parent (?h p) = g" "left (?h g) = p" "right (?h g) = y"
    and nn: "x \<noteq> MEM_NIL" "p \<noteq> MEM_NIL" "g \<noteq> MEM_NIL" "y \<noteq> MEM_NIL"
    using w by simp_all
  have ne: "x \<noteq> p" "x \<noteq> g" "p \<noteq> g" "y \<noteq> x" "y \<noteq> p" "y \<noteq> g" using d by auto
  define s3 where
    "s3 = set_color g MEM_RED (set_color y MEM_BLACK (set_color p MEM_BLACK s))"
  have step: "mem_insert_fixup_step x s = (g, s3)"
    using ptr ne ur
    by (simp add: mem_insert_fixup_step_def Let_def s3_def)
  have t3: "tree_of s3 ?T"
    unfolding s3_def using t nn by (intro tree_of_set_color) auto
  have col: "\<And>n. color (mem s3 n) = (if n = g then MEM_RED else if n = y then MEM_BLACK
                      else if n = p then MEM_BLACK else color (?h n))"
    by (simp add: s3_def)
  have fr: "\<forall>a\<in>set (inorder xl). color (mem s3 a) = color (?h a)"
      "\<forall>a\<in>set (inorder xr). color (mem s3 a) = color (?h a)"
      "\<forall>a\<in>set (inorder pr). color (mem s3 a) = color (?h a)"
      "\<forall>a\<in>set (inorder ul). color (mem s3 a) = color (?h a)"
      "\<forall>a\<in>set (inorder ur). color (mem s3 a) = color (?h a)"
      "\<forall>a\<in>set (before c @ after c). color (mem s3 a) = color (?h a)"
    using d by (auto simp: col)
  note cf = color_frame [OF fr(1)] color_frame [OF fr(2)] color_frame [OF fr(3)]
    color_frame [OF fr(4)] color_frame [OF fr(5)] ctx_color_frame [OF fr(6)]
  have gb: "color (?h g) = MEM_BLACK" using cn pr by auto
  have nrr: "no_red_red (mem s3) ?t'"
    using nx cn pr ur gb xred ne by (auto simp: col cf)
  have bal3: "balanced (mem s3) ?T"
    using bal pr ur gb xred ne by (auto simp: balanced_plug col cf)
  have cn3: "cnrr (mem s3) c MEM_BLACK" using cn gb by (simp add: cf)
  have rt3: "c \<noteq> [] \<longrightarrow> color (mem s3 (mem_root s3)) = MEM_BLACK"
  proof
    assume "c \<noteq> []"
    then have "mem_root s \<in> set (before c @ after c)" using wc by (rule wfc_root_in [rotated])
    then have "color (mem s3 (mem_root s)) = color (?h (mem_root s))" using fr(6) by blast
    then show "color (mem s3 (mem_root s3)) = MEM_BLACK" using rb by (simp add: s3_def)
  qed
  have "ins_inv s3 c ?t'"
    unfolding ins_inv_def using t3 nrr bal3 cn3 rt3 by (simp add: col)
  moreover have "same_data s s3" by (simp add: s3_def)
  ultimately show ?thesis using step by simp
qed

lemma ins_red_LR:
  assumes inv: "ins_inv s (RightOf pl p # LeftOf g (Node ul y ur) # c) (Node xl x xr)"
      and pr: "color (mem s p) = MEM_RED"
      and ur: "color (mem s y) = MEM_RED"
  shows "\<exists>s'. mem_insert_fixup_step x s = (g, s')
           \<and> ins_inv s' c (Node (Node pl p (Node xl x xr)) g (Node ul y ur))
           \<and> same_data s s'"
proof -
  let ?h = "mem s" and ?u = "Node ul y ur"
  let ?t' = "Node (Node pl p (Node xl x xr)) g ?u"
  let ?T = "plug c ?t'"
  have t: "tree_of s ?T" and xred: "color (?h x) = MEM_RED"
    and nx: "no_red_red ?h (Node xl x xr)" and bal: "balanced ?h ?T"
    and cn: "cnrr ?h (RightOf pl p # LeftOf g ?u # c) MEM_BLACK"
    and rb: "color (?h (mem_root s)) = MEM_BLACK"
    using inv by (auto simp: ins_inv_def)
  have wc: "wfc ?h (mem_root s) c g" and w: "wf ?h (hole_parent c) g ?t'"
    using t by (simp_all add: tree_of_def wf_plug)
  have d: "distinct (before c @ (inorder pl @ p # inorder xl @ x # inorder xr @ g # inorder ul @ y # inorder ur) @ after c)"
    using t by (simp add: tree_of_def inorder_plug)
  have ptr: "parent (?h x) = p" "parent (?h p) = g" "left (?h g) = p" "right (?h g) = y"
    and nn: "x \<noteq> MEM_NIL" "p \<noteq> MEM_NIL" "g \<noteq> MEM_NIL" "y \<noteq> MEM_NIL"
    using w by simp_all
  have ne: "x \<noteq> p" "x \<noteq> g" "p \<noteq> g" "y \<noteq> x" "y \<noteq> p" "y \<noteq> g" using d by auto
  define s3 where
    "s3 = set_color g MEM_RED (set_color y MEM_BLACK (set_color p MEM_BLACK s))"
  have step: "mem_insert_fixup_step x s = (g, s3)"
    using ptr ne ur
    by (simp add: mem_insert_fixup_step_def Let_def s3_def)
  have t3: "tree_of s3 ?T"
    unfolding s3_def using t nn by (intro tree_of_set_color) auto
  have col: "\<And>n. color (mem s3 n) = (if n = g then MEM_RED else if n = y then MEM_BLACK
                      else if n = p then MEM_BLACK else color (?h n))"
    by (simp add: s3_def)
  have fr: "\<forall>a\<in>set (inorder xl). color (mem s3 a) = color (?h a)"
      "\<forall>a\<in>set (inorder xr). color (mem s3 a) = color (?h a)"
      "\<forall>a\<in>set (inorder pl). color (mem s3 a) = color (?h a)"
      "\<forall>a\<in>set (inorder ul). color (mem s3 a) = color (?h a)"
      "\<forall>a\<in>set (inorder ur). color (mem s3 a) = color (?h a)"
      "\<forall>a\<in>set (before c @ after c). color (mem s3 a) = color (?h a)"
    using d by (auto simp: col)
  note cf = color_frame [OF fr(1)] color_frame [OF fr(2)] color_frame [OF fr(3)]
    color_frame [OF fr(4)] color_frame [OF fr(5)] ctx_color_frame [OF fr(6)]
  have gb: "color (?h g) = MEM_BLACK" using cn pr by auto
  have nrr: "no_red_red (mem s3) ?t'"
    using nx cn pr ur gb xred ne by (auto simp: col cf)
  have bal3: "balanced (mem s3) ?T"
    using bal pr ur gb xred ne by (auto simp: balanced_plug col cf)
  have cn3: "cnrr (mem s3) c MEM_BLACK" using cn gb by (simp add: cf)
  have rt3: "c \<noteq> [] \<longrightarrow> color (mem s3 (mem_root s3)) = MEM_BLACK"
  proof
    assume "c \<noteq> []"
    then have "mem_root s \<in> set (before c @ after c)" using wc by (rule wfc_root_in [rotated])
    then have "color (mem s3 (mem_root s)) = color (?h (mem_root s))" using fr(6) by blast
    then show "color (mem s3 (mem_root s3)) = MEM_BLACK" using rb by (simp add: s3_def)
  qed
  have "ins_inv s3 c ?t'"
    unfolding ins_inv_def using t3 nrr bal3 cn3 rt3 by (simp add: col)
  moreover have "same_data s s3" by (simp add: s3_def)
  ultimately show ?thesis using step by simp
qed

lemma ins_red_RL:
  assumes inv: "ins_inv s (LeftOf p pr # RightOf (Node ul y ur) g # c) (Node xl x xr)"
      and pr: "color (mem s p) = MEM_RED"
      and ur: "color (mem s y) = MEM_RED"
  shows "\<exists>s'. mem_insert_fixup_step x s = (g, s')
           \<and> ins_inv s' c (Node (Node ul y ur) g (Node (Node xl x xr) p pr))
           \<and> same_data s s'"
proof -
  let ?h = "mem s" and ?u = "Node ul y ur"
  let ?t' = "Node ?u g (Node (Node xl x xr) p pr)"
  let ?T = "plug c ?t'"
  have t: "tree_of s ?T" and xred: "color (?h x) = MEM_RED"
    and nx: "no_red_red ?h (Node xl x xr)" and bal: "balanced ?h ?T"
    and cn: "cnrr ?h (LeftOf p pr # RightOf ?u g # c) MEM_BLACK"
    and rb: "color (?h (mem_root s)) = MEM_BLACK"
    using inv by (auto simp: ins_inv_def)
  have wc: "wfc ?h (mem_root s) c g" and w: "wf ?h (hole_parent c) g ?t'"
    using t by (simp_all add: tree_of_def wf_plug)
  have d: "distinct (before c @ (inorder ul @ y # inorder ur @ g # inorder xl @ x # inorder xr @ p # inorder pr) @ after c)"
    using t by (simp add: tree_of_def inorder_plug)
  have ptr: "parent (?h x) = p" "parent (?h p) = g" "right (?h g) = p" "left (?h g) = y"
    and nn: "x \<noteq> MEM_NIL" "p \<noteq> MEM_NIL" "g \<noteq> MEM_NIL" "y \<noteq> MEM_NIL"
    using w by simp_all
  have ne: "x \<noteq> p" "x \<noteq> g" "p \<noteq> g" "y \<noteq> x" "y \<noteq> p" "y \<noteq> g" using d by auto
  define s3 where
    "s3 = set_color g MEM_RED (set_color y MEM_BLACK (set_color p MEM_BLACK s))"
  have step: "mem_insert_fixup_step x s = (g, s3)"
    using ptr ne ur
    by (simp add: mem_insert_fixup_step_def Let_def s3_def)
  have t3: "tree_of s3 ?T"
    unfolding s3_def using t nn by (intro tree_of_set_color) auto
  have col: "\<And>n. color (mem s3 n) = (if n = g then MEM_RED else if n = y then MEM_BLACK
                      else if n = p then MEM_BLACK else color (?h n))"
    by (simp add: s3_def)
  have fr: "\<forall>a\<in>set (inorder xl). color (mem s3 a) = color (?h a)"
      "\<forall>a\<in>set (inorder xr). color (mem s3 a) = color (?h a)"
      "\<forall>a\<in>set (inorder pr). color (mem s3 a) = color (?h a)"
      "\<forall>a\<in>set (inorder ul). color (mem s3 a) = color (?h a)"
      "\<forall>a\<in>set (inorder ur). color (mem s3 a) = color (?h a)"
      "\<forall>a\<in>set (before c @ after c). color (mem s3 a) = color (?h a)"
    using d by (auto simp: col)
  note cf = color_frame [OF fr(1)] color_frame [OF fr(2)] color_frame [OF fr(3)]
    color_frame [OF fr(4)] color_frame [OF fr(5)] ctx_color_frame [OF fr(6)]
  have gb: "color (?h g) = MEM_BLACK" using cn pr by auto
  have nrr: "no_red_red (mem s3) ?t'"
    using nx cn pr ur gb xred ne by (auto simp: col cf)
  have bal3: "balanced (mem s3) ?T"
    using bal pr ur gb xred ne by (auto simp: balanced_plug col cf)
  have cn3: "cnrr (mem s3) c MEM_BLACK" using cn gb by (simp add: cf)
  have rt3: "c \<noteq> [] \<longrightarrow> color (mem s3 (mem_root s3)) = MEM_BLACK"
  proof
    assume "c \<noteq> []"
    then have "mem_root s \<in> set (before c @ after c)" using wc by (rule wfc_root_in [rotated])
    then have "color (mem s3 (mem_root s)) = color (?h (mem_root s))" using fr(6) by blast
    then show "color (mem s3 (mem_root s3)) = MEM_BLACK" using rb by (simp add: s3_def)
  qed
  have "ins_inv s3 c ?t'"
    unfolding ins_inv_def using t3 nrr bal3 cn3 rt3 by (simp add: col)
  moreover have "same_data s s3" by (simp add: s3_def)
  ultimately show ?thesis using step by simp
qed

lemma ins_red_RR:
  assumes inv: "ins_inv s (RightOf pl p # RightOf (Node ul y ur) g # c) (Node xl x xr)"
      and pr: "color (mem s p) = MEM_RED"
      and ur: "color (mem s y) = MEM_RED"
  shows "\<exists>s'. mem_insert_fixup_step x s = (g, s')
           \<and> ins_inv s' c (Node (Node ul y ur) g (Node pl p (Node xl x xr)))
           \<and> same_data s s'"
proof -
  let ?h = "mem s" and ?u = "Node ul y ur"
  let ?t' = "Node ?u g (Node pl p (Node xl x xr))"
  let ?T = "plug c ?t'"
  have t: "tree_of s ?T" and xred: "color (?h x) = MEM_RED"
    and nx: "no_red_red ?h (Node xl x xr)" and bal: "balanced ?h ?T"
    and cn: "cnrr ?h (RightOf pl p # RightOf ?u g # c) MEM_BLACK"
    and rb: "color (?h (mem_root s)) = MEM_BLACK"
    using inv by (auto simp: ins_inv_def)
  have wc: "wfc ?h (mem_root s) c g" and w: "wf ?h (hole_parent c) g ?t'"
    using t by (simp_all add: tree_of_def wf_plug)
  have d: "distinct (before c @ (inorder ul @ y # inorder ur @ g # inorder pl @ p # inorder xl @ x # inorder xr) @ after c)"
    using t by (simp add: tree_of_def inorder_plug)
  have ptr: "parent (?h x) = p" "parent (?h p) = g" "right (?h g) = p" "left (?h g) = y"
    and nn: "x \<noteq> MEM_NIL" "p \<noteq> MEM_NIL" "g \<noteq> MEM_NIL" "y \<noteq> MEM_NIL"
    using w by simp_all
  have ne: "x \<noteq> p" "x \<noteq> g" "p \<noteq> g" "y \<noteq> x" "y \<noteq> p" "y \<noteq> g" using d by auto
  define s3 where
    "s3 = set_color g MEM_RED (set_color y MEM_BLACK (set_color p MEM_BLACK s))"
  have step: "mem_insert_fixup_step x s = (g, s3)"
    using ptr ne ur
    by (simp add: mem_insert_fixup_step_def Let_def s3_def)
  have t3: "tree_of s3 ?T"
    unfolding s3_def using t nn by (intro tree_of_set_color) auto
  have col: "\<And>n. color (mem s3 n) = (if n = g then MEM_RED else if n = y then MEM_BLACK
                      else if n = p then MEM_BLACK else color (?h n))"
    by (simp add: s3_def)
  have fr: "\<forall>a\<in>set (inorder xl). color (mem s3 a) = color (?h a)"
      "\<forall>a\<in>set (inorder xr). color (mem s3 a) = color (?h a)"
      "\<forall>a\<in>set (inorder pl). color (mem s3 a) = color (?h a)"
      "\<forall>a\<in>set (inorder ul). color (mem s3 a) = color (?h a)"
      "\<forall>a\<in>set (inorder ur). color (mem s3 a) = color (?h a)"
      "\<forall>a\<in>set (before c @ after c). color (mem s3 a) = color (?h a)"
    using d by (auto simp: col)
  note cf = color_frame [OF fr(1)] color_frame [OF fr(2)] color_frame [OF fr(3)]
    color_frame [OF fr(4)] color_frame [OF fr(5)] ctx_color_frame [OF fr(6)]
  have gb: "color (?h g) = MEM_BLACK" using cn pr by auto
  have nrr: "no_red_red (mem s3) ?t'"
    using nx cn pr ur gb xred ne by (auto simp: col cf)
  have bal3: "balanced (mem s3) ?T"
    using bal pr ur gb xred ne by (auto simp: balanced_plug col cf)
  have cn3: "cnrr (mem s3) c MEM_BLACK" using cn gb by (simp add: cf)
  have rt3: "c \<noteq> [] \<longrightarrow> color (mem s3 (mem_root s3)) = MEM_BLACK"
  proof
    assume "c \<noteq> []"
    then have "mem_root s \<in> set (before c @ after c)" using wc by (rule wfc_root_in [rotated])
    then have "color (mem s3 (mem_root s)) = color (?h (mem_root s))" using fr(6) by blast
    then show "color (mem s3 (mem_root s3)) = MEM_BLACK" using rb by (simp add: s3_def)
  qed
  have "ins_inv s3 c ?t'"
    unfolding ins_inv_def using t3 nrr bal3 cn3 rt3 by (simp add: col)
  moreover have "same_data s s3" by (simp add: s3_def)
  ultimately show ?thesis using step by simp
qed

lemma fix_post_trans:
  "same_data s s1 \<Longrightarrow> fix_post s1 s2 t \<Longrightarrow> fix_post s s2 t"
  unfolding fix_post_def by (blast intro: same_data_trans)

lemma mem_color_cases: "k = MEM_BLACK \<or> k = MEM_RED"
  by (cases k) simp_all

lemma root_color_red:
  "root_color h u \<noteq> MEM_BLACK \<Longrightarrow> \<exists>ul y ur. u = Node ul y ur \<and> color (h y) = MEM_RED"
  using mem_color_cases by (cases u) auto

lemma insert_fixup_loop:
  "ins_inv s c t \<Longrightarrow>
   \<exists>s'. mem_insert_fixup_loop (rootp t) s = Some s' \<and> fix_post s s' (plug c t)"
proof (induction "length c" arbitrary: s c t rule: less_induct)
  case less
  note inv = less.prems
  let ?h = "mem s"
  let ?G = "\<exists>s'. mem_insert_fixup_loop (rootp t) s = Some s' \<and> fix_post s s' (plug c t)"
  obtain xl x xr where t: "t = Node xl x xr"
    using inv by (cases t) (auto simp: ins_inv_def)
  have tr: "tree_of s (plug c t)" and nx: "no_red_red ?h t"
    and bal: "balanced ?h (plug c t)" and cn: "cnrr ?h c MEM_BLACK"
    and xred: "color (?h x) = MEM_RED"
    using inv t by (auto simp: ins_inv_def)
  have wc: "wfc ?h (mem_root s) c x" and wx: "wf ?h (hole_parent c) x t"
    using tr t by (simp_all add: tree_of_def wf_plug)
  have px: "parent (?h x) = hole_parent c" using wx t by simp
  have d: "distinct (before c @ inorder t @ after c)"
    using tr by (simp add: tree_of_def inorder_plug)
  have stop: "\<lbrakk>x = mem_root s \<or> color (?h (hole_parent c)) = MEM_BLACK;
               cnrr ?h c MEM_RED\<rbrakk> \<Longrightarrow> ?G"
  proof -
    assume a: "x = mem_root s \<or> color (?h (hole_parent c)) = MEM_BLACK"
      and c: "cnrr ?h c MEM_RED"
    have "mem_insert_fixup_loop x s = Some s"
      using a px by (subst mem_insert_fixup_loop.simps) auto
    moreover have "fix_post s s (plug c t)"
      unfolding fix_post_def
      using tr nx bal c xred t by (intro exI [of _ "plug c t"]) (simp add: no_red_red_plug)
    ultimately show ?G using t by simp
  qed
  show ?case
  proof (cases c)
    case Nil
    then show ?thesis using stop wc by simp
  next
    case (Cons f1 c1)
    define p where "p = hole_parent c"
    have root_in: "mem_root s \<in> set (before c @ after c)"
      using wc Cons by (intro wfc_root_in) auto
    have xroot: "x \<noteq> mem_root s" using root_in d t by auto
    have rb: "color (?h (mem_root s)) = MEM_BLACK"
      using inv Cons by (simp add: ins_inv_def)
    show ?thesis
    proof (cases "color (?h p) = MEM_BLACK")
      case True
      have "cnrr ?h c MEM_RED" using cn True Cons by (cases f1) (auto simp: p_def)
      then show ?thesis using stop True by (simp add: p_def)
    next
      case False
      then have pred: "color (?h p) = MEM_RED" using mem_color_cases by auto
      have "c1 \<noteq> []"
      proof
        assume "c1 = []"
        then have "mem_root s = p" using wc Cons by (cases f1) (auto simp: p_def)
        then show False using rb False by simp
      qed
      then obtain f2 c2 where c1: "c1 = f2 # c2" by (cases c1) auto
      have len: "length c2 < length c" using Cons c1 by simp
      have cont: "\<And>g s1 t1. \<lbrakk>mem_insert_fixup_step x s = (g, s1); ins_inv s1 c2 t1;
                    rootp t1 = g; same_data s s1; plug c2 t1 = plug c t\<rbrakk> \<Longrightarrow> ?G"
      proof -
        fix g s1 t1
        assume st: "mem_insert_fixup_step x s = (g, s1)" and i1: "ins_inv s1 c2 t1"
          and r1: "rootp t1 = g" and sd: "same_data s s1" and pl: "plug c2 t1 = plug c t"
        obtain s' where l: "mem_insert_fixup_loop (rootp t1) s1 = Some s'"
          and fp: "fix_post s1 s' (plug c2 t1)"
          using less.hyps [OF len i1] by blast
        have "mem_insert_fixup_loop x s = mem_insert_fixup_loop g s1"
          using xroot px pred st by (subst mem_insert_fixup_loop.simps) (simp add: p_def)
        then show ?G using l fp r1 pl sd t by (auto intro: fix_post_trans)
      qed
      have fin: "\<And>x1 s1. \<lbrakk>mem_insert_fixup_step x s = (x1, s1);
                    color (mem s1 (parent (mem s1 x1))) = MEM_BLACK;
                    fix_post s s1 (plug c t)\<rbrakk> \<Longrightarrow> ?G"
      proof -
        fix x1 s1
        assume st: "mem_insert_fixup_step x s = (x1, s1)"
          and ex: "color (mem s1 (parent (mem s1 x1))) = MEM_BLACK"
          and fp: "fix_post s s1 (plug c t)"
        have "mem_insert_fixup_loop x s = mem_insert_fixup_loop x1 s1"
          using xroot px pred st by (subst mem_insert_fixup_loop.simps) (simp add: p_def)
        also have "\<dots> = Some s1"
          using ex by (subst mem_insert_fixup_loop.simps) simp
        finally show ?G using fp t by simp
      qed
      show ?thesis
      proof (cases f2)
        case (LeftOf g u)
        note f2 = this
        show ?thesis
        proof (cases "root_color ?h u = MEM_BLACK")
          case True
          show ?thesis
          proof (cases f1)
            case (LeftOf p' pr)
            have i: "ins_inv s (LeftOf p pr # LeftOf g u # c2) (Node xl x xr)"
              using inv Cons c1 f2 LeftOf t by (simp add: p_def)
            show ?thesis
              using ins_black_LL [OF i pred True] fin Cons c1 f2 LeftOf t
              by (auto simp: p_def)
          next
            case (RightOf pl p')
            have i: "ins_inv s (RightOf pl p # LeftOf g u # c2) (Node xl x xr)"
              using inv Cons c1 f2 RightOf t by (simp add: p_def)
            show ?thesis
              using ins_black_LR [OF i pred True] fin Cons c1 f2 RightOf t
              by (auto simp: p_def)
          qed
        next
          case False
          then obtain ul y ur where u: "u = Node ul y ur" and yr: "color (?h y) = MEM_RED"
            using root_color_red by blast
          show ?thesis
          proof (cases f1)
            case (LeftOf p' pr)
            have i: "ins_inv s (LeftOf p pr # LeftOf g (Node ul y ur) # c2) (Node xl x xr)"
              using inv Cons c1 f2 LeftOf t u by (simp add: p_def)
            show ?thesis
              using ins_red_LL [OF i pred yr] cont Cons c1 f2 LeftOf t u
              by (auto simp: p_def)
          next
            case (RightOf pl p')
            have i: "ins_inv s (RightOf pl p # LeftOf g (Node ul y ur) # c2) (Node xl x xr)"
              using inv Cons c1 f2 RightOf t u by (simp add: p_def)
            show ?thesis
              using ins_red_LR [OF i pred yr] cont Cons c1 f2 RightOf t u
              by (auto simp: p_def)
          qed
        qed
      next
        case (RightOf u g)
        note f2 = this
        show ?thesis
        proof (cases "root_color ?h u = MEM_BLACK")
          case True
          show ?thesis
          proof (cases f1)
            case (LeftOf p' pr)
            have i: "ins_inv s (LeftOf p pr # RightOf u g # c2) (Node xl x xr)"
              using inv Cons c1 f2 LeftOf t by (simp add: p_def)
            show ?thesis
              using ins_black_RL [OF i pred True] fin Cons c1 f2 LeftOf t
              by (auto simp: p_def)
          next
            case (RightOf pl p')
            have i: "ins_inv s (RightOf pl p # RightOf u g # c2) (Node xl x xr)"
              using inv Cons c1 f2 RightOf t by (simp add: p_def)
            show ?thesis
              using ins_black_RR [OF i pred True] fin Cons c1 f2 RightOf t
              by (auto simp: p_def)
          qed
        next
          case False
          then obtain ul y ur where u: "u = Node ul y ur" and yr: "color (?h y) = MEM_RED"
            using root_color_red by blast
          show ?thesis
          proof (cases f1)
            case (LeftOf p' pr)
            have i: "ins_inv s (LeftOf p pr # RightOf (Node ul y ur) g # c2) (Node xl x xr)"
              using inv Cons c1 f2 LeftOf t u by (simp add: p_def)
            show ?thesis
              using ins_red_RL [OF i pred yr] cont Cons c1 f2 LeftOf t u
              by (auto simp: p_def)
          next
            case (RightOf pl p')
            have i: "ins_inv s (RightOf pl p # RightOf (Node ul y ur) g # c2) (Node xl x xr)"
              using inv Cons c1 f2 RightOf t u by (simp add: p_def)
            show ?thesis
              using ins_red_RR [OF i pred yr] cont Cons c1 f2 RightOf t u
              by (auto simp: p_def)
          qed
        qed
      qed
    qed
  qed
qed

lemma descend:
  "wfc (mem s) rt c0 p \<Longrightarrow> wf (mem s) (hole_parent c0) p t \<Longrightarrow> path_ok (mem s) st c0 \<Longrightarrow>
   \<exists>c. mem_insert_descend s st p (hole_parent c0) = Some (hole_parent c)
       \<and> plug c Leaf = plug c0 t \<and> path_ok (mem s) st c \<and> wfc (mem s) rt c MEM_NIL"
proof (induction t arbitrary: c0 p)
  case Leaf
  then have "p = MEM_NIL" by simp
  then have "mem_insert_descend s st p (hole_parent c0) = Some (hole_parent c0)"
    by (subst mem_insert_descend.simps) simp
  then show ?case using Leaf \<open>p = MEM_NIL\<close> by (intro exI [of _ c0]) simp
next
  case (Node l a r)
  let ?h = "mem s"
  have pa: "p = a" "a \<noteq> MEM_NIL" "a \<noteq> NULL" "parent (?h a) = hole_parent c0"
    and wl: "wf ?h a (left (?h a)) l" and wr: "wf ?h a (right (?h a)) r"
    using Node.prems by simp_all
  show ?case
  proof (cases "st < start (?h a)")
    case True
    have e: "mem_insert_descend s st p (hole_parent c0)
               = mem_insert_descend s st (left (?h a)) (hole_parent (LeftOf a r # c0))"
      using pa True by (subst mem_insert_descend.simps) simp
    have "wfc ?h rt (LeftOf a r # c0) (left (?h a))"
      using pa wr Node.prems by simp
    moreover have "wf ?h (hole_parent (LeftOf a r # c0)) (left (?h a)) l" using wl by simp
    moreover have "path_ok ?h st (LeftOf a r # c0)" using True Node.prems by simp
    ultimately obtain c where
      "mem_insert_descend s st (left (?h a)) (hole_parent (LeftOf a r # c0))
         = Some (hole_parent c)"
      "plug c Leaf = plug (LeftOf a r # c0) l" "path_ok ?h st c" "wfc ?h rt c MEM_NIL"
      using Node.IH(1) by blast
    then show ?thesis using e by (intro exI [of _ c]) simp
  next
    case False
    have e: "mem_insert_descend s st p (hole_parent c0)
               = mem_insert_descend s st (right (?h a)) (hole_parent (RightOf l a # c0))"
      using pa False by (subst mem_insert_descend.simps) simp
    have "wfc ?h rt (RightOf l a # c0) (right (?h a))"
      using pa wl Node.prems by simp
    moreover have "wf ?h (hole_parent (RightOf l a # c0)) (right (?h a)) r" using wr by simp
    moreover have "path_ok ?h st (RightOf l a # c0)" using False Node.prems by simp
    ultimately obtain c where
      "mem_insert_descend s st (right (?h a)) (hole_parent (RightOf l a # c0))
         = Some (hole_parent c)"
      "plug c Leaf = plug (RightOf l a # c0) r" "path_ok ?h st c" "wfc ?h rt c MEM_NIL"
      using Node.IH(2) by blast
    then show ?thesis using e by (intro exI [of _ c]) simp
  qed
qed

lemma wfc_link:
  assumes w: "wfc h rt c p"
    and fr: "\<forall>a \<in> set (before c @ after c). a \<noteq> hole_parent c \<longrightarrow>
               left (h' a) = left (h a) \<and> right (h' a) = right (h a)
               \<and> parent (h' a) = parent (h a)"
    and hp: "\<And>a r c'. c = LeftOf a r # c' \<Longrightarrow>
               parent (h' a) = parent (h a) \<and> left (h' a) = p' \<and> right (h' a) = right (h a)"
    and hp': "\<And>l a c'. c = RightOf l a # c' \<Longrightarrow>
               parent (h' a) = parent (h a) \<and> right (h' a) = p' \<and> left (h' a) = left (h a)"
    and rt: "rt' = (if c = [] then p' else rt)"
    and d: "distinct (before c @ after c)"
  shows "wfc h' rt' c p'"
proof (cases c)
  case Nil
  then show ?thesis using rt by simp
next
  case (Cons f c')
  show ?thesis
  proof (cases f)
    case (LeftOf a r)
    have "wf h' a (right (h a)) r = wf h a (right (h a)) r"
      using fr d Cons LeftOf by (intro wf_frame_fields) auto
    moreover have "wfc h' rt c' a = wfc h rt c' a"
      using fr d Cons LeftOf by (intro wfc_frame) auto
    ultimately show ?thesis using w hp [of a r c'] rt Cons LeftOf by simp
  next
    case (RightOf l a)
    have "wf h' a (left (h a)) l = wf h a (left (h a)) l"
      using fr d Cons RightOf by (intro wf_frame_fields) auto
    moreover have "wfc h' rt c' a = wfc h rt c' a"
      using fr d Cons RightOf by (intro wfc_frame) auto
    ultimately show ?thesis using w hp' [of l a c'] rt Cons RightOf by simp
  qed
qed

lemma link_node_reads:
  assumes "par \<noteq> next_node s"
  shows "mem (link_node st en ty par s) (next_node s) =
           \<lparr> left = MEM_NIL, right = MEM_NIL, parent = par, start = st, end' = en,
             color = MEM_RED, type = ty \<rparr>"
    and "n \<noteq> next_node s \<Longrightarrow> n \<noteq> par \<Longrightarrow> mem (link_node st en ty par s) n = mem s n"
    and "n \<noteq> next_node s \<Longrightarrow> parent (mem (link_node st en ty par s) n) = parent (mem s n)"
    and "n \<noteq> next_node s \<Longrightarrow> color (mem (link_node st en ty par s) n) = color (mem s n)"
    and "n \<noteq> next_node s \<Longrightarrow> start (mem (link_node st en ty par s) n) = start (mem s n)"
    and "n \<noteq> next_node s \<Longrightarrow> end' (mem (link_node st en ty par s) n) = end' (mem s n)"
    and "n \<noteq> next_node s \<Longrightarrow> type (mem (link_node st en ty par s) n) = type (mem s n)"
    and "par \<noteq> NULL \<Longrightarrow> st < start (mem s par) \<Longrightarrow>
           left (mem (link_node st en ty par s) par) = next_node s
           \<and> right (mem (link_node st en ty par s) par) = right (mem s par)"
    and "par \<noteq> NULL \<Longrightarrow> \<not> st < start (mem s par) \<Longrightarrow>
           right (mem (link_node st en ty par s) par) = next_node s
           \<and> left (mem (link_node st en ty par s) par) = left (mem s par)"
    and "mem_root (link_node st en ty par s) = (if par = NULL then next_node s else mem_root s)"
    and "next_node (link_node st en ty par s) = next_node s + 1"
    and "min_heap_address (link_node st en ty par s) = min_heap_address s"
    and "max_heap_address (link_node st en ty par s) = max_heap_address s"
  using assms
  by (simp_all add: link_node_def Let_def set_left_def set_right_def)

lemma link_node_inv:
  assumes rb: "red_black s (plug c Leaf)"
      and wc: "wfc (mem s) (mem_root s) c MEM_NIL"
      and po: "path_ok (mem s) st c"
  shows "ins_inv (link_node st en ty (hole_parent c) s) c (Node Leaf (next_node s) Leaf)"
proof -
  let ?h = "mem s" and ?x = "next_node s" and ?par = "hole_parent c"
  let ?s4 = "link_node st en ty ?par s"
  have t: "tree_of s (plug c Leaf)" and rbk: "color (?h (mem_root s)) = MEM_BLACK"
    and nrr: "no_red_red ?h (plug c Leaf)" and bal: "balanced ?h (plug c Leaf)"
    using rb by (simp_all add: red_black_def)
  have d: "distinct (before c @ after c)"
    and bnd: "\<forall>a \<in> set (before c @ after c). 2 \<le> a \<and> a < ?x" and x2: "2 \<le> ?x"
    and nil: "color (?h MEM_NIL) = MEM_BLACK"
    using t by (auto simp: tree_of_def inorder_plug list_all_iff)
  have xn: "?x \<noteq> MEM_NIL" "?x \<noteq> NULL" using x2 by (auto simp: MEM_NIL_def NULL_def)
  have xc: "?x \<notin> set (before c @ after c)" using bnd by auto
  have px: "?par \<noteq> ?x" using hole_parent_cases [of c] xc xn by auto
  note r = link_node_reads [OF px]
  have other: "\<And>n. n \<in> set (before c @ after c) \<Longrightarrow> n \<noteq> ?par \<Longrightarrow> mem ?s4 n = ?h n"
    using xc r(2) by metis
  have colr: "\<And>n. n \<in> set (before c @ after c) \<Longrightarrow> color (mem ?s4 n) = color (?h n)"
    using xc r(4) by metis
  have wc4: "wfc (mem ?s4) (mem_root ?s4) c ?x"
  proof (rule wfc_link [OF wc])
    show "\<forall>a\<in>set (before c @ after c). a \<noteq> ?par \<longrightarrow>
            left (mem ?s4 a) = left (?h a) \<and> right (mem ?s4 a) = right (?h a)
            \<and> parent (mem ?s4 a) = parent (?h a)"
      using other by simp
    show "\<And>a r c'. c = LeftOf a r # c' \<Longrightarrow>
            parent (mem ?s4 a) = parent (?h a) \<and> left (mem ?s4 a) = ?x
            \<and> right (mem ?s4 a) = right (?h a)"
    proof -
      fix a r c' assume c: "c = LeftOf a r # c'"
      then have "?par = a" "a \<noteq> NULL" "st < start (?h a)" "a \<noteq> ?x"
        using wc po px by auto
      then show "parent (mem ?s4 a) = parent (?h a) \<and> left (mem ?s4 a) = ?x
            \<and> right (mem ?s4 a) = right (?h a)"
        using r(3) [of a] r(8) by simp
    qed
    show "\<And>l a c'. c = RightOf l a # c' \<Longrightarrow>
            parent (mem ?s4 a) = parent (?h a) \<and> right (mem ?s4 a) = ?x
            \<and> left (mem ?s4 a) = left (?h a)"
    proof -
      fix l a c' assume c: "c = RightOf l a # c'"
      then have "?par = a" "a \<noteq> NULL" "\<not> st < start (?h a)" "a \<noteq> ?x"
        using wc po px by auto
      then show "parent (mem ?s4 a) = parent (?h a) \<and> right (mem ?s4 a) = ?x
            \<and> left (mem ?s4 a) = left (?h a)"
        using r(3) [of a] r(9) by simp
    qed
    show "mem_root ?s4 = (if c = [] then ?x else mem_root s)"
      using hole_parent_cases [of c] wfc_nodes [OF wc] by (auto simp: r(10))
    show "distinct (before c @ after c)" by (rule d)
  qed
  have wx4: "wf (mem ?s4) ?par ?x (Node Leaf ?x Leaf)"
    using xn by (simp add: r(1))
  have bnd': "\<forall>a \<in> set (before c @ after c). 2 \<le> a \<and> a < Suc ?x"
    using bnd by fastforce
  have t4: "tree_of ?s4 (plug c (Node Leaf ?x Leaf))"
    unfolding tree_of_def
    using wc4 wx4 d xc bnd' x2 nil xn
    by (simp add: wf_plug inorder_plug r(11) r(4) list_all_iff)
  have fr: "\<forall>a\<in>set (before c @ after c). color (mem ?s4 a) = color (?h a)"
    using colr by simp
  note cf = ctx_color_frame [OF fr]
  have bal4: "balanced (mem ?s4) (plug c (Node Leaf ?x Leaf))"
    using bal by (simp add: balanced_plug cf r(1))
  have cn4: "cnrr (mem ?s4) c MEM_BLACK"
    using nrr by (simp add: no_red_red_plug cf)
  have rt4: "c \<noteq> [] \<longrightarrow> color (mem ?s4 (mem_root ?s4)) = MEM_BLACK"
  proof
    assume ne: "c \<noteq> []"
    then have "mem_root s \<in> set (before c @ after c)" using wc by (rule wfc_root_in [rotated])
    moreover have "?par \<noteq> NULL" using ne hole_parent_cases [of c] wfc_nodes [OF wc] by auto
    ultimately show "color (mem ?s4 (mem_root ?s4)) = MEM_BLACK"
      using rbk colr by (simp add: r(10))
  qed
  show ?thesis
    unfolding ins_inv_def using t4 bal4 cn4 rt4 by (simp add: r(1))
qed

lemma blacken_root:
  assumes t: "tree_of s T" and n: "no_red_red (mem s) T" and b: "balanced (mem s) T"
  shows "red_black (set_color (mem_root s) MEM_BLACK s) T"
proof (cases T)
  case Leaf
  then show ?thesis using t by (simp add: red_black_def tree_of_def)
next
  case (Node l a r)
  let ?s' = "set_color a MEM_BLACK s"
  have a: "mem_root s = a" "a \<noteq> MEM_NIL" and d: "a \<notin> set (inorder l)" "a \<notin> set (inorder r)"
    using t Node by (auto simp: tree_of_def)
  have fr: "\<forall>n\<in>set (inorder l). color (mem ?s' n) = color (mem s n)"
    "\<forall>n\<in>set (inorder r). color (mem ?s' n) = color (mem s n)"
    using a d by auto
  note cf = color_frame [OF fr(1)] color_frame [OF fr(2)]
  have "tree_of ?s' T" using t by (intro tree_of_set_color) auto
  moreover have "no_red_red (mem ?s') T" using n Node a by (simp add: cf)
  moreover have "balanced (mem ?s') T" using b Node a by (simp add: cf)
  ultimately show ?thesis using a by (simp add: red_black_def)
qed

lemma mem_insert_eq:
  "mem_insert st en ty s =
     (let s1 = (if min_heap_address s = NULL \<or> st < min_heap_address s
                then s\<lparr>min_heap_address := st\<rparr> else s);
          s2 = (if max_heap_address s1 = NULL \<or> en > max_heap_address s1
                then s1\<lparr>max_heap_address := en\<rparr> else s1)
      in case mem_insert_descend s2 st (mem_root s2) NULL of
           None \<Rightarrow> None
         | Some par \<Rightarrow>
             map_option (\<lambda>s5. (next_node s2, s5))
               (mem_insert_fixup (next_node s2) (link_node st en ty par s2)))"
  by (simp only: mem_insert_def link_node_def Let_def)

lemma insert_bounds_reads [simp]:
  "mem (insert_bounds st en s) = mem s"
  "mem_root (insert_bounds st en s) = mem_root s"
  "next_node (insert_bounds st en s) = next_node s"
  "min_heap_address (insert_bounds st en s) =
     (if min_heap_address s = NULL \<or> st < min_heap_address s then st else min_heap_address s)"
  "max_heap_address (insert_bounds st en s) =
     (if max_heap_address s = NULL \<or> en > max_heap_address s then en else max_heap_address s)"
  by (simp_all add: insert_bounds_def Let_def)

lemma red_black_cong:
  "mem s' = mem s \<Longrightarrow> mem_root s' = mem_root s \<Longrightarrow> next_node s' = next_node s \<Longrightarrow>
   red_black s' T = red_black s T"
  by (simp add: red_black_def tree_of_def)

lemma insert_bounds_eq:
  "(let s1 = (if min_heap_address s = NULL \<or> st < min_heap_address s
                then s\<lparr>min_heap_address := st\<rparr> else s);
        s2 = (if max_heap_address s1 = NULL \<or> en > max_heap_address s1
                then s1\<lparr>max_heap_address := en\<rparr> else s1)
    in f s2) = f (insert_bounds st en s)"
  by (simp only: insert_bounds_def Let_def)

lemma mem_insert_eq':
  "mem_insert st en ty s =
     (case mem_insert_descend (insert_bounds st en s) st (mem_root s) NULL of
        None \<Rightarrow> None
      | Some par \<Rightarrow>
          map_option (\<lambda>s5. (next_node s, s5))
            (mem_insert_fixup (next_node s) (link_node st en ty par (insert_bounds st en s))))"
  unfolding mem_insert_eq insert_bounds_eq
  by (simp cong: option.case_cong)

lemma mem_insert_correct:
  assumes rb: "red_black s T"
  shows "\<exists>s' T' c. mem_insert st en ty s = Some (next_node s, s')
           \<and> red_black s' T' \<and> T = plug c Leaf
           \<and> inorder T' = before c @ next_node s # after c
           \<and> path_ok (mem s) st c
           \<and> next_node s' = next_node s + 1
           \<and> (\<forall>n. n \<noteq> next_node s \<longrightarrow> start (mem s' n) = start (mem s n)
                  \<and> end' (mem s' n) = end' (mem s n) \<and> type (mem s' n) = type (mem s n))
           \<and> start (mem s' (next_node s)) = st \<and> end' (mem s' (next_node s)) = en
           \<and> type (mem s' (next_node s)) = ty
           \<and> min_heap_address s' = min_heap_address (insert_bounds st en s)
           \<and> max_heap_address s' = max_heap_address (insert_bounds st en s)"
proof -
  let ?s2 = "insert_bounds st en s" and ?x = "next_node s"
  have rb2: "red_black ?s2 T" using rb red_black_cong [of ?s2 s T] by simp
  have w: "wf (mem ?s2) NULL (mem_root s) T" using rb by (simp add: red_black_def tree_of_def)
  have "wfc (mem ?s2) (mem_root s) [] (mem_root s)" by simp
  moreover have "wf (mem ?s2) (hole_parent []) (mem_root s) T" using w by simp
  moreover have "path_ok (mem ?s2) st []" by simp
  ultimately obtain c where
    de: "mem_insert_descend ?s2 st (mem_root s) (hole_parent []) = Some (hole_parent c)"
    and pl: "plug c Leaf = plug [] T" and po: "path_ok (mem ?s2) st c"
    and wc: "wfc (mem ?s2) (mem_root s) c MEM_NIL"
    using descend [of ?s2 "mem_root s" "[]" "mem_root s" T st] by blast
  have T: "T = plug c Leaf" using pl by simp
  let ?s4 = "link_node st en ty (hole_parent c) ?s2"
  have inv: "ins_inv ?s4 c (Node Leaf ?x Leaf)"
    using link_node_inv [of ?s2 c st en ty] rb2 wc po T by simp
  obtain s5 where l: "mem_insert_fixup_loop ?x ?s4 = Some s5"
    and fp: "fix_post ?s4 s5 (plug c (Node Leaf ?x Leaf))"
    using insert_fixup_loop [OF inv] by auto
  obtain T' where t5: "tree_of s5 T'" and n5: "no_red_red (mem s5) T'"
    and b5: "balanced (mem s5) T'" and i5: "inorder T' = inorder (plug c (Node Leaf ?x Leaf))"
    and sd: "same_data ?s4 s5"
    using fp by (auto simp: fix_post_def)
  let ?s6 = "set_color (mem_root s5) MEM_BLACK s5"
  have r6: "red_black ?s6 T'" using t5 n5 b5 by (rule blacken_root)
  have e: "mem_insert st en ty s = Some (?x, ?s6)"
    using de l by (simp add: mem_insert_eq' mem_insert_fixup_def)
  have d: "distinct (before c @ after c)"
    and bnd: "\<forall>a \<in> set (before c @ after c). 2 \<le> a \<and> a < ?x" and x2: "2 \<le> ?x"
    using rb T by (auto simp: red_black_def tree_of_def inorder_plug list_all_iff)
  have px: "hole_parent c \<noteq> next_node ?s2"
    using hole_parent_cases [of c] bnd x2 by (auto simp: NULL_def)
  note r = link_node_reads [OF px]
  have data: "\<And>n. start (mem ?s6 n) = start (mem ?s4 n) \<and> end' (mem ?s6 n) = end' (mem ?s4 n)
                  \<and> type (mem ?s6 n) = type (mem ?s4 n)"
    and misc: "next_node ?s6 = next_node ?s4" "min_heap_address ?s6 = min_heap_address ?s4"
      "max_heap_address ?s6 = max_heap_address ?s4"
    using sd by (simp_all add: same_data_def)
  have old: "\<forall>n. n \<noteq> ?x \<longrightarrow> start (mem ?s6 n) = start (mem s n)
                  \<and> end' (mem ?s6 n) = end' (mem s n) \<and> type (mem ?s6 n) = type (mem s n)"
    using data r(5,6,7) by simp
  have new: "start (mem ?s6 ?x) = st \<and> end' (mem ?s6 ?x) = en \<and> type (mem ?s6 ?x) = ty"
    using data r(1) [of st en ty] by simp
  show ?thesis
    apply (rule exI [of _ ?s6], rule exI [of _ T'], rule exI [of _ c])
    using e r6 T i5 po old new misc r(11,12,13)
    by (simp add: inorder_plug)
qed


subsection \<open>The heap index: search, deletion and sequences of operations\<close>

lemma ranges_alt: "ranges h t = map (node_range h) (inorder t)"
  by (simp add: ranges_def node_range_def)

lemma ordered_append:
  "ordered (xs @ ys) =
     (ordered xs \<and> ordered ys \<and> (\<forall>x\<in>set xs. \<forall>y\<in>set ys. before_range x y))"
  by (auto simp: ordered_def sorted_wrt_append)

lemma ordered_Cons:
  "ordered (x # ys) = (fst x < snd x \<and> ordered ys \<and> (\<forall>y\<in>set ys. before_range x y))"
  by (auto simp: ordered_def)

lemma ordered_Node:
  "ordered (ranges h (Node l n r)) =
     (ordered (ranges h l) \<and> ordered (ranges h r) \<and> start (h n) < end' (h n)
      \<and> (\<forall>m\<in>set (inorder l). end' (h m) \<le> start (h n))
      \<and> (\<forall>m\<in>set (inorder r). end' (h n) \<le> start (h m))
      \<and> (\<forall>m\<in>set (inorder l). \<forall>k\<in>set (inorder r). end' (h m) \<le> start (h k)))"
  by (auto simp: ranges_alt ordered_append ordered_Cons before_range_def node_range_def)

lemma ordered_nonempty:
  "ordered (ranges h t) \<Longrightarrow> m \<in> set (inorder t) \<Longrightarrow> start (h m) < end' (h m)"
  by (auto simp: ranges_def ordered_def list_all_iff)

lemma find_loop:
  assumes "wf (mem s) par p t"
      and "start (mem s MEM_NIL) \<le> a" "a < end' (mem s MEM_NIL)"
  shows "\<exists>q. mem_find_loop s a p = Some q
           \<and> (q = MEM_NIL \<or> q \<in> set (inorder t) \<and> in_range a (node_range (mem s) q))
           \<and> (ordered (ranges (mem s) t) \<longrightarrow>
                (\<forall>n\<in>set (inorder t). in_range a (node_range (mem s) n) \<longrightarrow> q = n))"
  using assms(1)
proof (induction t arbitrary: par p)
  case Leaf
  then have "p = MEM_NIL" by simp
  then have "mem_find_loop s a p = Some MEM_NIL"
    using assms(2,3) by (subst mem_find_loop.simps) simp
  then show ?case by simp
next
  case (Node l n r)
  let ?h = "mem s"
  have p: "p = n" and wl: "wf ?h n (left (?h n)) l" and wr: "wf ?h n (right (?h n)) r"
    using Node.prems by simp_all
  show ?case
  proof (cases "a < start (?h n)")
    case True
    obtain q where q: "mem_find_loop s a (left (?h n)) = Some q"
      "q = MEM_NIL \<or> q \<in> set (inorder l) \<and> in_range a (node_range ?h q)"
      "ordered (ranges ?h l) \<longrightarrow>
         (\<forall>m\<in>set (inorder l). in_range a (node_range ?h m) \<longrightarrow> q = m)"
      using Node.IH(1) [OF wl] by blast
    have e: "mem_find_loop s a p = Some q"
      using True p q(1) by (subst mem_find_loop.simps) simp
    have "ordered (ranges ?h (Node l n r)) \<longrightarrow>
            (\<forall>m\<in>set (inorder (Node l n r)). in_range a (node_range ?h m) \<longrightarrow> q = m)"
    proof (intro impI ballI)
      fix m
      assume o: "ordered (ranges ?h (Node l n r))" and m: "m \<in> set (inorder (Node l n r))"
        and i: "in_range a (node_range ?h m)"
      have ol: "ordered (ranges ?h l)" using o by (simp add: ordered_Node)
      have "m \<in> set (inorder l)"
      proof (rule ccontr)
        assume "m \<notin> set (inorder l)"
        then have "m = n \<or> m \<in> set (inorder r)" using m by auto
        then have "start (?h n) \<le> start (?h m)"
          using o by (auto simp: ordered_Node)
        then show False using i True by (simp add: in_range_def node_range_def)
      qed
      then show "q = m" using q(3) ol i by blast
    qed
    then show ?thesis using e q(2) by auto
  next
    case False
    note nl = this
    show ?thesis
    proof (cases "a \<ge> end' (?h n)")
      case True
      obtain q where q: "mem_find_loop s a (right (?h n)) = Some q"
        "q = MEM_NIL \<or> q \<in> set (inorder r) \<and> in_range a (node_range ?h q)"
        "ordered (ranges ?h r) \<longrightarrow>
           (\<forall>m\<in>set (inorder r). in_range a (node_range ?h m) \<longrightarrow> q = m)"
        using Node.IH(2) [OF wr] by blast
      have e: "mem_find_loop s a p = Some q"
        using True nl p q(1) by (subst mem_find_loop.simps) simp
      have "ordered (ranges ?h (Node l n r)) \<longrightarrow>
              (\<forall>m\<in>set (inorder (Node l n r)). in_range a (node_range ?h m) \<longrightarrow> q = m)"
      proof (intro impI ballI)
        fix m
        assume o: "ordered (ranges ?h (Node l n r))" and m: "m \<in> set (inorder (Node l n r))"
          and i: "in_range a (node_range ?h m)"
        have or: "ordered (ranges ?h r)" using o by (simp add: ordered_Node)
        have "m \<in> set (inorder r)"
        proof (rule ccontr)
          assume "m \<notin> set (inorder r)"
          then have "m = n \<or> m \<in> set (inorder l)" using m by auto
          then have "end' (?h m) \<le> end' (?h n)"
            using o by (auto simp: ordered_Node)
          then show False using i True by (simp add: in_range_def node_range_def)
        qed
        then show "q = m" using q(3) or i by blast
      qed
      then show ?thesis using e q(2) by auto
    next
      case False
      have e: "mem_find_loop s a p = Some n"
        using False nl p by (subst mem_find_loop.simps) simp
      have inn: "in_range a (node_range ?h n)"
        using False nl by (simp add: in_range_def node_range_def)
      have "ordered (ranges ?h (Node l n r)) \<longrightarrow>
              (\<forall>m\<in>set (inorder (Node l n r)). in_range a (node_range ?h m) \<longrightarrow> n = m)"
      proof (intro impI ballI)
        fix m
        assume o: "ordered (ranges ?h (Node l n r))" and m: "m \<in> set (inorder (Node l n r))"
          and i: "in_range a (node_range ?h m)"
        show "n = m"
        proof (rule ccontr)
          assume "n \<noteq> m"
          then have "m \<in> set (inorder l) \<or> m \<in> set (inorder r)" using m by auto
          then have "end' (?h m) \<le> start (?h n) \<or> end' (?h n) \<le> start (?h m)"
            using o by (auto simp: ordered_Node)
          then show False using i inn by (auto simp: in_range_def node_range_def)
        qed
      qed
      then show ?thesis using e inn by auto
    qed
  qed
qed

lemma bh_pos_Node: "0 < bh h t \<Longrightarrow> \<exists>l a r. t = Node l a r"
  by (cases t) auto

lemma nrr_below_frame:
  "\<forall>a \<in> set (inorder t). color (h' a) = color (h a) \<Longrightarrow> nrr_below h' t = nrr_below h t"
proof (cases t)
  case Leaf then show ?thesis by simp
next
  case (Node l a r)
  assume a: "\<forall>a \<in> set (inorder t). color (h' a) = color (h a)"
  have "no_red_red h' l = no_red_red h l" "no_red_red h' r = no_red_red h r"
    using a Node by (auto intro!: no_red_red_frame)
  then show ?thesis using Node by simp
qed

lemma no_red_red_below: "no_red_red h t \<Longrightarrow> nrr_below h t"
  by (cases t) auto

lemma black_nrr: "nrr_below h t \<Longrightarrow> color (h (rootp t)) = MEM_BLACK \<Longrightarrow> no_red_red h t"
  by (cases t) auto

lemma wfc_root_last:
  "wfc h rt c p \<Longrightarrow> c \<noteq> [] \<Longrightarrow> rt = hole_parent [last c]"
proof (induction c arbitrary: p)
  case Nil then show ?case by simp
next
  case (Cons f c)
  show ?case
  proof (cases "c = []")
    case True
    then show ?thesis using Cons.prems by (cases f) auto
  next
    case False
    obtain q where "wfc h rt c q" using Cons.prems by (cases f) auto
    then have "rt = hole_parent [last c]" using False by (rule Cons.IH)
    then show ?thesis using False by simp
  qed
qed

lemma tree_of_root_last:
  "tree_of s (plug c t) \<Longrightarrow> c \<noteq> [] \<Longrightarrow> mem_root s = hole_parent [last c]"
  by (auto simp: tree_of_def wf_plug dest: wfc_root_last)

lemma tree_of_root_in:
  "tree_of s (plug c t) \<Longrightarrow> c \<noteq> [] \<Longrightarrow> mem_root s \<in> set (before c @ after c)"
proof -
  assume a: "tree_of s (plug c t)" and ne: "c \<noteq> []"
  have "wfc (mem s) (mem_root s) c (rootp t)" using a by (simp add: tree_of_def wf_plug)
  then show ?thesis using ne by (rule wfc_root_in)
qed

lemma tree_of_root_Nil: "tree_of s t \<Longrightarrow> mem_root s = rootp t"
  by (auto simp: tree_of_def dest: wf_rootp)

lemma nil_parent_rotate_left:
  "tree_of s (plug c (Node a x (Node b y d))) \<Longrightarrow>
   parent (mem (mem_rotate_left x s) MEM_NIL) = parent (mem s MEM_NIL)"
  unfolding tree_of_def using rotate_left_tree(9) [of s c a x b y d] by simp

lemma nil_parent_rotate_right:
  "tree_of s (plug c (Node (Node d y b) x a)) \<Longrightarrow>
   parent (mem (mem_rotate_right x s) MEM_NIL) = parent (mem s MEM_NIL)"
  unfolding tree_of_def using rotate_right_tree(9) [of s c d y b x a] by simp

lemma cnrr_black: "cnrr h c k \<Longrightarrow> cnrr h c MEM_BLACK"
  by (cases c rule: hole_parent.cases) auto

lemma cnrr_parent_black:
  "cnrr h c MEM_BLACK \<Longrightarrow> c \<noteq> [] \<Longrightarrow> color (h (hole_parent c)) = MEM_BLACK \<Longrightarrow> cnrr h c k"
  by (cases c rule: hole_parent.cases) auto

text \<open>Leaving the loop of \<open>mem_delete_fixup\<close>: \<open>x\<close> is the root, or red.\<close>

lemma del_exit:
  assumes inv: "del_inv s c t"
      and ex: "c = [] \<or> color (mem s (rootp t)) = MEM_RED"
  shows "red_black (set_color (rootp t) MEM_BLACK s) (plug c t)"
proof -
  let ?h = "mem s" and ?s' = "set_color (rootp t) MEM_BLACK s"
  have tr: "tree_of s (plug c t)" and bal: "balanced ?h t"
    and cb: "cbal ?h c (bh ?h t + 1)" and nb: "nrr_below ?h t" and cn: "cnrr ?h c MEM_BLACK"
    and rb: "c \<noteq> [] \<longrightarrow> color (?h (mem_root s)) = MEM_BLACK"
    using inv by (simp_all add: del_inv_def)
  have nil: "color (?h MEM_NIL) = MEM_BLACK" using tr by (simp add: tree_of_def)
  have d: "distinct (before c @ inorder t @ after c)"
    using tr by (simp add: tree_of_def inorder_plug)
  have wc: "wfc ?h (mem_root s) c (rootp t)" using tr by (simp add: tree_of_def wf_plug)
  have t': "tree_of ?s' (plug c t)" by (rule tree_of_set_color [OF tr]) simp
  show ?thesis
  proof (cases t)
    case Leaf
    have same: "\<And>n. color (mem ?s' n) = color (?h n)" using Leaf nil by simp
    have c: "c = []" using ex Leaf nil by auto
    have "mem_root s = MEM_NIL" using wc c Leaf by simp
    then show ?thesis
      using t' c Leaf nil by (simp add: red_black_def)
  next
    case (Node l x r)
    let ?s' = "set_color x MEM_BLACK s"
    have t': "tree_of ?s' (plug c t)" by (rule tree_of_set_color [OF tr]) simp
    have xc: "x \<notin> set (before c @ after c)" "x \<notin> set (inorder l)" "x \<notin> set (inorder r)"
      using d Node by auto
    have fr: "\<forall>a\<in>set (inorder l). color (mem ?s' a) = color (?h a)"
      "\<forall>a\<in>set (inorder r). color (mem ?s' a) = color (?h a)"
      "\<forall>a\<in>set (before c @ after c). color (mem ?s' a) = color (?h a)"
      using xc Node by auto
    note cf = color_frame [OF fr(1)] color_frame [OF fr(2)] ctx_color_frame [OF fr(3)]
    have b': "balanced (mem ?s') (plug c t)"
    proof (cases "c = []")
      case True
      then show ?thesis using bal Node by (simp add: cf)
    next
      case False
      then have "color (?h x) = MEM_RED" using ex Node by simp
      then show ?thesis using bal cb Node by (simp add: balanced_plug cf)
    qed
    have n': "no_red_red (mem ?s') (plug c t)"
      using nb cn Node by (simp add: no_red_red_plug cf)
    have r': "color (mem ?s' (mem_root ?s')) = MEM_BLACK"
    proof (cases "c = []")
      case True
      then have "mem_root s = x" using wc Node by simp
      then show ?thesis by simp
    next
      case False
      then have "mem_root s \<in> set (before c @ after c)" using wc by (intro wfc_root_in)
      then show ?thesis using fr(3) rb False by simp
    qed
    have "red_black ?s' (plug c t)" using t' b' n' r' by (simp add: red_black_def)
    then show ?thesis using Node by simp
  qed
qed

text \<open>The sibling of \<open>x\<close> is red: recolour and rotate, so that the new sibling is black.\<close>

lemma del_sibling_left:
  assumes inv: "del_inv s (LeftOf p ws # c) t"
      and xb: "color (mem s (rootp t)) = MEM_BLACK"
  shows "\<exists>wl w wr c' s1. mem_delete_fixup_sibling_left (rootp t) s = (w, s1)
           \<and> del_inv s1 (LeftOf p (Node wl w wr) # c') t
           \<and> color (mem s1 w) = MEM_BLACK \<and> color (mem s1 (rootp t)) = MEM_BLACK
           \<and> same_data s s1
           \<and> inorder (plug (LeftOf p (Node wl w wr) # c') t) = inorder (plug (LeftOf p ws # c) t)
           \<and> (c' = c \<or> length c' = Suc (length c) \<and> color (mem s1 p) = MEM_RED)"
proof -
  let ?h = "mem s" and ?x = "rootp t"
  have tr: "tree_of s (plug c (Node t p ws))" and px: "parent (?h ?x) = p"
    and bal: "balanced ?h t" and cb: "cbal ?h (LeftOf p ws # c) (bh ?h t + 1)"
    and nb: "nrr_below ?h t" and cn: "cnrr ?h (LeftOf p ws # c) MEM_BLACK"
    and rb: "color (?h (mem_root s)) = MEM_BLACK"
    using inv by (simp_all add: del_inv_def)
  have "0 < bh ?h ws" using cb by simp
  then obtain wl w wr where ws: "ws = Node wl w wr" using bh_pos_Node by blast
  have nil: "color (?h MEM_NIL) = MEM_BLACK" using tr by (simp add: tree_of_def)
  have w: "wf ?h (hole_parent c) p (Node t p (Node wl w wr))"
    using tr ws by (simp add: tree_of_def wf_plug)
  have d: "distinct (before c @ (inorder t @ p # inorder wl @ w # inorder wr) @ after c)"
    using tr ws by (simp add: tree_of_def inorder_plug)
  have ptr: "right (?h p) = w" and wt: "wf ?h p (left (?h p)) t"
    and nn: "p \<noteq> MEM_NIL" "w \<noteq> MEM_NIL"
    using w by simp_all
  have xn: "?x \<noteq> p" "?x \<noteq> w" using rootp_cases [of t] d nn by auto
  have ne: "p \<noteq> w" using d by auto
  show ?thesis
  proof (cases "color (?h w) = MEM_BLACK")
    case True
    have "mem_delete_fixup_sibling_left ?x s = (w, s)"
      using px ptr True by (simp add: mem_delete_fixup_sibling_left_def Let_def)
    then show ?thesis using inv ws True xb by auto
  next
    case False
    then have wr: "color (?h w) = MEM_RED" using mem_color_cases by auto
    have pb: "color (?h p) = MEM_BLACK" using cn ws wr by auto
    define t2 where "t2 = set_color p MEM_RED (set_color w MEM_BLACK s)"
    define t3 where "t3 = mem_rotate_left p t2"
    have tr2: "tree_of t2 (plug c (Node t p (Node wl w wr)))"
      unfolding t2_def using tr ws nn by (intro tree_of_set_color) auto
    have tr3: "tree_of t3 (plug c (Node (Node t p wl) w wr))"
      unfolding t3_def using tr2 by (rule tree_of_rotate_left)
    have col: "\<And>n. color (mem t3 n) = (if n = p then MEM_RED else if n = w then MEM_BLACK
                                          else color (?h n))"
      unfolding t3_def using color_rotate_left [OF tr2] by (simp add: t2_def)
    have sd: "same_data s t3"
      unfolding t3_def using same_data_rotate_left [OF tr2] by (simp add: t2_def)
    have w3: "wf (mem t3) (hole_parent c) w (Node (Node t p wl) w wr)"
      using tr3 by (simp add: tree_of_def wf_plug)
    have px3: "parent (mem t3 ?x) = p"
    proof (cases t)
      case Leaf
      have "parent (mem t3 MEM_NIL) = parent (mem t2 MEM_NIL)"
        unfolding t3_def using tr2 by (rule nil_parent_rotate_left)
      then show ?thesis using px Leaf by (simp add: t2_def)
    next
      case (Node l a r)
      then show ?thesis using w3 by simp
    qed
    have rp3: "right (mem t3 p) = rootp wl" using w3 wf_rootp by auto
    have bw: "bh ?h wl = bh ?h t + 1" "bh ?h wr = bh ?h t + 1"
      using cb ws wr by auto
    then have "0 < bh ?h wl" by simp
    then obtain wll w' wlr where wl: "wl = Node wll w' wlr" using bh_pos_Node by blast
    have w'b: "color (?h w') = MEM_BLACK" using cn ws wr wl by auto
    have w'n: "w' \<noteq> p" "w' \<noteq> w" using d wl by auto
    have step: "mem_delete_fixup_sibling_left ?x s = (w', t3)"
      using px ptr wr xn rp3 px3 wl
      by (simp add: mem_delete_fixup_sibling_left_def Let_def t3_def t2_def)
    have fr: "\<forall>a\<in>set (inorder t). color (mem t3 a) = color (?h a)"
      "\<forall>a\<in>set (inorder wl). color (mem t3 a) = color (?h a)"
      "\<forall>a\<in>set (inorder wr). color (mem t3 a) = color (?h a)"
      "\<forall>a\<in>set (before c @ after c). color (mem t3 a) = color (?h a)"
      using d by (auto simp: col)
    note cf = color_frame [OF fr(1)] color_frame [OF fr(2)] color_frame [OF fr(3)]
      ctx_color_frame [OF fr(4)] nrr_below_frame [OF fr(1)]
    have rt3: "color (mem t3 (mem_root t3)) = MEM_BLACK"
    proof (cases "c = []")
      case True
      then have "mem_root t3 = w" using tree_of_root_Nil [of t3 "Node (Node t p wl) w wr"] tr3
        by simp
      then show ?thesis by (simp add: col ne [symmetric])
    next
      case False
      have "mem_root t3 = hole_parent [last c]" using tr3 False by (rule tree_of_root_last)
      moreover have "mem_root s = hole_parent [last c]" using tr False by (rule tree_of_root_last)
      moreover have "mem_root s \<in> set (before c @ after c)"
        using tr False by (rule tree_of_root_in)
      ultimately show ?thesis using fr(4) rb by simp
    qed
    have inv3: "del_inv t3 (LeftOf p wl # LeftOf w wr # c) t"
      unfolding del_inv_def
      using tr3 px3 bal cb nb cn rt3 ws wr pb bw ne
      by (auto simp: col cf)
    have xb3: "color (mem t3 ?x) = MEM_BLACK" using xb xn by (simp add: col)
    show ?thesis
      apply (rule exI [of _ wll], rule exI [of _ w'], rule exI [of _ wlr])
      apply (rule exI [of _ "LeftOf w wr # c"], rule exI [of _ t3])
      using step inv3 w'b w'n xb3 sd ws wl
      by (simp add: col inorder_plug)
  qed
qed

text \<open>The sibling is black with two black children: colour it red and move up.\<close>

lemma del_case2_left:
  assumes inv: "del_inv s (LeftOf p (Node wl w wr) # c) t"
      and xb: "color (mem s (rootp t)) = MEM_BLACK"
      and wb: "color (mem s w) = MEM_BLACK"
      and both: "root_color (mem s) wl = MEM_BLACK" "root_color (mem s) wr = MEM_BLACK"
  shows "mem_delete_fixup_rest_left (rootp t) w s = (p, set_color w MEM_RED s)
           \<and> del_inv (set_color w MEM_RED s) c (Node t p (Node wl w wr))"
proof -
  let ?h = "mem s" and ?x = "rootp t" and ?s2 = "set_color w MEM_RED s"
  have tr: "tree_of s (plug c (Node t p (Node wl w wr)))" and px: "parent (?h ?x) = p"
    and bal: "balanced ?h t" and cb: "cbal ?h (LeftOf p (Node wl w wr) # c) (bh ?h t + 1)"
    and nb: "nrr_below ?h t" and cn: "cnrr ?h (LeftOf p (Node wl w wr) # c) MEM_BLACK"
    and rb: "color (?h (mem_root s)) = MEM_BLACK"
    using inv by (simp_all add: del_inv_def)
  have nil: "color (?h MEM_NIL) = MEM_BLACK" using tr by (simp add: tree_of_def)
  have w: "wf ?h (hole_parent c) p (Node t p (Node wl w wr))"
    using tr by (simp add: tree_of_def wf_plug)
  have d: "distinct (before c @ (inorder t @ p # inorder wl @ w # inorder wr) @ after c)"
    using tr by (simp add: tree_of_def inorder_plug)
  have wwl: "wf ?h w (left (?h w)) wl" and wwr: "wf ?h w (right (?h w)) wr"
    and nn: "p \<noteq> MEM_NIL" "w \<noteq> MEM_NIL" and pp: "parent (?h p) = hole_parent c"
    using w by simp_all
  have lw: "left (?h w) = rootp wl" using wwl by (rule wf_rootp)
  have rw: "right (?h w) = rootp wr" using wwr by (rule wf_rootp)
  have xn: "?x \<noteq> p" "?x \<noteq> w" using rootp_cases [of t] d nn by auto
  have ne: "p \<noteq> w" using d by auto
  have cl: "color (?h (rootp wl)) = MEM_BLACK" "color (?h (rootp wr)) = MEM_BLACK"
    using both nil by (simp_all add: root_color_rootp)
  have step: "mem_delete_fixup_rest_left ?x w s = (p, ?s2)"
    using px lw rw cl xn by (simp add: mem_delete_fixup_rest_left_def)
  have tr2: "tree_of ?s2 (plug c (Node t p (Node wl w wr)))"
    using tr nn by (intro tree_of_set_color) auto
  have fr: "\<forall>a\<in>set (inorder t). color (mem ?s2 a) = color (?h a)"
    "\<forall>a\<in>set (inorder wl). color (mem ?s2 a) = color (?h a)"
    "\<forall>a\<in>set (inorder wr). color (mem ?s2 a) = color (?h a)"
    "\<forall>a\<in>set (before c @ after c). color (mem ?s2 a) = color (?h a)"
    using d by auto
  note cf = color_frame [OF fr(1)] color_frame [OF fr(2)] color_frame [OF fr(3)]
    ctx_color_frame [OF fr(4)] nrr_below_frame [OF fr(1)]
  have nt: "no_red_red ?h t" using nb xb by (rule black_nrr)
  have rt2: "c \<noteq> [] \<longrightarrow> color (mem ?s2 (mem_root ?s2)) = MEM_BLACK"
  proof
    assume "c \<noteq> []"
    then have "mem_root s \<in> set (before c @ after c)" using tr by (intro tree_of_root_in)
    then show "color (mem ?s2 (mem_root ?s2)) = MEM_BLACK" using fr(4) rb by simp
  qed
  have cnc: "cnrr ?h c MEM_BLACK" using cn cnrr_black by auto
  have "del_inv ?s2 c (Node t p (Node wl w wr))"
    unfolding del_inv_def
    using tr2 pp bal cb nt cn cnc rt2 wb both ne
    by (auto simp: cf)
  then show ?thesis using step by simp
qed

text \<open>The sibling is black and its right child is red.\<close>

lemma del_case4_left:
  assumes inv: "del_inv s (LeftOf p (Node wl w (Node a v b)) # c) t"
      and xb: "color (mem s (rootp t)) = MEM_BLACK"
      and wb: "color (mem s w) = MEM_BLACK"
      and vr: "color (mem s v) = MEM_RED"
  shows "\<exists>s6. mem_delete_fixup_rest_left (rootp t) w s = (mem_root s6, s6)
           \<and> fix_post s s6 (plug (LeftOf p (Node wl w (Node a v b)) # c) t)"
proof -
  let ?h = "mem s" and ?x = "rootp t" and ?wr = "Node a v b"
  let ?T = "plug c (Node t p (Node wl w ?wr))"
  let ?T' = "plug c (Node (Node t p wl) w ?wr)"
  have tr: "tree_of s ?T" and px: "parent (?h ?x) = p"
    and bal: "balanced ?h t" and cb: "cbal ?h (LeftOf p (Node wl w ?wr) # c) (bh ?h t + 1)"
    and nb: "nrr_below ?h t" and cn: "cnrr ?h (LeftOf p (Node wl w ?wr) # c) MEM_BLACK"
    using inv by (simp_all add: del_inv_def)
  have w: "wf ?h (hole_parent c) p (Node t p (Node wl w ?wr))"
    using tr by (simp add: tree_of_def wf_plug)
  have d: "distinct (before c @ (inorder t @ p # inorder wl @ w # inorder a @ v # inorder b)
             @ after c)"
    using tr by (simp add: tree_of_def inorder_plug)
  have wwl: "wf ?h w (left (?h w)) wl" and rw: "right (?h w) = v"
    and nn: "p \<noteq> MEM_NIL" "w \<noteq> MEM_NIL" "v \<noteq> MEM_NIL"
    using w by simp_all
  have xn: "?x \<noteq> p" "?x \<noteq> w" "?x \<noteq> v" using rootp_cases [of t] d nn by auto
  have ne: "p \<noteq> w" "p \<noteq> v" "w \<noteq> v" using d by auto
  define s5 where
    "s5 = set_color v MEM_BLACK (set_color p MEM_BLACK (set_color w (color (?h p)) s))"
  define s6 where "s6 = mem_rotate_left p s5"
  have step: "mem_delete_fixup_rest_left ?x w s = (mem_root s6, s6)"
    using px rw vr xn ne
    by (simp add: mem_delete_fixup_rest_left_def Let_def s6_def s5_def)
  have tr5: "tree_of s5 ?T"
    unfolding s5_def using tr nn by (intro tree_of_set_color) auto
  have tr6: "tree_of s6 ?T'" unfolding s6_def using tr5 by (rule tree_of_rotate_left)
  have col: "\<And>n. color (mem s6 n) = (if n = v then MEM_BLACK else if n = p then MEM_BLACK
                      else if n = w then color (?h p) else color (?h n))"
    unfolding s6_def using color_rotate_left [OF tr5] by (simp add: s5_def)
  have sd: "same_data s s6"
    unfolding s6_def using same_data_rotate_left [OF tr5] by (simp add: s5_def)
  have fr: "\<forall>n\<in>set (inorder t). color (mem s6 n) = color (?h n)"
    "\<forall>n\<in>set (inorder wl). color (mem s6 n) = color (?h n)"
    "\<forall>n\<in>set (inorder a). color (mem s6 n) = color (?h n)"
    "\<forall>n\<in>set (inorder b). color (mem s6 n) = color (?h n)"
    "\<forall>n\<in>set (before c @ after c). color (mem s6 n) = color (?h n)"
    using d by (auto simp: col)
  note cf = color_frame [OF fr(1)] color_frame [OF fr(2)] color_frame [OF fr(3)]
    color_frame [OF fr(4)] ctx_color_frame [OF fr(5)]
  have nt: "no_red_red ?h t" using nb xb by (rule black_nrr)
  have nrr: "no_red_red (mem s6) ?T'"
    using nt cn wb vr ne by (auto simp: no_red_red_plug col cf)
  have bal6: "balanced (mem s6) ?T'"
    using bal cb wb vr ne by (auto simp: balanced_plug col cf)
  have "fix_post s s6 ?T"
    unfolding fix_post_def
    using tr6 nrr bal6 sd by (intro exI [of _ ?T']) (simp add: inorder_plug)
  then show ?thesis using step by auto
qed

text \<open>The sibling is black, its right child black and its left child red.\<close>

lemma del_case3_left:
  assumes inv: "del_inv s (LeftOf p (Node (Node a v b) w wr) # c) t"
      and xb: "color (mem s (rootp t)) = MEM_BLACK"
      and wb: "color (mem s w) = MEM_BLACK"
      and vr: "color (mem s v) = MEM_RED"
      and rb: "root_color (mem s) wr = MEM_BLACK"
  shows "\<exists>s6. mem_delete_fixup_rest_left (rootp t) w s = (mem_root s6, s6)
           \<and> fix_post s s6 (plug (LeftOf p (Node (Node a v b) w wr) # c) t)"
proof -
  let ?h = "mem s" and ?x = "rootp t" and ?wl = "Node a v b"
  let ?T = "plug c (Node t p (Node ?wl w wr))"
  let ?T3 = "plug c (Node t p (Node a v (Node b w wr)))"
  let ?T' = "plug c (Node (Node t p a) v (Node b w wr))"
  have tr: "tree_of s ?T" and px: "parent (?h ?x) = p"
    and bal: "balanced ?h t" and cb: "cbal ?h (LeftOf p (Node ?wl w wr) # c) (bh ?h t + 1)"
    and nb: "nrr_below ?h t" and cn: "cnrr ?h (LeftOf p (Node ?wl w wr) # c) MEM_BLACK"
    using inv by (simp_all add: del_inv_def)
  have nil: "color (?h MEM_NIL) = MEM_BLACK" using tr by (simp add: tree_of_def)
  have w: "wf ?h (hole_parent c) p (Node t p (Node ?wl w wr))"
    using tr by (simp add: tree_of_def wf_plug)
  have d: "distinct (before c @ (inorder t @ p # inorder a @ v # inorder b @ w # inorder wr)
             @ after c)"
    using tr by (simp add: tree_of_def inorder_plug)
  have wwr: "wf ?h w (right (?h w)) wr" and lw: "left (?h w) = v"
    and nn: "p \<noteq> MEM_NIL" "w \<noteq> MEM_NIL" "v \<noteq> MEM_NIL"
    using w by simp_all
  have rw: "right (?h w) = rootp wr" using wwr by (rule wf_rootp)
  have cr: "color (?h (rootp wr)) = MEM_BLACK" using rb nil by (simp add: root_color_rootp)
  have xn: "?x \<noteq> p" "?x \<noteq> w" "?x \<noteq> v" using rootp_cases [of t] d nn by auto
  have ne: "p \<noteq> w" "p \<noteq> v" "w \<noteq> v" using d by auto
  define t2 where "t2 = set_color w MEM_RED (set_color v MEM_BLACK s)"
  define t3 where "t3 = mem_rotate_right w t2"
  have tr2: "tree_of t2 ?T"
    unfolding t2_def using tr nn by (intro tree_of_set_color) auto
  have tr3: "tree_of t3 ?T3"
    using tree_of_rotate_right [of t2 "RightOf t p # c" a v b w wr] tr2 by (simp add: t3_def)
  have c3: "\<And>n. color (mem t3 n) = (if n = w then MEM_RED else if n = v then MEM_BLACK
                                        else color (?h n))"
    using color_rotate_right [of t2 "RightOf t p # c" a v b w wr] tr2
    by (simp add: t3_def t2_def)
  have sd3: "same_data s t3"
    using same_data_rotate_right [of t2 "RightOf t p # c" a v b w wr] tr2
    by (simp add: t3_def t2_def)
  have w3: "wf (mem t3) (hole_parent c) p (Node t p (Node a v (Node b w wr)))"
    using tr3 by (simp add: tree_of_def wf_plug)
  have px3: "parent (mem t3 ?x) = p"
  proof (cases t)
    case Leaf
    have "parent (mem t3 MEM_NIL) = parent (mem t2 MEM_NIL)"
      using nil_parent_rotate_right [of t2 "RightOf t p # c" a v b w wr] tr2
      by (simp add: t3_def)
    then show ?thesis using px Leaf by (simp add: t2_def)
  next
    case (Node l k r)
    then show ?thesis using w3 by simp
  qed
  have rp3: "right (mem t3 p) = v" "right (mem t3 v) = w" using w3 by simp_all
  define s5 where
    "s5 = set_color w MEM_BLACK (set_color p MEM_BLACK (set_color v (color (?h p)) t3))"
  define s6 where "s6 = mem_rotate_left p s5"
  have step: "mem_delete_fixup_rest_left ?x w s = (mem_root s6, s6)"
    using px lw rw vr cr xn ne px3 rp3
    by (simp add: mem_delete_fixup_rest_left_def Let_def s6_def s5_def t3_def [symmetric]
        t2_def [symmetric] c3)
  have tr5: "tree_of s5 ?T3"
    unfolding s5_def using tr3 nn by (intro tree_of_set_color) auto
  have tr6: "tree_of s6 ?T'" unfolding s6_def using tr5 by (rule tree_of_rotate_left)
  have col: "\<And>n. color (mem s6 n) = (if n = w then MEM_BLACK else if n = p then MEM_BLACK
                      else if n = v then color (?h p) else color (?h n))"
    unfolding s6_def using color_rotate_left [OF tr5] by (simp add: s5_def c3)
  have "same_data s5 s6" unfolding s6_def using tr5 by (rule same_data_rotate_left)
  then have sd: "same_data s s6" using sd3 by (simp add: s5_def same_data_def)
  have fr: "\<forall>n\<in>set (inorder t). color (mem s6 n) = color (?h n)"
    "\<forall>n\<in>set (inorder wr). color (mem s6 n) = color (?h n)"
    "\<forall>n\<in>set (inorder a). color (mem s6 n) = color (?h n)"
    "\<forall>n\<in>set (inorder b). color (mem s6 n) = color (?h n)"
    "\<forall>n\<in>set (before c @ after c). color (mem s6 n) = color (?h n)"
    using d by (auto simp: col)
  note cf = color_frame [OF fr(1)] color_frame [OF fr(2)] color_frame [OF fr(3)]
    color_frame [OF fr(4)] ctx_color_frame [OF fr(5)]
  have nt: "no_red_red ?h t" using nb xb by (rule black_nrr)
  have nrr: "no_red_red (mem s6) ?T'"
    using nt cn wb vr ne by (auto simp: no_red_red_plug col cf)
  have bal6: "balanced (mem s6) ?T'"
    using bal cb wb vr ne by (auto simp: balanced_plug col cf)
  have "fix_post s s6 ?T"
    unfolding fix_post_def
    using tr6 nrr bal6 sd by (intro exI [of _ ?T']) (simp add: inorder_plug)
  then show ?thesis using step by auto
qed

text \<open>The sibling of \<open>x\<close> is red: recolour and rotate, so that the new sibling is black.\<close>

lemma del_sibling_right:
  assumes inv: "del_inv s (RightOf ws p # c) t"
      and xb: "color (mem s (rootp t)) = MEM_BLACK"
  shows "\<exists>wl w wr c' s1. mem_delete_fixup_sibling_right (rootp t) s = (w, s1)
           \<and> del_inv s1 (RightOf (Node wl w wr) p # c') t
           \<and> color (mem s1 w) = MEM_BLACK \<and> color (mem s1 (rootp t)) = MEM_BLACK
           \<and> same_data s s1
           \<and> inorder (plug (RightOf (Node wl w wr) p # c') t) = inorder (plug (RightOf ws p # c) t)
           \<and> (c' = c \<or> length c' = Suc (length c) \<and> color (mem s1 p) = MEM_RED)"
proof -
  let ?h = "mem s" and ?x = "rootp t"
  have tr: "tree_of s (plug c (Node ws p t))" and px: "parent (?h ?x) = p"
    and bal: "balanced ?h t" and cb: "cbal ?h (RightOf ws p # c) (bh ?h t + 1)"
    and nb: "nrr_below ?h t" and cn: "cnrr ?h (RightOf ws p # c) MEM_BLACK"
    and rb: "color (?h (mem_root s)) = MEM_BLACK"
    using inv by (simp_all add: del_inv_def)
  have "0 < bh ?h ws" using cb by simp
  then obtain wl w wr where ws: "ws = Node wl w wr" using bh_pos_Node by blast
  have nil: "color (?h MEM_NIL) = MEM_BLACK" using tr by (simp add: tree_of_def)
  have w: "wf ?h (hole_parent c) p (Node (Node wl w wr) p t)"
    using tr ws by (simp add: tree_of_def wf_plug)
  have d: "distinct (before c @ (inorder wl @ w # inorder wr @ p # inorder t) @ after c)"
    using tr ws by (simp add: tree_of_def inorder_plug)
  have ptr: "left (?h p) = w" and wt: "wf ?h p (right (?h p)) t"
    and nn: "p \<noteq> MEM_NIL" "w \<noteq> MEM_NIL"
    using w by simp_all
  have xn: "?x \<noteq> p" "?x \<noteq> w" using rootp_cases [of t] d nn by auto
  have ne: "p \<noteq> w" using d by auto
  show ?thesis
  proof (cases "color (?h w) = MEM_BLACK")
    case True
    have "mem_delete_fixup_sibling_right ?x s = (w, s)"
      using px ptr True by (simp add: mem_delete_fixup_sibling_right_def Let_def)
    then show ?thesis using inv ws True xb by auto
  next
    case False
    then have wr: "color (?h w) = MEM_RED" using mem_color_cases by auto
    have pb: "color (?h p) = MEM_BLACK" using cn ws wr by auto
    define t2 where "t2 = set_color p MEM_RED (set_color w MEM_BLACK s)"
    define t3 where "t3 = mem_rotate_right p t2"
    have tr2: "tree_of t2 (plug c (Node (Node wl w wr) p t))"
      unfolding t2_def using tr ws nn by (intro tree_of_set_color) auto
    have tr3: "tree_of t3 (plug c (Node wl w (Node wr p t)))"
      unfolding t3_def using tr2 by (rule tree_of_rotate_right)
    have col: "\<And>n. color (mem t3 n) = (if n = p then MEM_RED else if n = w then MEM_BLACK
                                          else color (?h n))"
      unfolding t3_def using color_rotate_right [OF tr2] by (simp add: t2_def)
    have sd: "same_data s t3"
      unfolding t3_def using same_data_rotate_right [OF tr2] by (simp add: t2_def)
    have w3: "wf (mem t3) (hole_parent c) w (Node wl w (Node wr p t))"
      using tr3 by (simp add: tree_of_def wf_plug)
    have px3: "parent (mem t3 ?x) = p"
    proof (cases t)
      case Leaf
      have "parent (mem t3 MEM_NIL) = parent (mem t2 MEM_NIL)"
        unfolding t3_def using tr2 by (rule nil_parent_rotate_right)
      then show ?thesis using px Leaf by (simp add: t2_def)
    next
      case (Node l a r)
      then show ?thesis using w3 by simp
    qed
    have rp3: "left (mem t3 p) = rootp wr" using w3 wf_rootp by auto
    have bw: "bh ?h wl = bh ?h t + 1" "bh ?h wr = bh ?h t + 1"
      using cb ws wr by auto
    then have "0 < bh ?h wr" by simp
    then obtain wrl w' wrr where wl: "wr = Node wrl w' wrr" using bh_pos_Node by blast
    have w'b: "color (?h w') = MEM_BLACK" using cn ws wr wl by auto
    have w'n: "w' \<noteq> p" "w' \<noteq> w" using d wl by auto
    have step: "mem_delete_fixup_sibling_right ?x s = (w', t3)"
      using px ptr wr xn rp3 px3 wl
      by (simp add: mem_delete_fixup_sibling_right_def Let_def t3_def t2_def)
    have fr: "\<forall>a\<in>set (inorder t). color (mem t3 a) = color (?h a)"
      "\<forall>a\<in>set (inorder wl). color (mem t3 a) = color (?h a)"
      "\<forall>a\<in>set (inorder wr). color (mem t3 a) = color (?h a)"
      "\<forall>a\<in>set (before c @ after c). color (mem t3 a) = color (?h a)"
      using d by (auto simp: col)
    note cf = color_frame [OF fr(1)] color_frame [OF fr(2)] color_frame [OF fr(3)]
      ctx_color_frame [OF fr(4)] nrr_below_frame [OF fr(1)]
    have rt3: "color (mem t3 (mem_root t3)) = MEM_BLACK"
    proof (cases "c = []")
      case True
      then have "mem_root t3 = w" using tree_of_root_Nil [of t3 "Node wl w (Node wr p t)"] tr3
        by simp
      then show ?thesis by (simp add: col ne [symmetric])
    next
      case False
      have "mem_root t3 = hole_parent [last c]" using tr3 False by (rule tree_of_root_last)
      moreover have "mem_root s = hole_parent [last c]" using tr False by (rule tree_of_root_last)
      moreover have "mem_root s \<in> set (before c @ after c)"
        using tr False by (rule tree_of_root_in)
      ultimately show ?thesis using fr(4) rb by simp
    qed
    have inv3: "del_inv t3 (RightOf wr p # RightOf wl w # c) t"
      unfolding del_inv_def
      using tr3 px3 bal cb nb cn rt3 ws wr pb bw ne
      by (auto simp: col cf)
    have xb3: "color (mem t3 ?x) = MEM_BLACK" using xb xn by (simp add: col)
    show ?thesis
      apply (rule exI [of _ wrl], rule exI [of _ w'], rule exI [of _ wrr])
      apply (rule exI [of _ "RightOf wl w # c"], rule exI [of _ t3])
      using step inv3 w'b w'n xb3 sd ws wl
      by (simp add: col inorder_plug)
  qed
qed

text \<open>The sibling is black with two black children: colour it red and move up.\<close>

lemma del_case2_right:
  assumes inv: "del_inv s (RightOf (Node wl w wr) p # c) t"
      and xb: "color (mem s (rootp t)) = MEM_BLACK"
      and wb: "color (mem s w) = MEM_BLACK"
      and both: "root_color (mem s) wl = MEM_BLACK" "root_color (mem s) wr = MEM_BLACK"
  shows "mem_delete_fixup_rest_right (rootp t) w s = (p, set_color w MEM_RED s)
           \<and> del_inv (set_color w MEM_RED s) c (Node (Node wl w wr) p t)"
proof -
  let ?h = "mem s" and ?x = "rootp t" and ?s2 = "set_color w MEM_RED s"
  have tr: "tree_of s (plug c (Node (Node wl w wr) p t))" and px: "parent (?h ?x) = p"
    and bal: "balanced ?h t" and cb: "cbal ?h (RightOf (Node wl w wr) p # c) (bh ?h t + 1)"
    and nb: "nrr_below ?h t" and cn: "cnrr ?h (RightOf (Node wl w wr) p # c) MEM_BLACK"
    and rb: "color (?h (mem_root s)) = MEM_BLACK"
    using inv by (simp_all add: del_inv_def)
  have nil: "color (?h MEM_NIL) = MEM_BLACK" using tr by (simp add: tree_of_def)
  have w: "wf ?h (hole_parent c) p (Node (Node wl w wr) p t)"
    using tr by (simp add: tree_of_def wf_plug)
  have d: "distinct (before c @ (inorder wl @ w # inorder wr @ p # inorder t) @ after c)"
    using tr by (simp add: tree_of_def inorder_plug)
  have wwl: "wf ?h w (left (?h w)) wl" and wwr: "wf ?h w (right (?h w)) wr"
    and nn: "p \<noteq> MEM_NIL" "w \<noteq> MEM_NIL" and pp: "parent (?h p) = hole_parent c"
    using w by simp_all
  have lw: "left (?h w) = rootp wl" using wwl by (rule wf_rootp)
  have rw: "right (?h w) = rootp wr" using wwr by (rule wf_rootp)
  have xn: "?x \<noteq> p" "?x \<noteq> w" using rootp_cases [of t] d nn by auto
  have ne: "p \<noteq> w" using d by auto
  have cl: "color (?h (rootp wl)) = MEM_BLACK" "color (?h (rootp wr)) = MEM_BLACK"
    using both nil by (simp_all add: root_color_rootp)
  have step: "mem_delete_fixup_rest_right ?x w s = (p, ?s2)"
    using px lw rw cl xn by (simp add: mem_delete_fixup_rest_right_def)
  have tr2: "tree_of ?s2 (plug c (Node (Node wl w wr) p t))"
    using tr nn by (intro tree_of_set_color) auto
  have fr: "\<forall>a\<in>set (inorder t). color (mem ?s2 a) = color (?h a)"
    "\<forall>a\<in>set (inorder wl). color (mem ?s2 a) = color (?h a)"
    "\<forall>a\<in>set (inorder wr). color (mem ?s2 a) = color (?h a)"
    "\<forall>a\<in>set (before c @ after c). color (mem ?s2 a) = color (?h a)"
    using d by auto
  note cf = color_frame [OF fr(1)] color_frame [OF fr(2)] color_frame [OF fr(3)]
    ctx_color_frame [OF fr(4)] nrr_below_frame [OF fr(1)]
  have nt: "no_red_red ?h t" using nb xb by (rule black_nrr)
  have rt2: "c \<noteq> [] \<longrightarrow> color (mem ?s2 (mem_root ?s2)) = MEM_BLACK"
  proof
    assume "c \<noteq> []"
    then have "mem_root s \<in> set (before c @ after c)" using tr by (intro tree_of_root_in)
    then show "color (mem ?s2 (mem_root ?s2)) = MEM_BLACK" using fr(4) rb by simp
  qed
  have cnc: "cnrr ?h c MEM_BLACK" using cn cnrr_black by auto
  have "del_inv ?s2 c (Node (Node wl w wr) p t)"
    unfolding del_inv_def
    using tr2 pp bal cb nt cn cnc rt2 wb both ne
    by (auto simp: cf)
  then show ?thesis using step by simp
qed

text \<open>The sibling is black and its left child is red.\<close>

lemma del_case4_right:
  assumes inv: "del_inv s (RightOf (Node (Node a v b) w wr) p # c) t"
      and xb: "color (mem s (rootp t)) = MEM_BLACK"
      and wb: "color (mem s w) = MEM_BLACK"
      and vr: "color (mem s v) = MEM_RED"
  shows "\<exists>s6. mem_delete_fixup_rest_right (rootp t) w s = (mem_root s6, s6)
           \<and> fix_post s s6 (plug (RightOf (Node (Node a v b) w wr) p # c) t)"
proof -
  let ?h = "mem s" and ?x = "rootp t" and ?wr = "Node a v b"
  let ?T = "plug c (Node (Node ?wr w wr) p t)"
  let ?T' = "plug c (Node ?wr w (Node wr p t))"
  have tr: "tree_of s ?T" and px: "parent (?h ?x) = p"
    and bal: "balanced ?h t" and cb: "cbal ?h (RightOf (Node ?wr w wr) p # c) (bh ?h t + 1)"
    and nb: "nrr_below ?h t" and cn: "cnrr ?h (RightOf (Node ?wr w wr) p # c) MEM_BLACK"
    using inv by (simp_all add: del_inv_def)
  have w: "wf ?h (hole_parent c) p (Node (Node ?wr w wr) p t)"
    using tr by (simp add: tree_of_def wf_plug)
  have d: "distinct (before c @ (inorder a @ v # inorder b @ w # inorder wr @ p # inorder t)
             @ after c)"
    using tr by (simp add: tree_of_def inorder_plug)
  have wwl: "wf ?h w (right (?h w)) wr" and rw: "left (?h w) = v"
    and nn: "p \<noteq> MEM_NIL" "w \<noteq> MEM_NIL" "v \<noteq> MEM_NIL"
    using w by simp_all
  have xn: "?x \<noteq> p" "?x \<noteq> w" "?x \<noteq> v" using rootp_cases [of t] d nn by auto
  have ne: "p \<noteq> w" "p \<noteq> v" "w \<noteq> v" using d by auto
  define s5 where
    "s5 = set_color v MEM_BLACK (set_color p MEM_BLACK (set_color w (color (?h p)) s))"
  define s6 where "s6 = mem_rotate_right p s5"
  have step: "mem_delete_fixup_rest_right ?x w s = (mem_root s6, s6)"
    using px rw vr xn ne
    by (simp add: mem_delete_fixup_rest_right_def Let_def s6_def s5_def)
  have tr5: "tree_of s5 ?T"
    unfolding s5_def using tr nn by (intro tree_of_set_color) auto
  have tr6: "tree_of s6 ?T'" unfolding s6_def using tr5 by (rule tree_of_rotate_right)
  have col: "\<And>n. color (mem s6 n) = (if n = v then MEM_BLACK else if n = p then MEM_BLACK
                      else if n = w then color (?h p) else color (?h n))"
    unfolding s6_def using color_rotate_right [OF tr5] by (simp add: s5_def)
  have sd: "same_data s s6"
    unfolding s6_def using same_data_rotate_right [OF tr5] by (simp add: s5_def)
  have fr: "\<forall>n\<in>set (inorder t). color (mem s6 n) = color (?h n)"
    "\<forall>n\<in>set (inorder wr). color (mem s6 n) = color (?h n)"
    "\<forall>n\<in>set (inorder a). color (mem s6 n) = color (?h n)"
    "\<forall>n\<in>set (inorder b). color (mem s6 n) = color (?h n)"
    "\<forall>n\<in>set (before c @ after c). color (mem s6 n) = color (?h n)"
    using d by (auto simp: col)
  note cf = color_frame [OF fr(1)] color_frame [OF fr(2)] color_frame [OF fr(3)]
    color_frame [OF fr(4)] ctx_color_frame [OF fr(5)]
  have nt: "no_red_red ?h t" using nb xb by (rule black_nrr)
  have nrr: "no_red_red (mem s6) ?T'"
    using nt cn wb vr ne by (auto simp: no_red_red_plug col cf)
  have bal6: "balanced (mem s6) ?T'"
    using bal cb wb vr ne by (auto simp: balanced_plug col cf)
  have "fix_post s s6 ?T"
    unfolding fix_post_def
    using tr6 nrr bal6 sd by (intro exI [of _ ?T']) (simp add: inorder_plug)
  then show ?thesis using step by auto
qed

text \<open>The sibling is black, its left child black and its right child red.\<close>

lemma del_case3_right:
  assumes inv: "del_inv s (RightOf (Node wl w (Node a v b)) p # c) t"
      and xb: "color (mem s (rootp t)) = MEM_BLACK"
      and wb: "color (mem s w) = MEM_BLACK"
      and vr: "color (mem s v) = MEM_RED"
      and rb: "root_color (mem s) wl = MEM_BLACK"
  shows "\<exists>s6. mem_delete_fixup_rest_right (rootp t) w s = (mem_root s6, s6)
           \<and> fix_post s s6 (plug (RightOf (Node wl w (Node a v b)) p # c) t)"
proof -
  let ?h = "mem s" and ?x = "rootp t" and ?wl = "Node a v b"
  let ?T = "plug c (Node (Node wl w ?wl) p t)"
  let ?T3 = "plug c (Node (Node (Node wl w a) v b) p t)"
  let ?T' = "plug c (Node (Node wl w a) v (Node b p t))"
  have tr: "tree_of s ?T" and px: "parent (?h ?x) = p"
    and bal: "balanced ?h t" and cb: "cbal ?h (RightOf (Node wl w ?wl) p # c) (bh ?h t + 1)"
    and nb: "nrr_below ?h t" and cn: "cnrr ?h (RightOf (Node wl w ?wl) p # c) MEM_BLACK"
    using inv by (simp_all add: del_inv_def)
  have nil: "color (?h MEM_NIL) = MEM_BLACK" using tr by (simp add: tree_of_def)
  have w: "wf ?h (hole_parent c) p (Node (Node wl w ?wl) p t)"
    using tr by (simp add: tree_of_def wf_plug)
  have d: "distinct (before c @ (inorder wl @ w # inorder a @ v # inorder b @ p # inorder t)
             @ after c)"
    using tr by (simp add: tree_of_def inorder_plug)
  have wwr: "wf ?h w (left (?h w)) wl" and lw: "right (?h w) = v"
    and nn: "p \<noteq> MEM_NIL" "w \<noteq> MEM_NIL" "v \<noteq> MEM_NIL"
    using w by simp_all
  have rw: "left (?h w) = rootp wl" using wwr by (rule wf_rootp)
  have cr: "color (?h (rootp wl)) = MEM_BLACK" using rb nil by (simp add: root_color_rootp)
  have xn: "?x \<noteq> p" "?x \<noteq> w" "?x \<noteq> v" using rootp_cases [of t] d nn by auto
  have ne: "p \<noteq> w" "p \<noteq> v" "w \<noteq> v" using d by auto
  define t2 where "t2 = set_color w MEM_RED (set_color v MEM_BLACK s)"
  define t3 where "t3 = mem_rotate_left w t2"
  have tr2: "tree_of t2 ?T"
    unfolding t2_def using tr nn by (intro tree_of_set_color) auto
  have tr3: "tree_of t3 ?T3"
    using tree_of_rotate_left [of t2 "LeftOf p t # c" wl w a v b] tr2 by (simp add: t3_def)
  have c3: "\<And>n. color (mem t3 n) = (if n = w then MEM_RED else if n = v then MEM_BLACK
                                        else color (?h n))"
    using color_rotate_left [of t2 "LeftOf p t # c" wl w a v b] tr2
    by (simp add: t3_def t2_def)
  have sd3: "same_data s t3"
    using same_data_rotate_left [of t2 "LeftOf p t # c" wl w a v b] tr2
    by (simp add: t3_def t2_def)
  have w3: "wf (mem t3) (hole_parent c) p (Node (Node (Node wl w a) v b) p t)"
    using tr3 by (simp add: tree_of_def wf_plug)
  have px3: "parent (mem t3 ?x) = p"
  proof (cases t)
    case Leaf
    have "parent (mem t3 MEM_NIL) = parent (mem t2 MEM_NIL)"
      using nil_parent_rotate_left [of t2 "LeftOf p t # c" wl w a v b] tr2
      by (simp add: t3_def)
    then show ?thesis using px Leaf by (simp add: t2_def)
  next
    case (Node l k r)
    then show ?thesis using w3 by simp
  qed
  have rp3: "left (mem t3 p) = v" "left (mem t3 v) = w" using w3 by simp_all
  define s5 where
    "s5 = set_color w MEM_BLACK (set_color p MEM_BLACK (set_color v (color (?h p)) t3))"
  define s6 where "s6 = mem_rotate_right p s5"
  have step: "mem_delete_fixup_rest_right ?x w s = (mem_root s6, s6)"
    using px lw rw vr cr xn ne px3 rp3
    by (simp add: mem_delete_fixup_rest_right_def Let_def s6_def s5_def t3_def [symmetric]
        t2_def [symmetric] c3)
  have tr5: "tree_of s5 ?T3"
    unfolding s5_def using tr3 nn by (intro tree_of_set_color) auto
  have tr6: "tree_of s6 ?T'" unfolding s6_def using tr5 by (rule tree_of_rotate_right)
  have col: "\<And>n. color (mem s6 n) = (if n = w then MEM_BLACK else if n = p then MEM_BLACK
                      else if n = v then color (?h p) else color (?h n))"
    unfolding s6_def using color_rotate_right [OF tr5] by (simp add: s5_def c3)
  have "same_data s5 s6" unfolding s6_def using tr5 by (rule same_data_rotate_right)
  then have sd: "same_data s s6" using sd3 by (simp add: s5_def same_data_def)
  have fr: "\<forall>n\<in>set (inorder t). color (mem s6 n) = color (?h n)"
    "\<forall>n\<in>set (inorder wl). color (mem s6 n) = color (?h n)"
    "\<forall>n\<in>set (inorder a). color (mem s6 n) = color (?h n)"
    "\<forall>n\<in>set (inorder b). color (mem s6 n) = color (?h n)"
    "\<forall>n\<in>set (before c @ after c). color (mem s6 n) = color (?h n)"
    using d by (auto simp: col)
  note cf = color_frame [OF fr(1)] color_frame [OF fr(2)] color_frame [OF fr(3)]
    color_frame [OF fr(4)] ctx_color_frame [OF fr(5)]
  have nt: "no_red_red ?h t" using nb xb by (rule black_nrr)
  have nrr: "no_red_red (mem s6) ?T'"
    using nt cn wb vr ne by (auto simp: no_red_red_plug col cf)
  have bal6: "balanced (mem s6) ?T'"
    using bal cb wb vr ne by (auto simp: balanced_plug col cf)
  have "fix_post s s6 ?T"
    unfolding fix_post_def
    using tr6 nrr bal6 sd by (intro exI [of _ ?T']) (simp add: inorder_plug)
  then show ?thesis using step by auto
qed

lemma del_post_trans:
  "same_data s s1 \<Longrightarrow> del_post s1 x' s' t1 \<Longrightarrow> inorder t1 = inorder t \<Longrightarrow>
   del_post s x' s' t"
  unfolding del_post_def by (metis same_data_trans)

lemma fix_post_del_post:
  assumes "fix_post s s6 t"
  shows "del_post s (mem_root s6) s6 t"
proof -
  obtain t' where t': "tree_of s6 t'" "no_red_red (mem s6) t'" "balanced (mem s6) t'"
    "inorder t' = inorder t" "same_data s s6"
    using assms by (auto simp: fix_post_def)
  have "red_black (set_color (mem_root s6) MEM_BLACK s6) t'"
    using t'(1,2,3) by (rule blacken_root)
  then show ?thesis unfolding del_post_def using t'(4,5) by blast
qed

lemma del_inv_distinct:
  "del_inv s c t \<Longrightarrow> distinct (before c @ inorder t @ after c)"
  by (simp add: del_inv_def tree_of_def inorder_plug)

lemma delete_fixup_loop:
  "del_inv s c t \<Longrightarrow>
   \<exists>x' s'. mem_delete_fixup_loop (rootp t) s = Some (x', s') \<and> del_post s x' s' (plug c t)"
proof (induction "2 * length c + (if color (mem s (rootp t)) = MEM_BLACK then 1 else 0 :: nat)"
    arbitrary: s c t rule: less_induct)
  case less
  note inv = less.prems
  let ?h = "mem s" and ?x = "rootp t"
  let ?G = "\<exists>x' s'. mem_delete_fixup_loop ?x s = Some (x', s') \<and> del_post s x' s' (plug c t)"
  have tr: "tree_of s (plug c t)" and px: "parent (?h ?x) = hole_parent c"
    using inv by (simp_all add: del_inv_def)
  have wc: "wfc ?h (mem_root s) c ?x" and wx: "wf ?h (hole_parent c) ?x t"
    using tr by (simp_all add: tree_of_def wf_plug)
  have d: "distinct (before c @ inorder t @ after c)" using inv by (rule del_inv_distinct)
  show ?case
  proof (cases "c = [] \<or> color (?h ?x) = MEM_RED")
    case True
    have "?x = mem_root s \<or> color (?h ?x) \<noteq> MEM_BLACK"
      using True wc by auto
    then have "mem_delete_fixup_loop ?x s = Some (?x, s)"
      by (subst mem_delete_fixup_loop.simps) auto
    moreover have "del_post s ?x s (plug c t)"
      unfolding del_post_def using del_exit [OF inv True] by auto
    ultimately show ?thesis by simp
  next
    case False
    then have cne: "c \<noteq> []" and xb: "color (?h ?x) = MEM_BLACK"
      using mem_color_cases by auto
    have rin: "mem_root s \<in> set (before c @ after c)" using tr cne by (rule tree_of_root_in)
    then have "mem_root s \<noteq> MEM_NIL" using wfc_nodes [OF wc] by blast
    then have xroot: "?x \<noteq> mem_root s"
      using rin d rootp_cases [of t] by auto
    have unf: "mem_delete_fixup_loop ?x s =
                 mem_delete_fixup_loop (fst (mem_delete_fixup_step ?x s))
                   (snd (mem_delete_fixup_step ?x s))"
      using xroot xb by (subst mem_delete_fixup_loop.simps) simp
    have fin: "\<And>s1 s6 t1. \<lbrakk>mem_delete_fixup_step ?x s = (mem_root s6, s6); same_data s s1;
                 fix_post s1 s6 t1; inorder t1 = inorder (plug c t)\<rbrakk> \<Longrightarrow> ?G"
    proof -
      fix s1 s6 t1
      assume st: "mem_delete_fixup_step ?x s = (mem_root s6, s6)" and sd: "same_data s s1"
        and fp: "fix_post s1 s6 t1" and io: "inorder t1 = inorder (plug c t)"
      have "mem_delete_fixup_loop ?x s = mem_delete_fixup_loop (mem_root s6) s6"
        using unf st by simp
      also have "\<dots> = Some (mem_root s6, s6)"
        by (subst mem_delete_fixup_loop.simps) simp
      finally show ?G
        using del_post_trans [OF sd fix_post_del_post [OF fp] io] by simp
    qed
    have cont: "\<And>p s1 s2 c' t'. \<lbrakk>mem_delete_fixup_step ?x s = (p, s2); same_data s s1;
                 same_data s1 s2; del_inv s2 c' t'; rootp t' = p;
                 inorder (plug c' t') = inorder (plug c t);
                 2 * length c' + (if color (mem s2 p) = MEM_BLACK then 1 else 0)
                   < 2 * length c + 1\<rbrakk> \<Longrightarrow> ?G"
    proof -
      fix p s1 s2 c' t'
      assume st: "mem_delete_fixup_step ?x s = (p, s2)" and sd: "same_data s s1"
        and sd': "same_data s1 s2" and i2: "del_inv s2 c' t'" and rp: "rootp t' = p"
        and io: "inorder (plug c' t') = inorder (plug c t)"
        and m: "2 * length c' + (if color (mem s2 p) = MEM_BLACK then 1 else 0)
                   < 2 * length c + 1"
      have "2 * length c' + (if color (mem s2 (rootp t')) = MEM_BLACK then 1 else 0 :: nat)
              < 2 * length c + (if color (?h ?x) = MEM_BLACK then 1 else 0)"
        using m xb rp by simp
      then obtain x' s' where l: "mem_delete_fixup_loop (rootp t') s2 = Some (x', s')"
        and dp: "del_post s2 x' s' (plug c' t')"
        using less.hyps [OF _ i2] by blast
      have "mem_delete_fixup_loop ?x s = Some (x', s')" using unf st l rp by simp
      moreover have "del_post s x' s' (plug c t)"
        using del_post_trans [OF same_data_trans [OF sd sd'] dp io] .
      ultimately show ?G by blast
    qed
    obtain f1 c1 where c: "c = f1 # c1" using cne by (cases c) auto
    show ?thesis
    proof (cases f1)
      case (LeftOf p ws)
      have i0: "del_inv s (LeftOf p ws # c1) t" using inv c LeftOf by simp
      have lp: "left (?h p) = ?x" using wc c LeftOf by simp
      have pp: "parent (?h ?x) = p" using px c LeftOf by simp
      obtain wl w wr c' s1 where
        sib: "mem_delete_fixup_sibling_left ?x s = (w, s1)"
        and i1: "del_inv s1 (LeftOf p (Node wl w wr) # c') t"
        and wb: "color (mem s1 w) = MEM_BLACK" and xb1: "color (mem s1 ?x) = MEM_BLACK"
        and sd: "same_data s s1"
        and io: "inorder (plug (LeftOf p (Node wl w wr) # c') t) = inorder (plug (LeftOf p ws # c1) t)"
        and len: "c' = c1 \<or> length c' = Suc (length c1) \<and> color (mem s1 p) = MEM_RED"
        using del_sibling_left [OF i0 xb] by blast
      have step: "mem_delete_fixup_step ?x s = mem_delete_fixup_rest_left ?x w s1"
        using lp pp sib by (simp add: mem_delete_fixup_step_def)
      have d1: "distinct (before c' @ (inorder t @ p # inorder wl @ w # inorder wr) @ after c')"
        using del_inv_distinct [OF i1] by simp
      show ?thesis
      proof (cases "root_color (mem s1) wr = MEM_BLACK")
        case True
        note rwr = this
        show ?thesis
        proof (cases "root_color (mem s1) wl = MEM_BLACK")
          case True
          have r: "mem_delete_fixup_rest_left ?x w s1 = (p, set_color w MEM_RED s1)"
            and i2: "del_inv (set_color w MEM_RED s1) c' (Node t p (Node wl w wr))"
            using del_case2_left [OF i1 xb1 wb True rwr] by simp_all
          have pw: "p \<noteq> w" using d1 by auto
          show ?thesis
          proof (rule cont [of p "set_color w MEM_RED s1" s1 c' "Node t p (Node wl w wr)"])
            show "mem_delete_fixup_step ?x s = (p, set_color w MEM_RED s1)"
              using step r by simp
            show "same_data s s1" by (rule sd)
            show "same_data s1 (set_color w MEM_RED s1)" by simp
            show "del_inv (set_color w MEM_RED s1) c' (Node t p (Node wl w wr))" by (rule i2)
            show "rootp (Node t p (Node wl w wr)) = p" by simp
            show "inorder (plug c' (Node t p (Node wl w wr))) = inorder (plug c t)"
              using io c LeftOf by simp
            show "2 * length c' + (if color (mem (set_color w MEM_RED s1) p) = MEM_BLACK
                    then 1 else 0) < 2 * length c + 1"
              using len pw c by auto
          qed
        next
          case False
          then obtain a v b where wl: "wl = Node a v b" and vr: "color (mem s1 v) = MEM_RED"
            using root_color_red by blast
          have i1': "del_inv s1 (LeftOf p (Node (Node a v b) w wr) # c') t"
            using i1 wl by simp
          obtain s6 where "mem_delete_fixup_rest_left ?x w s1 = (mem_root s6, s6)"
            "fix_post s1 s6 (plug (LeftOf p (Node (Node a v b) w wr) # c') t)"
            using del_case3_left [OF i1' xb1 wb vr rwr] by blast
          then show ?thesis
            using fin [of s6 s1 "plug (LeftOf p (Node (Node a v b) w wr) # c') t"]
              step sd io c LeftOf wl by simp
        qed
      next
        case False
        then obtain a v b where wr: "wr = Node a v b" and vr: "color (mem s1 v) = MEM_RED"
          using root_color_red by blast
        have i1': "del_inv s1 (LeftOf p (Node wl w (Node a v b)) # c') t"
          using i1 wr by simp
        obtain s6 where "mem_delete_fixup_rest_left ?x w s1 = (mem_root s6, s6)"
          "fix_post s1 s6 (plug (LeftOf p (Node wl w (Node a v b)) # c') t)"
          using del_case4_left [OF i1' xb1 wb vr] by blast
        then show ?thesis
          using fin [of s6 s1 "plug (LeftOf p (Node wl w (Node a v b)) # c') t"]
            step sd io c LeftOf wr by simp
      qed
    next
      case (RightOf ws p)
      have i0: "del_inv s (RightOf ws p # c1) t" using inv c RightOf by simp
      have pp: "parent (?h ?x) = p" using px c RightOf by simp
      have "0 < bh ?h ws" using i0 by (simp add: del_inv_def)
      then obtain wl0 w0 wr0 where ws0: "ws = Node wl0 w0 wr0" using bh_pos_Node by blast
      have "left (?h p) = w0" using wc c RightOf ws0 by simp
      moreover have "w0 \<noteq> MEM_NIL" using wc c RightOf ws0 by simp
      then have "?x \<noteq> w0" using d c RightOf ws0 rootp_cases [of t] by auto
      ultimately have lp: "?x \<noteq> left (?h p)" by simp
      obtain wl w wr c' s1 where
        sib: "mem_delete_fixup_sibling_right ?x s = (w, s1)"
        and i1: "del_inv s1 (RightOf (Node wl w wr) p # c') t"
        and wb: "color (mem s1 w) = MEM_BLACK" and xb1: "color (mem s1 ?x) = MEM_BLACK"
        and sd: "same_data s s1"
        and io: "inorder (plug (RightOf (Node wl w wr) p # c') t) = inorder (plug (RightOf ws p # c1) t)"
        and len: "c' = c1 \<or> length c' = Suc (length c1) \<and> color (mem s1 p) = MEM_RED"
        using del_sibling_right [OF i0 xb] by blast
      have step: "mem_delete_fixup_step ?x s = mem_delete_fixup_rest_right ?x w s1"
        using lp pp sib by (simp add: mem_delete_fixup_step_def)
      have d1: "distinct (before c' @ (inorder wl @ w # inorder wr @ p # inorder t) @ after c')"
        using del_inv_distinct [OF i1] by simp
      show ?thesis
      proof (cases "root_color (mem s1) wl = MEM_BLACK")
        case True
        note rwl = this
        show ?thesis
        proof (cases "root_color (mem s1) wr = MEM_BLACK")
          case True
          have r: "mem_delete_fixup_rest_right ?x w s1 = (p, set_color w MEM_RED s1)"
            and i2: "del_inv (set_color w MEM_RED s1) c' (Node (Node wl w wr) p t)"
            using del_case2_right [OF i1 xb1 wb rwl True] by simp_all
          have pw: "p \<noteq> w" using d1 by auto
          show ?thesis
          proof (rule cont [of p "set_color w MEM_RED s1" s1 c' "Node (Node wl w wr) p t"])
            show "mem_delete_fixup_step ?x s = (p, set_color w MEM_RED s1)"
              using step r by simp
            show "same_data s s1" by (rule sd)
            show "same_data s1 (set_color w MEM_RED s1)" by simp
            show "del_inv (set_color w MEM_RED s1) c' (Node (Node wl w wr) p t)" by (rule i2)
            show "rootp (Node (Node wl w wr) p t) = p" by simp
            show "inorder (plug c' (Node (Node wl w wr) p t)) = inorder (plug c t)"
              using io c RightOf by simp
            show "2 * length c' + (if color (mem (set_color w MEM_RED s1) p) = MEM_BLACK
                    then 1 else 0) < 2 * length c + 1"
              using len pw c by auto
          qed
        next
          case False
          then obtain a v b where wr: "wr = Node a v b" and vr: "color (mem s1 v) = MEM_RED"
            using root_color_red by blast
          have i1': "del_inv s1 (RightOf (Node wl w (Node a v b)) p # c') t"
            using i1 wr by simp
          obtain s6 where "mem_delete_fixup_rest_right ?x w s1 = (mem_root s6, s6)"
            "fix_post s1 s6 (plug (RightOf (Node wl w (Node a v b)) p # c') t)"
            using del_case3_right [OF i1' xb1 wb vr rwl] by blast
          then show ?thesis
            using fin [of s6 s1 "plug (RightOf (Node wl w (Node a v b)) p # c') t"]
              step sd io c RightOf wr by simp
        qed
      next
        case False
        then obtain a v b where wl: "wl = Node a v b" and vr: "color (mem s1 v) = MEM_RED"
          using root_color_red by blast
        have i1': "del_inv s1 (RightOf (Node (Node a v b) w wr) p # c') t"
          using i1 wl by simp
        obtain s6 where "mem_delete_fixup_rest_right ?x w s1 = (mem_root s6, s6)"
          "fix_post s1 s6 (plug (RightOf (Node (Node a v b) w wr) p # c') t)"
          using del_case4_right [OF i1' xb1 wb vr] by blast
        then show ?thesis
          using fin [of s6 s1 "plug (RightOf (Node (Node a v b) w wr) p # c') t"]
            step sd io c RightOf wl by simp
      qed
    qed
  qed
qed

lemma plug_append: "plug (c1 @ c2) t = plug c2 (plug c1 t)"
  by (induction c1 t rule: plug.induct) simp_all

lemma before_append: "before (c1 @ c2) = before c2 @ before c1"
  by (induction c1 rule: before.induct) simp_all

lemma after_append: "after (c1 @ c2) = after c1 @ after c2"
  by (induction c1 rule: after.induct) simp_all

lemma find_node: "a \<in> set (inorder t) \<Longrightarrow> \<exists>c l r. t = plug c (Node l a r)"
proof (induction t)
  case Leaf then show ?case by simp
next
  case (Node l n r)
  show ?case
  proof (cases "a = n")
    case True
    then have "Node l n r = plug [] (Node l a r)" by simp
    then show ?thesis by blast
  next
    case False
    then consider "a \<in> set (inorder l)" | "a \<in> set (inorder r)" using Node.prems by auto
    then show ?thesis
    proof cases
      case 1
      then obtain c l' r' where "l = plug c (Node l' a r')" using Node.IH(1) by blast
      then have "Node l n r = plug (c @ [LeftOf n r]) (Node l' a r')" by (simp add: plug_append)
      then show ?thesis by blast
    next
      case 2
      then obtain c l' r' where "r = plug c (Node l' a r')" using Node.IH(2) by blast
      then have "Node l n r = plug (c @ [RightOf l n]) (Node l' a r')" by (simp add: plug_append)
      then show ?thesis by blast
    qed
  qed
qed

lemma leftmost:
  "wf (mem s) par p t \<Longrightarrow> t \<noteq> Leaf \<Longrightarrow>
   \<exists>cy y yr. mem_delete_leftmost s p = Some y \<and> t = plug cy (Node Leaf y yr) \<and> before cy = []"
proof (induction t arbitrary: par p)
  case Leaf then show ?case by simp
next
  case (Node l a r)
  let ?h = "mem s"
  have p: "p = a" and wl: "wf ?h a (left (?h a)) l" using Node.prems by simp_all
  show ?case
  proof (cases l)
    case Leaf
    then have "left (?h a) = MEM_NIL" using wl by simp
    then have "mem_delete_leftmost s p = Some a"
      using p by (subst mem_delete_leftmost.simps) simp
    moreover have "Node l a r = plug [] (Node Leaf a r)" using Leaf by simp
    ultimately show ?thesis by (metis before.simps(1))
  next
    case (Node ll b lr)
    then have "left (?h a) \<noteq> MEM_NIL" using wl by auto
    then have e: "mem_delete_leftmost s p = mem_delete_leftmost s (left (?h a))"
      using p by (subst mem_delete_leftmost.simps) simp
    obtain cy y yr where "mem_delete_leftmost s (left (?h a)) = Some y"
      "l = plug cy (Node Leaf y yr)" "before cy = []"
      using Node.IH(1) [OF wl] Node by blast
    then have "mem_delete_leftmost s p = Some y"
      "Node l a r = plug (cy @ [LeftOf a r]) (Node Leaf y yr)" "before (cy @ [LeftOf a r]) = []"
      using e by (simp_all add: plug_append before_append)
    then show ?thesis by blast
  qed
qed

lemma splice_reads:
  assumes "x \<noteq> y" "parent (mem s y) = pp" "pp \<noteq> x"
  shows "left (mem (splice x y s) n) =
           (if n = pp \<and> pp \<noteq> NULL \<and> left (mem s pp) = y then x else left (mem s n))"
    and "right (mem (splice x y s) n) =
           (if n = pp \<and> pp \<noteq> NULL \<and> left (mem s pp) \<noteq> y then x else right (mem s n))"
    and "parent (mem (splice x y s) n) = (if n = x then pp else parent (mem s n))"
    and "color (mem (splice x y s) n) = color (mem s n)"
    and "start (mem (splice x y s) n) = start (mem s n)"
    and "end' (mem (splice x y s) n) = end' (mem s n)"
    and "type (mem (splice x y s) n) = type (mem s n)"
    and "mem_root (splice x y s) = (if pp = NULL then x else mem_root s)"
    and "min_heap_address (splice x y s) = min_heap_address s"
    and "max_heap_address (splice x y s) = max_heap_address s"
    and "next_node (splice x y s) = next_node s"
proof -
  have p1: "parent (mem (set_parent x pp s) y) = pp" using assms by simp
  have l1: "left (mem (set_parent x pp s) pp) = left (mem s pp)" by simp
  have e: "splice x y s =
     (if pp \<noteq> NULL then
        (if y = left (mem s pp) then set_left pp x (set_parent x pp s)
         else set_right pp x (set_parent x pp s))
      else (set_parent x pp s)\<lparr>mem_root := x\<rparr>)"
    by (simp only: splice_def Let_def assms(2) p1 l1)
  show "left (mem (splice x y s) n) =
           (if n = pp \<and> pp \<noteq> NULL \<and> left (mem s pp) = y then x else left (mem s n))"
    by (simp add: e eq_commute [of y "left (mem s pp)"])
  show "right (mem (splice x y s) n) =
           (if n = pp \<and> pp \<noteq> NULL \<and> left (mem s pp) \<noteq> y then x else right (mem s n))"
    by (simp add: e eq_commute [of y "left (mem s pp)"])
  show "parent (mem (splice x y s) n) = (if n = x then pp else parent (mem s n))"
    by (simp add: e)
  show "color (mem (splice x y s) n) = color (mem s n)" by (simp add: e)
  show "start (mem (splice x y s) n) = start (mem s n)" by (simp add: e)
  show "end' (mem (splice x y s) n) = end' (mem s n)" by (simp add: e)
  show "type (mem (splice x y s) n) = type (mem s n)" by (simp add: e)
  show "mem_root (splice x y s) = (if pp = NULL then x else mem_root s)" by (simp add: e)
  show "min_heap_address (splice x y s) = min_heap_address s" by (simp add: e)
  show "max_heap_address (splice x y s) = max_heap_address s" by (simp add: e)
  show "next_node (splice x y s) = next_node s" by (simp add: e)
qed

lemma splice_tree:
  assumes tr: "tree_of s (plug c (Node yl y yr))" and one: "yl = Leaf \<or> yr = Leaf"
  defines "child \<equiv> (if yl \<noteq> Leaf then yl else yr)"
  shows "tree_of (splice (rootp child) y s) (plug c child)"
    and "parent (mem (splice (rootp child) y s) (rootp child)) = hole_parent c"
    and "color (mem (splice (rootp child) y s) n) = color (mem s n)"
    and "same_data s (splice (rootp child) y s)"
    and "c \<noteq> [] \<Longrightarrow> mem_root (splice (rootp child) y s) = mem_root s"
    and "rootp child = (if left (mem s y) \<noteq> MEM_NIL then left (mem s y) else right (mem s y))"
proof -
  let ?h = "mem s" and ?x = "rootp child" and ?pp = "hole_parent c"
  let ?s2 = "splice ?x y s"
  have wc: "wfc ?h (mem_root s) c y" and wy: "wf ?h ?pp y (Node yl y yr)"
    and d: "distinct (before c @ (inorder yl @ y # inorder yr) @ after c)"
    and bnd: "list_all (\<lambda>a. 2 \<le> a \<and> a < next_node s) (before c @ (inorder yl @ y # inorder yr) @ after c)"
    and x2: "2 \<le> next_node s" and nil: "color (?h MEM_NIL) = MEM_BLACK"
    using tr by (simp_all add: tree_of_def wf_plug inorder_plug)
  have py: "parent (?h y) = ?pp" and yn: "y \<noteq> MEM_NIL" "y \<noteq> NULL"
    and wl: "wf ?h y (left (?h y)) yl" and wr: "wf ?h y (right (?h y)) yr"
    using wy by simp_all
  have ll: "left (?h y) = rootp yl" using wl by (rule wf_rootp)
  have rr: "right (?h y) = rootp yr" using wr by (rule wf_rootp)
  have wch: "wf ?h y ?x child" using wl wr ll rr by (simp add: child_def)
  have lnil: "(rootp yl \<noteq> MEM_NIL) = (yl \<noteq> Leaf)" using wl wf_nodes [OF wl] by (cases yl) auto
  show xe: "?x = (if left (?h y) \<noteq> MEM_NIL then left (?h y) else right (?h y))"
    using ll rr lnil by (simp add: child_def)
  have sub: "set (inorder child) \<subseteq> set (inorder yl) \<union> set (inorder yr)"
    by (simp add: child_def)
  have cn: "\<And>n. n \<in> set (before c @ after c) \<Longrightarrow> n \<noteq> MEM_NIL \<and> n \<noteq> NULL"
    using wfc_nodes [OF wc] by blast
  have xy: "?x \<noteq> y" using rootp_cases [of child] sub d yn by auto
  have xnull: "?x \<noteq> NULL" using wch by (rule wf_rootp_nonnull)
  have xc: "?x \<notin> set (before c @ after c)"
    using rootp_cases [of child] sub d cn by auto
  have ppx: "?pp \<noteq> ?x" using hole_parent_cases [of c] xnull xc by auto
  note r = splice_reads [OF xy py ppx]
  show "color (mem ?s2 n) = color (?h n)" by (rule r)
  show sd: "same_data s ?s2" by (simp add: same_data_def r)
  show px: "parent (mem ?s2 ?x) = ?pp" by (simp add: r)
  show "c \<noteq> [] \<Longrightarrow> mem_root ?s2 = mem_root s"
    using hole_parent_cases [of c] cn by (auto simp: r)
  have ppc: "?pp \<notin> set (inorder child)"
    using hole_parent_cases [of c] sub d wf_nodes [OF wch] by auto
  have wch2: "wf (mem ?s2) ?pp ?x child"
  proof (rule wf_reparent [OF wch])
    show "\<forall>a\<in>set (inorder child). left (mem ?s2 a) = left (?h a) \<and> right (mem ?s2 a) = right (?h a)"
      using ppc by (auto simp: r)
    show "\<forall>a\<in>set (inorder child). a \<noteq> ?x \<longrightarrow> parent (mem ?s2 a) = parent (?h a)"
      by (simp add: r)
    show "child \<noteq> Leaf \<longrightarrow> parent (mem ?s2 ?x) = ?pp" using px by simp
    show "distinct (inorder child)" using d by (simp add: child_def)
  qed
  have wc2: "wfc (mem ?s2) (mem_root ?s2) c ?x"
  proof (rule wfc_replace [OF wc])
    show "\<forall>a\<in>set (before c @ after c). a \<noteq> ?pp \<longrightarrow>
            left (mem ?s2 a) = left (?h a) \<and> right (mem ?s2 a) = right (?h a)
            \<and> parent (mem ?s2 a) = parent (?h a)"
      using xc by (auto simp: r)
    show "c \<noteq> [] \<longrightarrow> parent (mem ?s2 ?pp) = parent (?h ?pp)
            \<and> (if left (?h ?pp) = y
                then left (mem ?s2 ?pp) = ?x \<and> right (mem ?s2 ?pp) = right (?h ?pp)
                else right (mem ?s2 ?pp) = ?x \<and> left (mem ?s2 ?pp) = left (?h ?pp))"
    proof
      assume "c \<noteq> []"
      then have "?pp \<noteq> NULL" using hole_parent_cases [of c] cn by auto
      then show "parent (mem ?s2 ?pp) = parent (?h ?pp)
            \<and> (if left (?h ?pp) = y
                then left (mem ?s2 ?pp) = ?x \<and> right (mem ?s2 ?pp) = right (?h ?pp)
                else right (mem ?s2 ?pp) = ?x \<and> left (mem ?s2 ?pp) = left (?h ?pp))"
        using ppx by (simp add: r)
    qed
    show "mem_root ?s2 = (if c = [] then ?x else mem_root s)"
      using hole_parent_cases [of c] cn by (auto simp: r)
    show "distinct (before c @ after c)" using d by auto
    show "y \<noteq> MEM_NIL" by (rule yn)
    show "y \<notin> set (before c @ after c)" using d by auto
  qed
  have d2: "distinct (before c @ inorder child @ after c)"
    using d by (auto simp: child_def)
  have b2: "list_all (\<lambda>a. 2 \<le> a \<and> a < next_node s) (before c @ inorder child @ after c)"
    using bnd by (auto simp: child_def)
  show "tree_of ?s2 (plug c child)"
    unfolding tree_of_def
    using wc2 wch2 d2 b2 x2 nil by (simp add: wf_plug inorder_plug r)
qed

lemma wf_set_range [simp]:
  "wf (mem (set_range a st en ty s)) par p t = wf (mem s) par p t"
  by (rule wf_frame_fields) simp

lemma tree_of_set_range [simp]: "tree_of (set_range a st en ty s) t = tree_of s t"
  by (simp add: tree_of_def)

lemma colors_same:
  assumes "\<And>n. color (h' n) = color (h n)"
  shows "bh h' t = bh h t" "balanced h' t = balanced h t" "no_red_red h' t = no_red_red h t"
    "root_color h' t = root_color h t" "nrr_below h' t = nrr_below h t"
    "cbal h' c k = cbal h c k" "cnrr h' c m = cnrr h c m"
  using assms
  by (simp_all add: color_frame ctx_color_frame nrr_below_frame)

lemma mem_delete_fixup_eq:
  "mem_delete_fixup_loop x s = Some (x', s') \<Longrightarrow>
   mem_delete_fixup x s = Some (set_color x' MEM_BLACK s')"
  by (simp add: mem_delete_fixup_def)

lemma delete_at:
  fixes z :: addr
  assumes rb: "red_black s (plug cy (Node yl y yr))" and one: "yl = Leaf \<or> yr = Leaf"
  defines "child \<equiv> (if yl \<noteq> Leaf then yl else yr)"
  defines "s2 \<equiv> splice (rootp child) y s"
  defines "s3 \<equiv> (if y \<noteq> z then set_range z (start (mem s2 y)) (end' (mem s2 y))
                                  (type (mem s2 y)) s2 else s2)"
  shows "\<exists>s' T'. (if color (mem s3 y) = MEM_BLACK then mem_delete_fixup (rootp child) s3
                  else Some s3) = Some s'
           \<and> red_black s' T' \<and> inorder T' = before cy @ inorder child @ after cy
           \<and> same_data s3 s'"
proof -
  let ?h = "mem s" and ?x = "rootp child"
  have tr: "tree_of s (plug cy (Node yl y yr))"
    and rbk: "color (?h (mem_root s)) = MEM_BLACK"
    and n0: "no_red_red ?h (plug cy (Node yl y yr))"
    and b0: "balanced ?h (plug cy (Node yl y yr))"
    using rb by (simp_all add: red_black_def)
  have nrr: "no_red_red ?h (Node yl y yr)" and cn: "cnrr ?h cy (color (?h y))"
    using n0 unfolding no_red_red_plug by simp_all
  have bal: "balanced ?h (Node yl y yr)" and cb: "cbal ?h cy (bh ?h (Node yl y yr))"
    using b0 unfolding balanced_plug by blast+
  have tr2: "tree_of s2 (plug cy child)" and px2: "parent (mem s2 ?x) = hole_parent cy"
    and col2: "\<And>n. color (mem s2 n) = color (?h n)"
    and rt2: "cy \<noteq> [] \<Longrightarrow> mem_root s2 = mem_root s"
    using splice_tree [OF tr one] by (simp_all add: s2_def child_def)
  have tr3: "tree_of s3 (plug cy child)" using tr2 by (simp add: s3_def)
  have px3: "parent (mem s3 ?x) = hole_parent cy" using px2 by (simp add: s3_def)
  have col3: "\<And>n. color (mem s3 n) = color (?h n)" using col2 by (simp add: s3_def)
  have rt3: "cy \<noteq> [] \<Longrightarrow> mem_root s3 = mem_root s" using rt2 by (simp add: s3_def)
  note cs = colors_same [of "mem s3" ?h, OF col3]
  have bch: "balanced ?h child" "no_red_red ?h child"
    using bal nrr by (auto simp: child_def)
  have bhc: "bh ?h (Node yl y yr) = bh ?h child + (if color (?h y) = MEM_BLACK then 1 else 0)"
    using bal by (auto simp: child_def)
  show ?thesis
  proof (cases "color (?h y) = MEM_BLACK")
    case True
    have "del_inv s3 cy child"
      unfolding del_inv_def
      using tr3 px3 bch cb bhc True cn rbk rt3 no_red_red_below [OF bch(2)]
      by (auto simp: cs col3)
    then obtain x' s'' where l: "mem_delete_fixup_loop ?x s3 = Some (x', s'')"
      and dp: "del_post s3 x' s'' (plug cy child)"
      using delete_fixup_loop by blast
    obtain T' where "inorder T' = inorder (plug cy child)"
      "red_black (set_color x' MEM_BLACK s'') T'" "same_data s3 s''"
      using dp by (auto simp: del_post_def)
    then show ?thesis
      using mem_delete_fixup_eq [OF l] True
      by (intro exI [of _ "set_color x' MEM_BLACK s''"] exI [of _ T'])
         (simp add: col3 inorder_plug)
  next
    case False
    then have yr: "color (?h y) = MEM_RED" using mem_color_cases by auto
    have ne: "cy \<noteq> []"
    proof
      assume "cy = []"
      then have "mem_root s = y" using tr by (simp add: tree_of_def)
      then show False using rbk False by simp
    qed
    have "root_color ?h child = MEM_BLACK" using nrr yr by (auto simp: child_def)
    then have n3: "no_red_red (mem s3) (plug cy child)"
      using bch cn cnrr_black by (auto simp: no_red_red_plug cs)
    have b3: "balanced (mem s3) (plug cy child)"
      using bch cb bhc yr by (simp add: balanced_plug cs)
    have "red_black s3 (plug cy child)"
      unfolding red_black_def using tr3 n3 b3 rbk rt3 [OF ne] by (simp add: col3)
    then show ?thesis
      using False by (intro exI [of _ s3] exI [of _ "plug cy child"])
        (simp add: col3 inorder_plug)
  qed
qed

lemma mem_delete_eq:
  assumes "z \<noteq> NULL" "z \<noteq> MEM_NIL"
    and "(if left (mem s z) = MEM_NIL \<or> right (mem s z) = MEM_NIL then Some z
          else mem_delete_leftmost s (right (mem s z))) = Some y"
    and "x = (if left (mem s y) \<noteq> MEM_NIL then left (mem s y) else right (mem s y))"
    and "s3 = (if y \<noteq> z then set_range z (start (mem (splice x y s) y))
                 (end' (mem (splice x y s) y)) (type (mem (splice x y s) y)) (splice x y s)
               else splice x y s)"
  shows "mem_delete z s =
           (if color (mem s3 y) = MEM_BLACK then mem_delete_fixup x s3 else Some s3)"
  unfolding mem_delete_def assms(3) using assms(1,2)
  by (simp add: splice_def Let_def assms(4,5))

lemma wf_leaf_iff: "wf h par p t \<Longrightarrow> (p = MEM_NIL) = (t = Leaf)"
  by (cases t) auto

lemma delete_data:
  assumes sd: "same_data s s2" and sd3: "same_data s3 s'"
    and s3: "s3 = (if y \<noteq> z then set_range z (start (mem s2 y)) (end' (mem s2 y))
                                   (type (mem s2 y)) s2 else s2)"
  shows "node_range (mem s') n = (if n = z \<and> y \<noteq> z then node_range (mem s) y
                                   else node_range (mem s) n)"
    and "next_node s' = next_node s"
    and "min_heap_address s' = min_heap_address s"
    and "max_heap_address s' = max_heap_address s"
  using sd sd3 by (auto simp: same_data_def node_range_def s3)

lemma delete_at':
  assumes rb: "red_black s (plug cy (Node yl y yr))" and one: "yl = Leaf \<or> yr = Leaf"
    and child: "child = (if yl \<noteq> Leaf then yl else yr)"
    and s2: "s2 = splice (rootp child) y s"
    and s3: "s3 = (if y \<noteq> z then set_range z (start (mem s2 y)) (end' (mem s2 y))
                                  (type (mem s2 y)) s2 else s2)"
  shows "\<exists>s' T'. (if color (mem s3 y) = MEM_BLACK then mem_delete_fixup (rootp child) s3
                  else Some s3) = Some s'
           \<and> red_black s' T' \<and> inorder T' = before cy @ inorder child @ after cy
           \<and> same_data s3 s'"
  unfolding s3 s2 child by (rule delete_at [OF rb one])

lemma mem_delete_correct:
  assumes rb: "red_black s T" and zin: "z \<in> set (inorder T)"
  shows "\<exists>s' T' xs ys. mem_delete z s = Some s' \<and> red_black s' T'
           \<and> inorder T = xs @ z # ys
           \<and> ranges (mem s') T' = map (node_range (mem s)) (xs @ ys)
           \<and> next_node s' = next_node s
           \<and> min_heap_address s' = min_heap_address s
           \<and> max_heap_address s' = max_heap_address s"
proof -
  let ?h = "mem s"
  obtain cz zl zr where T: "T = plug cz (Node zl z zr)" using find_node [OF zin] by blast
  have tr: "tree_of s (plug cz (Node zl z zr))" using rb by (simp add: red_black_def T)
  have wz: "wf ?h (hole_parent cz) z (Node zl z zr)"
    and d: "distinct (before cz @ (inorder zl @ z # inorder zr) @ after cz)"
    using tr by (simp_all add: tree_of_def wf_plug inorder_plug)
  have zn: "z \<noteq> NULL" "z \<noteq> MEM_NIL"
    and wl: "wf ?h z (left (?h z)) zl" and wr: "wf ?h z (right (?h z)) zr"
    using wz by simp_all
  have ll: "(left (?h z) = MEM_NIL) = (zl = Leaf)" using wl by (rule wf_leaf_iff)
  have rr: "(right (?h z) = MEM_NIL) = (zr = Leaf)" using wr by (rule wf_leaf_iff)
  show ?thesis
  proof (cases "zl = Leaf \<or> zr = Leaf")
    case True
    define child where "child = (if zl \<noteq> Leaf then zl else zr)"
    define s2 where "s2 = splice (rootp child) z s"
    have x: "rootp child = (if left (?h z) \<noteq> MEM_NIL then left (?h z) else right (?h z))"
      and sd: "same_data s s2"
      using splice_tree(4,6) [OF tr True] by (simp_all add: child_def s2_def)
    have "\<exists>s' T'. (if color (mem s2 z) = MEM_BLACK then mem_delete_fixup (rootp child) s2
           else Some s2) = Some s' \<and> red_black s' T'
         \<and> inorder T' = before cz @ inorder child @ after cz \<and> same_data s2 s'"
      by (rule delete_at' [OF rb [unfolded T] True child_def s2_def, of _ z]) simp
    then obtain s' T' where
      r: "(if color (mem s2 z) = MEM_BLACK then mem_delete_fixup (rootp child) s2
           else Some s2) = Some s'"
      and rb': "red_black s' T'"
      and io: "inorder T' = before cz @ inorder child @ after cz"
      and sd3: "same_data s2 s'"
      by blast
    have e: "mem_delete z s = Some s'"
      using mem_delete_eq [OF zn _ x, of s2] ll rr True r by (simp add: s2_def)
    have s3e: "s2 = (if z \<noteq> z then set_range z (start (mem s2 z)) (end' (mem s2 z))
                                       (type (mem s2 z)) s2 else s2)"
      by simp
    note dd = delete_data [OF sd sd3 s3e]
    have io': "inorder T' = (before cz @ inorder zl) @ (inorder zr @ after cz)"
      using io True by (auto simp: child_def)
    have "ranges (mem s') T' = map (node_range ?h) ((before cz @ inorder zl) @ (inorder zr @ after cz))"
      unfolding ranges_alt io' using dd(1) by simp
    moreover have "inorder T = (before cz @ inorder zl) @ z # (inorder zr @ after cz)"
      by (simp add: T inorder_plug)
    ultimately show ?thesis using e rb' dd(2,3,4) by blast
  next
    case False
    then have zlr: "zl \<noteq> Leaf" "zr \<noteq> Leaf" by simp_all
    obtain cy y yr where lm: "mem_delete_leftmost s (right (?h z)) = Some y"
      and zr: "zr = plug cy (Node Leaf y yr)" and bc: "before cy = []"
      using leftmost [OF wr zlr(2)] by blast
    let ?c = "cy @ RightOf zl z # cz"
    have T2: "T = plug ?c (Node Leaf y yr)" by (simp add: T zr plug_append)
    have tr2: "tree_of s (plug ?c (Node Leaf y yr))" using tr by (simp add: zr plug_append)
    have yz: "y \<noteq> z" using d by (auto simp: zr inorder_plug)
    define s2 where "s2 = splice (rootp yr) y s"
    define s3 where "s3 = set_range z (start (mem s2 y)) (end' (mem s2 y)) (type (mem s2 y)) s2"
    have x: "rootp yr = (if left (?h y) \<noteq> MEM_NIL then left (?h y) else right (?h y))"
      and sd: "same_data s s2"
      using splice_tree(4,6) [OF tr2] by (simp_all add: s2_def)
    have "\<exists>s' T'. (if color (mem s3 y) = MEM_BLACK then mem_delete_fixup (rootp yr) s3
           else Some s3) = Some s' \<and> red_black s' T'
         \<and> inorder T' = before ?c @ inorder yr @ after ?c \<and> same_data s3 s'"
      by (rule delete_at' [OF rb [unfolded T2] _ _ s2_def, of _ z]) (simp_all add: s3_def yz)
    then obtain s' T' where
      r: "(if color (mem s3 y) = MEM_BLACK then mem_delete_fixup (rootp yr) s3
           else Some s3) = Some s'"
      and rb': "red_black s' T'"
      and io: "inorder T' = before ?c @ inorder yr @ after ?c"
      and sd3: "same_data s3 s'"
      by blast
    have e: "mem_delete z s = Some s'"
      using mem_delete_eq [OF zn _ x, of s3] ll rr zlr r lm yz by (simp add: s2_def s3_def)
    have s3e: "s3 = (if y \<noteq> z then set_range z (start (mem s2 y)) (end' (mem s2 y))
                                       (type (mem s2 y)) s2 else s2)"
      using yz by (simp add: s3_def)
    note dd = delete_data [OF sd sd3 s3e]
    let ?xs = "before cz @ inorder zl" and ?ys = "inorder yr @ after cy @ after cz"
    have io': "inorder T' = ?xs @ z # ?ys"
      using io bc by (simp add: before_append after_append)
    have ioT: "inorder T = ?xs @ z # y # ?ys"
      using bc by (simp add: T zr inorder_plug)
    have nz: "z \<notin> set ?xs" "z \<notin> set ?ys"
      using d by (auto simp: zr inorder_plug)
    have "map (node_range (mem s')) (?xs @ z # ?ys) = map (node_range ?h) (?xs @ y # ?ys)"
      using nz yz by (auto simp: dd(1))
    then have "ranges (mem s') T' = map (node_range ?h) (?xs @ y # ?ys)"
      by (simp only: ranges_alt io')
    then show ?thesis using e rb' dd(2,3,4) ioT by blast
  qed
qed

lemma sentinel_write_reads [simp]:
  "left (mem (sentinel_write a s) n) = left (mem s n)"
  "right (mem (sentinel_write a s) n) = right (mem s n)"
  "parent (mem (sentinel_write a s) n) = parent (mem s n)"
  "color (mem (sentinel_write a s) n) = color (mem s n)"
  "type (mem (sentinel_write a s) n) = type (mem s n)"
  "start (mem (sentinel_write a s) n) = (if n = MEM_NIL then a else start (mem s n))"
  "end' (mem (sentinel_write a s) n) = (if n = MEM_NIL then a + 1 else end' (mem s n))"
  "mem_root (sentinel_write a s) = mem_root s"
  "min_heap_address (sentinel_write a s) = min_heap_address s"
  "max_heap_address (sentinel_write a s) = max_heap_address s"
  "next_node (sentinel_write a s) = next_node s"
  by (simp_all add: sentinel_write_def)

lemma tree_of_nodes: "tree_of s t \<Longrightarrow> n \<in> set (inorder t) \<Longrightarrow> 2 \<le> n \<and> n < next_node s"
  by (auto simp: tree_of_def list_all_iff)

lemma tree_of_not_nil: "tree_of s t \<Longrightarrow> \<forall>n\<in>set (inorder t). n \<noteq> MEM_NIL"
  by (auto simp: tree_of_def dest: wf_nodes)

lemma wf_sentinel_write [simp]:
  "wf (mem (sentinel_write a s)) par p t = wf (mem s) par p t"
  by (rule wf_frame_fields) simp

lemma tree_of_sentinel_write [simp]: "tree_of (sentinel_write a s) t = tree_of s t"
  by (simp add: tree_of_def)

lemma red_black_sentinel_write [simp]: "red_black (sentinel_write a s) t = red_black s t"
proof -
  have c: "\<And>n. color (mem (sentinel_write a s) n) = color (mem s n)" by simp
  show ?thesis
    unfolding red_black_def colors_same(2,3) [of "mem (sentinel_write a s)" "mem s", OF c]
    by simp
qed

lemma node_range_sentinel_write:
  "n \<noteq> MEM_NIL \<Longrightarrow> node_range (mem (sentinel_write a s)) n = node_range (mem s) n"
  by (simp add: node_range_def)

lemma ranges_sentinel_write:
  assumes "tree_of s t"
  shows "ranges (mem (sentinel_write a s)) t = ranges (mem s) t"
proof -
  have "\<forall>n\<in>set (inorder t). n \<noteq> MEM_NIL"
    using assms by (rule tree_of_not_nil)
  then show ?thesis by (simp add: ranges_alt node_range_sentinel_write)
qed

lemma within_bounds_sentinel_write:
  assumes "tree_of s t"
  shows "within_bounds (sentinel_write a s) t = within_bounds s t"
proof -
  have "\<forall>n\<in>set (inorder t). n \<noteq> MEM_NIL"
    using assms by (rule tree_of_not_nil)
  then show ?thesis by (auto simp: within_bounds_def list_all_iff)
qed

lemma mem_find_correct:
  assumes tr: "tree_of s T"
  shows "\<exists>q s'. mem_find a s = Some (q, s') \<and> (s' = s \<or> s' = sentinel_write a s)
           \<and> (q = MEM_NIL \<or> q \<in> set (inorder T) \<and> in_range a (node_range (mem s) q))
           \<and> (ordered (ranges (mem s) T) \<and> within_bounds s T \<longrightarrow>
                (\<forall>n\<in>set (inorder T). in_range a (node_range (mem s) n) \<longrightarrow> q = n))"
proof (cases "a < min_heap_address s \<or> a > max_heap_address s")
  case True
  then have e: "mem_find a s = Some (MEM_NIL, s)" by (simp add: mem_find_def)
  have "within_bounds s T \<longrightarrow> (\<forall>n\<in>set (inorder T). \<not> in_range a (node_range (mem s) n))"
    using True by (auto simp: within_bounds_def list_all_iff in_range_def node_range_def)
  then show ?thesis using e by auto
next
  case False
  let ?s1 = "sentinel_write a s"
  have nn: "\<forall>n\<in>set (inorder T). n \<noteq> MEM_NIL"
    using tr by (rule tree_of_not_nil)
  have w: "wf (mem ?s1) NULL (mem_root ?s1) T"
    using tr by (simp add: tree_of_def)
  have s1: "start (mem ?s1 MEM_NIL) \<le> a" and s2: "a < end' (mem ?s1 MEM_NIL)" by simp_all
  obtain q where q: "mem_find_loop ?s1 a (mem_root ?s1) = Some q"
    "q = MEM_NIL \<or> q \<in> set (inorder T) \<and> in_range a (node_range (mem ?s1) q)"
    "ordered (ranges (mem ?s1) T) \<longrightarrow>
       (\<forall>n\<in>set (inorder T). in_range a (node_range (mem ?s1) n) \<longrightarrow> q = n)"
    using find_loop [OF w s1 s2] by blast
  have e: "mem_find a s = Some (q, ?s1)"
    using False q(1) unfolding mem_find_def sentinel_write_def [symmetric] Let_def by simp
  have r: "\<And>n. n \<in> set (inorder T) \<Longrightarrow> node_range (mem ?s1) n = node_range (mem s) n"
    using nn by (simp add: node_range_sentinel_write)
  have rg: "ranges (mem ?s1) T = ranges (mem s) T" by (rule ranges_sentinel_write [OF tr])
  have q2: "q = MEM_NIL \<or> q \<in> set (inorder T) \<and> in_range a (node_range (mem s) q)"
    using q(2) r by metis
  have q3: "ordered (ranges (mem s) T) \<longrightarrow>
       (\<forall>n\<in>set (inorder T). in_range a (node_range (mem s) n) \<longrightarrow> q = n)"
    using q(3) r unfolding rg by metis
  show ?thesis
    using e q2 q3 by blast
qed

lemma ordered_Nil [simp]: "ordered []"
  by (simp add: ordered_def)

lemma path_bounds:
  assumes "ordered (map (node_range h) (inorder (plug c t)))" and "path_ok h st c"
    and "\<forall>n\<in>set (inorder (plug c t)). \<not> overlap (st, en) (node_range h n)" and "st < en"
  shows "(\<forall>n\<in>set (before c). end' (h n) \<le> st) \<and> (\<forall>n\<in>set (after c). en \<le> start (h n))"
  using assms(1,2,3)
proof (induction c arbitrary: t)
  case Nil
  then show ?case by simp
next
  case (Cons f c)
  show ?case
  proof (cases f)
    case (LeftOf a r)
    have ih: "(\<forall>n\<in>set (before c). end' (h n) \<le> st) \<and> (\<forall>n\<in>set (after c). en \<le> start (h n))"
      using Cons.IH [of "Node t a r"] Cons.prems by (simp add: LeftOf)
    have o: "ordered (map (node_range h) (a # inorder r))"
      using Cons.prems(1) by (auto simp: LeftOf inorder_plug ordered_append ordered_Cons)
    have lt: "st < start (h a)" using Cons.prems(2) by (simp add: LeftOf)
    have "\<not> overlap (st, en) (node_range h a)"
      using Cons.prems(3) by (simp add: LeftOf inorder_plug)
    then have ea: "en \<le> start (h a)"
      using lt o by (auto simp: overlap_def node_range_def ordered_Cons)
    have "\<forall>n\<in>set (inorder r). en \<le> start (h n)"
      using o ea by (fastforce simp: ordered_Cons before_range_def node_range_def)
    then show ?thesis using ih ea by (auto simp: LeftOf)
  next
    case (RightOf l a)
    have ih: "(\<forall>n\<in>set (before c). end' (h n) \<le> st) \<and> (\<forall>n\<in>set (after c). en \<le> start (h n))"
      using Cons.IH [of "Node l a t"] Cons.prems by (simp add: RightOf)
    have o: "ordered (map (node_range h) (inorder l @ [a]))"
      using Cons.prems(1) by (auto simp: RightOf inorder_plug ordered_append ordered_Cons)
    have ge: "start (h a) \<le> st" using Cons.prems(2) by (simp add: RightOf)
    have "\<not> overlap (st, en) (node_range h a)"
      using Cons.prems(3) by (simp add: RightOf inorder_plug)
    then have ea: "end' (h a) \<le> st"
      using ge assms(4) by (auto simp: overlap_def node_range_def)
    have "\<forall>n\<in>set (inorder l). end' (h n) \<le> start (h a)"
      using o by (fastforce simp: ordered_append before_range_def node_range_def)
    then have "\<forall>n\<in>set (inorder l). end' (h n) \<le> st" using ge by fastforce
    then show ?thesis using ih ea by (auto simp: RightOf)
  qed
qed

lemma insert_bounds_values:
  "min_heap_address (insert_bounds st en s) =
     (if min_heap_address s = NULL \<or> st < min_heap_address s then st else min_heap_address s)"
  "max_heap_address (insert_bounds st en s) =
     (if max_heap_address s = NULL \<or> en > max_heap_address s then en else max_heap_address s)"
  by (simp_all add: insert_bounds_def Let_def)

lemma insert_step:
  assumes inv: "index_inv s T rs"
    and v: "0 < st" "st < en" "list_all (\<lambda>r. \<not> overlap (st, en) r) rs"
  shows "\<exists>s' T'. mem_insert st en ty s = Some (next_node s, s')
           \<and> index_inv s' T' ((st, en) # rs)"
proof -
  let ?h = "mem s" and ?x = "next_node s"
  have rb: "red_black s T" and o: "ordered (ranges ?h T)"
    and rs: "set (ranges ?h T) = set rs" and wb: "within_bounds s T"
    using inv by (simp_all add: index_inv_def)
  obtain s' T' c where e: "mem_insert st en ty s = Some (?x, s')"
    and rb': "red_black s' T'" and T: "T = plug c Leaf"
    and io: "inorder T' = before c @ ?x # after c"
    and po: "path_ok ?h st c"
    and old: "\<And>n. n \<noteq> ?x \<Longrightarrow> start (mem s' n) = start (?h n) \<and> end' (mem s' n) = end' (?h n)"
    and new: "start (mem s' ?x) = st" "end' (mem s' ?x) = en"
    and mn: "min_heap_address s' = min_heap_address (insert_bounds st en s)"
    and mx: "max_heap_address s' = max_heap_address (insert_bounds st en s)"
    using mem_insert_correct [OF rb, of st en ty] by blast
  have tr: "tree_of s T" using rb by (simp add: red_black_def)
  have ioT: "inorder T = before c @ after c" by (simp add: T inorder_plug)
  have nx: "\<And>n. n \<in> set (before c @ after c) \<Longrightarrow> n \<noteq> ?x"
    using tree_of_nodes [OF tr] ioT by fastforce
  have nr: "\<And>n. n \<in> set (before c @ after c) \<Longrightarrow> node_range (mem s') n = node_range ?h n"
    using nx old by (simp add: node_range_def)
  have nrx: "node_range (mem s') ?x = (st, en)" using new by (simp add: node_range_def)
  have o1: "ordered (map (node_range ?h) (inorder (plug c Leaf)))"
    using o by (simp add: ranges_alt T)
  have no: "\<forall>n\<in>set (inorder (plug c Leaf)). \<not> overlap (st, en) (node_range ?h n)"
  proof
    fix n assume "n \<in> set (inorder (plug c Leaf))"
    then have "node_range ?h n \<in> set rs" using rs by (auto simp: ranges_alt T)
    then show "\<not> overlap (st, en) (node_range ?h n)" using v(3) by (simp add: list_all_iff)
  qed
  have pb: "(\<forall>n\<in>set (before c). end' (?h n) \<le> st) \<and> (\<forall>n\<in>set (after c). en \<le> start (?h n))"
    using path_bounds [OF o1 po no v(2)] .
  have m1: "map (node_range (mem s')) (before c) = map (node_range ?h) (before c)"
    and m2: "map (node_range (mem s')) (after c) = map (node_range ?h) (after c)"
    using nr by simp_all
  have rg: "ranges (mem s') T' = map (node_range ?h) (before c) @ (st, en) # map (node_range ?h) (after c)"
    by (simp add: ranges_alt io m1 m2 nrx)
  have o0: "ordered (map (node_range ?h) (before c) @ map (node_range ?h) (after c))"
    using o by (simp add: ranges_alt ioT)
  have o': "ordered (ranges (mem s') T')"
    unfolding rg using o0 pb v(2)
    by (auto simp: ordered_append ordered_Cons before_range_def node_range_def)
  have rs': "set (ranges (mem s') T') = set ((st, en) # rs)"
    unfolding rg using rs by (auto simp: ranges_alt ioT)
  have wb': "within_bounds s' T'"
  proof -
    have ne: "inorder T \<noteq> [] \<longrightarrow> min_heap_address s \<noteq> NULL"
      and bd: "\<And>n. n \<in> set (before c @ after c) \<Longrightarrow>
                 min_heap_address s \<le> start (?h n) \<and> end' (?h n) \<le> max_heap_address s"
      using wb by (auto simp: within_bounds_def list_all_iff ioT)
    have a: "min_heap_address s' \<noteq> NULL"
      using v(1) by (simp add: mn insert_bounds_values NULL_def)
    have b: "min_heap_address s' \<le> st \<and> en \<le> max_heap_address s'"
      by (simp add: mn mx insert_bounds_values)
    have c: "min_heap_address s' \<le> start (?h n) \<and> end' (?h n) \<le> max_heap_address s'"
      if "n \<in> set (before c @ after c)" for n
    proof -
      have "inorder T \<noteq> []" using that ioT by auto
      then have "min_heap_address s \<noteq> NULL" using ne by simp
      then show ?thesis using bd [OF that] by (auto simp: mn mx insert_bounds_values NULL_def)
    qed
    have "\<And>n. n \<in> set (inorder T') \<Longrightarrow>
            min_heap_address s' \<le> start (mem s' n) \<and> end' (mem s' n) \<le> max_heap_address s'"
    proof -
      fix n assume "n \<in> set (inorder T')"
      then consider "n = ?x" | "n \<in> set (before c @ after c)" using io by auto
      then show "min_heap_address s' \<le> start (mem s' n) \<and> end' (mem s' n) \<le> max_heap_address s'"
      proof cases
        case 1 then show ?thesis using b new by simp
      next
        case 2 then show ?thesis using c [OF 2] old [OF nx [OF 2]] by simp
      qed
    qed
    then show ?thesis using a by (simp add: within_bounds_def list_all_iff)
  qed
  show ?thesis using e rb' o' rs' wb' by (auto simp: index_inv_def)
qed

lemma mem_delete_nil: "mem_delete MEM_NIL s = Some s"
  by (simp add: mem_delete_def)

lemma index_inv_sentinel_write:
  "index_inv (sentinel_write a s) t rs = index_inv s t rs"
proof (cases "tree_of s t")
  case True
  show ?thesis
    unfolding index_inv_def
    by (simp add: ranges_sentinel_write [OF True] within_bounds_sentinel_write [OF True])
next
  case False
  then show ?thesis by (simp add: index_inv_def red_black_def)
qed

lemma ordered_remove:
  "ordered (xs @ x # ys) \<Longrightarrow> ordered (xs @ ys)"
  by (auto simp: ordered_append ordered_Cons)

lemma delete_step:
  assumes inv: "index_inv s T rs"
  shows "\<exists>s' T'. mem_delete_find a s = Some s'
           \<and> index_inv s' T' (filter (\<lambda>r. \<not> in_range a r) rs)"
proof -
  have tr: "tree_of s T" using inv by (simp add: index_inv_def red_black_def)
  have o: "ordered (ranges (mem s) T)" and wb: "within_bounds s T"
    and rs: "set (ranges (mem s) T) = set rs"
    using inv by (simp_all add: index_inv_def)
  obtain q s1 where f: "mem_find a s = Some (q, s1)"
    and s1: "s1 = s \<or> s1 = sentinel_write a s"
    and q: "q = MEM_NIL \<or> q \<in> set (inorder T) \<and> in_range a (node_range (mem s) q)"
    and u: "\<And>n. n \<in> set (inorder T) \<Longrightarrow> in_range a (node_range (mem s) n) \<Longrightarrow> q = n"
    using mem_find_correct [OF tr, of a] o wb by blast
  have inv1: "index_inv s1 T rs" using s1 inv by (auto simp: index_inv_sentinel_write)
  have tr1: "tree_of s1 T" using s1 tr by auto
  have rg1: "ranges (mem s1) T = ranges (mem s) T"
    using s1 ranges_sentinel_write [OF tr] by auto
  have nr1: "\<And>n. n \<in> set (inorder T) \<Longrightarrow> node_range (mem s1) n = node_range (mem s) n"
    using s1 tree_of_not_nil [OF tr] by (auto simp: node_range_sentinel_write)
  have e: "mem_delete_find a s = mem_delete q s1" by (simp add: mem_delete_find_def f)
  show ?thesis
  proof (cases "q = MEM_NIL")
    case True
    have "\<And>n. n \<in> set (inorder T) \<Longrightarrow> \<not> in_range a (node_range (mem s) n)"
      using u True tree_of_not_nil [OF tr] by blast
    then have "\<forall>r\<in>node_range (mem s) ` set (inorder T). \<not> in_range a r"
      by blast
    moreover have "set rs = node_range (mem s) ` set (inorder T)"
      using rs by (simp add: ranges_alt)
    ultimately have "\<forall>r\<in>set rs. \<not> in_range a r" by (simp only:)
    then have "filter (\<lambda>r. \<not> in_range a r) rs = rs" by (simp add: filter_id_conv)
    then show ?thesis using e True inv1 by (auto simp: mem_delete_nil)
  next
    case False
    then have qin: "q \<in> set (inorder T)" and qa: "in_range a (node_range (mem s) q)"
      using q by simp_all
    have rb1: "red_black s1 T" using inv1 by (simp add: index_inv_def)
    obtain s' T' xs ys where d: "mem_delete q s1 = Some s'" and rb': "red_black s' T'"
      and io: "inorder T = xs @ q # ys"
      and rg: "ranges (mem s') T' = map (node_range (mem s1)) (xs @ ys)"
      and mn: "min_heap_address s' = min_heap_address s1"
      and mx: "max_heap_address s' = max_heap_address s1"
      using mem_delete_correct [OF rb1 qin] by blast
    have dis: "distinct (inorder T)" using tr by (simp add: tree_of_def)
    have sub: "set (xs @ ys) \<subseteq> set (inorder T)" using io by auto
    have "\<And>n. n \<in> set (xs @ ys) \<Longrightarrow> node_range (mem s1) n = node_range (mem s) n"
      using nr1 sub by blast
    then have rg': "ranges (mem s') T' = map (node_range (mem s)) (xs @ ys)"
      unfolding rg by (intro map_cong refl)
    have qn: "q \<notin> set (xs @ ys)" using dis io by auto
    have na: "\<And>n. n \<in> set (xs @ ys) \<Longrightarrow> \<not> in_range a (node_range (mem s) n)"
      using u sub qn by blast
    have o': "ordered (ranges (mem s') T')"
      unfolding rg' using o ordered_remove [of "map (node_range (mem s)) xs"
          "node_range (mem s) q" "map (node_range (mem s)) ys"]
      by (simp add: ranges_alt io)
    have set_rs: "set rs = node_range (mem s) ` set (xs @ q # ys)"
      using rs [symmetric] by (simp only: ranges_alt io set_map)
    have rs': "set (ranges (mem s') T') = set (filter (\<lambda>r. \<not> in_range a r) rs)"
    proof (intro set_eqI iffI)
      fix r assume "r \<in> set (ranges (mem s') T')"
      then obtain n where n: "n \<in> set (xs @ ys)" "r = node_range (mem s) n"
        unfolding rg' by auto
      then have "r \<in> set rs" unfolding set_rs by auto
      then show "r \<in> set (filter (\<lambda>r. \<not> in_range a r) rs)" using na n by simp
    next
      fix r assume "r \<in> set (filter (\<lambda>r. \<not> in_range a r) rs)"
      then have r: "r \<in> set rs" "\<not> in_range a r" by simp_all
      then obtain n where n: "n \<in> set (xs @ q # ys)" "r = node_range (mem s) n"
        unfolding set_rs by auto
      then have "n \<noteq> q" using qa r(2) by auto
      then have "n \<in> set (xs @ ys)" using n(1) by auto
      then show "r \<in> set (ranges (mem s') T')" unfolding rg' using n(2) by auto
    qed
    have wb1: "within_bounds s1 T" using inv1 by (simp add: index_inv_def)
    have mm: "min_heap_address s1 = min_heap_address s" "max_heap_address s1 = max_heap_address s"
      using s1 by auto
    have wb': "within_bounds s' T'"
    proof -
      have ne: "inorder T' \<noteq> [] \<longrightarrow> min_heap_address s' \<noteq> NULL"
        using wb io by (simp add: within_bounds_def mn mm)
      have "list_all (\<lambda>r. min_heap_address s \<le> fst r \<and> snd r \<le> max_heap_address s)
              (map (node_range (mem s)) (xs @ q # ys))"
        using wb by (auto simp: within_bounds_def io list_all_iff node_range_def)
      then have "list_all (\<lambda>r. min_heap_address s \<le> fst r \<and> snd r \<le> max_heap_address s)
              (ranges (mem s') T')"
        unfolding rg' by (auto simp: list_all_iff)
      then have "list_all (\<lambda>n. min_heap_address s' \<le> start (mem s' n)
                       \<and> end' (mem s' n) \<le> max_heap_address s') (inorder T')"
        by (simp add: ranges_def list_all_iff mn mx mm)
      then show ?thesis using ne by (simp add: within_bounds_def)
    qed
    show ?thesis using e d rb' o' rs' wb' by (auto simp: index_inv_def)
  qed
qed

lemma run_inv:
  "index_inv s T rs \<Longrightarrow> valid_ops ops rs \<Longrightarrow>
   \<exists>s' T'. mem_run ops s = Some s' \<and> index_inv s' T' (registered ops rs)"
proof (induction ops arbitrary: s T rs)
  case Nil
  then show ?case by auto
next
  case (Cons op ops)
  show ?case
  proof (cases op)
    case (Insert st en ty)
    have v: "0 < st" "st < en" "list_all (\<lambda>r. \<not> overlap (st, en) r) rs"
      and vo: "valid_ops ops ((st, en) # rs)"
      using Cons.prems(2) by (simp_all add: Insert)
    obtain s1 T1 where e: "mem_insert st en ty s = Some (next_node s, s1)"
      and i1: "index_inv s1 T1 ((st, en) # rs)"
      using insert_step [OF Cons.prems(1) v] by blast
    show ?thesis using Cons.IH [OF i1 vo] e by (simp add: Insert)
  next
    case (Delete a)
    have vo: "valid_ops ops (filter (\<lambda>r. \<not> in_range a r) rs)"
      using Cons.prems(2) by (simp add: Delete)
    obtain s1 T1 where e: "mem_delete_find a s = Some s1"
      and i1: "index_inv s1 T1 (filter (\<lambda>r. \<not> in_range a r) rs)"
      using delete_step [OF Cons.prems(1)] by blast
    show ?thesis using Cons.IH [OF i1 vo] e by (simp add: Delete)
  qed
qed

lemma run_red_black:
  "red_black s T \<Longrightarrow> \<exists>s' T'. mem_run ops s = Some s' \<and> red_black s' T'"
proof (induction ops arbitrary: s T)
  case Nil
  then show ?case by auto
next
  case (Cons op ops)
  show ?case
  proof (cases op)
    case (Insert st en ty)
    obtain s1 T1 where e: "mem_insert st en ty s = Some (next_node s, s1)"
      and r1: "red_black s1 T1"
      using mem_insert_correct [OF Cons.prems, of st en ty] by blast
    show ?thesis using Cons.IH [OF r1] e by (simp add: Insert)
  next
    case (Delete a)
    have tr: "tree_of s T" using Cons.prems by (simp add: red_black_def)
    obtain q s1 where f: "mem_find a s = Some (q, s1)"
      and s1: "s1 = s \<or> s1 = sentinel_write a s"
      and q: "q = MEM_NIL \<or> q \<in> set (inorder T)"
      using mem_find_correct [OF tr, of a] by blast
    have rb1: "red_black s1 T" using s1 Cons.prems by auto
    have "\<exists>s2 T2. mem_delete q s1 = Some s2 \<and> red_black s2 T2"
    proof (cases "q = MEM_NIL")
      case True then show ?thesis using rb1 by (auto simp: mem_delete_nil)
    next
      case False
      then have "q \<in> set (inorder T)" using q by simp
      then show ?thesis using mem_delete_correct [OF rb1] by blast
    qed
    then obtain s2 T2 where e: "mem_delete q s1 = Some s2" and r2: "red_black s2 T2" by blast
    show ?thesis using Cons.IH [OF r2] e f by (simp add: Delete mem_delete_find_def)
  qed
qed

lemma mem_init_reads:
  "mem_root (mem_init mem_state0) = MEM_NIL"
  "color (mem (mem_init mem_state0) MEM_NIL) = MEM_BLACK"
  "next_node (mem_init mem_state0) = 2"
  "min_heap_address (mem_init mem_state0) = NULL"
  "max_heap_address (mem_init mem_state0) = NULL"
  by (simp_all add: mem_init_def mem_state0_def Let_def)

lemma red_black_init: "red_black (mem_init mem_state0) Leaf"
  by (simp add: red_black_def tree_of_def mem_init_reads)

lemma index_inv_init: "index_inv (mem_init mem_state0) Leaf []"
  by (simp add: index_inv_def red_black_init ranges_def within_bounds_def)


subsection \<open>The heap index: the claims\<close>

lemma ordered_no_overlap: "ordered rs \<Longrightarrow> no_overlap rs"
proof (induction rs)
  case Nil
  show ?case by simp
next
  case (Cons r rs)
  have o: "ordered rs" and b: "\<forall>q\<in>set rs. before_range r q"
    using Cons.prems by (simp_all add: ordered_Cons)
  have "\<forall>q\<in>set rs. \<not> overlap r q"
    using b by (auto simp: before_range_def overlap_def)
  then show ?case using Cons.IH [OF o] by (simp add: list_all_iff)
qed

text \<open>
  Claim C4.  Started from the empty index of \<open>mem_init\<close>, every sequence of
  insertions and deletions runs to the end and leaves a red-black tree in the store:
  the root is black, no red node has a red child, and all paths from the root to a
  leaf hold the same number of black nodes.  When every inserted block is non-empty,
  does not start at the null address and overlaps no block registered at that
  moment, the ranges of the tree, read in order, are sorted, no two of them overlap,
  and they are exactly the registered ones.
\<close>

theorem index_red_black:
  "\<exists>s T. mem_run ops (mem_init mem_state0) = Some s \<and> red_black s T
     \<and> (valid_ops ops [] \<longrightarrow>
          ordered (ranges (mem s) T) \<and> no_overlap (ranges (mem s) T)
          \<and> set (ranges (mem s) T) = set (registered ops []))"
proof (cases "valid_ops ops []")
  case True
  obtain s T where r: "mem_run ops (mem_init mem_state0) = Some s"
    and i: "index_inv s T (registered ops [])"
    using run_inv [OF index_inv_init True] by blast
  have "red_black s T" "ordered (ranges (mem s) T)"
    "set (ranges (mem s) T) = set (registered ops [])"
    using i by (simp_all add: index_inv_def)
  then show ?thesis using r ordered_no_overlap by blast
next
  case False
  then show ?thesis using run_red_black [OF red_black_init, of ops] by simp
qed

theorem index_red_black_witness:
  "\<exists>s T. mem_run [Insert 16 32 MEM_TYPE_CONS, Insert 48 64 MEM_TYPE_STRING,
                   Insert 32 48 MEM_TYPE_FLOAT, Delete 20, Insert 64 80 MEM_TYPE_CONS]
            (mem_init mem_state0) = Some s
     \<and> red_black s T \<and> ordered (ranges (mem s) T) \<and> no_overlap (ranges (mem s) T)
     \<and> set (ranges (mem s) T) = {(64, 80), (32, 48), (48, 64)}"
  using index_red_black [of "[Insert 16 32 MEM_TYPE_CONS, Insert 48 64 MEM_TYPE_STRING,
                   Insert 32 48 MEM_TYPE_FLOAT, Delete 20, Insert 64 80 MEM_TYPE_CONS]"]
  by (simp add: overlap_def in_range_def)

text \<open>
  Claim C3.  After any sequence of operations on the empty index in which every
  inserted block is non-empty, does not start at the null address and overlaps no
  block registered at that moment, \<open>mem_find\<close> returns: for an address inside a
  registered range, a node other than the sentinel that records exactly that range;
  for an address inside no registered range, the sentinel \<open>MEM_NIL\<close>.
\<close>

theorem find_registered:
  assumes "valid_ops ops []"
  shows "\<exists>s q s'. mem_run ops (mem_init mem_state0) = Some s
           \<and> mem_find a s = Some (q, s')
           \<and> (\<forall>r\<in>set (registered ops []). in_range a r \<longrightarrow>
                 q \<noteq> MEM_NIL \<and> node_range (mem s) q = r)
           \<and> ((\<forall>r\<in>set (registered ops []). \<not> in_range a r) \<longrightarrow> q = MEM_NIL)"
proof -
  obtain s T where r: "mem_run ops (mem_init mem_state0) = Some s"
    and i: "index_inv s T (registered ops [])"
    using run_inv [OF index_inv_init assms] by blast
  have tr: "tree_of s T" and o: "ordered (ranges (mem s) T)" and wb: "within_bounds s T"
    and rs: "set (registered ops []) = node_range (mem s) ` set (inorder T)"
    using i by (simp_all add: index_inv_def red_black_def ranges_alt)
  obtain q s' where f: "mem_find a s = Some (q, s')"
    and q: "q = MEM_NIL \<or> q \<in> set (inorder T) \<and> in_range a (node_range (mem s) q)"
    and u: "\<And>n. n \<in> set (inorder T) \<Longrightarrow> in_range a (node_range (mem s) n) \<Longrightarrow> q = n"
    using mem_find_correct [OF tr, of a] o wb by blast
  have nn: "\<forall>n\<in>set (inorder T). n \<noteq> MEM_NIL" using tr by (rule tree_of_not_nil)
  have a: "\<forall>r\<in>set (registered ops []). in_range a r \<longrightarrow>
             q \<noteq> MEM_NIL \<and> node_range (mem s) q = r"
  proof (intro ballI impI)
    fix r assume "r \<in> set (registered ops [])" and ir: "in_range a r"
    then obtain n where n: "n \<in> set (inorder T)" "r = node_range (mem s) n"
      unfolding rs by blast
    then have "q = n" using u ir by simp
    then show "q \<noteq> MEM_NIL \<and> node_range (mem s) q = r" using n nn by simp
  qed
  have b: "(\<forall>r\<in>set (registered ops []). \<not> in_range a r) \<longrightarrow> q = MEM_NIL"
    using q unfolding rs by blast
  show ?thesis using r f a b by blast
qed

theorem find_registered_witness:
  "(\<exists>s q s'. mem_run [Insert 16 32 MEM_TYPE_CONS, Insert 48 64 MEM_TYPE_STRING,
                      Delete 20, Insert 64 80 MEM_TYPE_CONS]
               (mem_init mem_state0) = Some s
       \<and> mem_find 50 s = Some (q, s') \<and> q \<noteq> MEM_NIL \<and> node_range (mem s) q = (48, 64))
   \<and> (\<exists>s s'. mem_run [Insert 16 32 MEM_TYPE_CONS, Insert 48 64 MEM_TYPE_STRING,
                      Delete 20, Insert 64 80 MEM_TYPE_CONS]
               (mem_init mem_state0) = Some s
       \<and> mem_find 20 s = Some (MEM_NIL, s'))"
  using find_registered [of "[Insert 16 32 MEM_TYPE_CONS, Insert 48 64 MEM_TYPE_STRING,
                      Delete 20, Insert 64 80 MEM_TYPE_CONS]" 50]
    find_registered [of "[Insert 16 32 MEM_TYPE_CONS, Insert 48 64 MEM_TYPE_STRING,
                      Delete 20, Insert 64 80 MEM_TYPE_CONS]" 20]
  by (simp add: overlap_def in_range_def)

text \<open>
  Claim C7, as the code has it.  \<open>mem_find\<close> reads the heap bounds and never writes
  them.  For an address outside the bounds it returns the sentinel at once and the
  state is unchanged.  Otherwise it searches, and the state it leaves is the one it
  was given with the start and the end of the sentinel \<open>mem_z\<close> set to the address
  and the address plus one: the bounds, the root, the nodes of the tree, the
  allocation pointer and every other field of the sentinel are as before.  The
  bounds are widened by \<open>mem_insert\<close>, to include the inserted block.
\<close>

theorem find_keeps_bounds:
  assumes "red_black s T"
  shows "(\<exists>q s'. mem_find a s = Some (q, s')
            \<and> s' = (if a < min_heap_address s \<or> a > max_heap_address s then s
                    else s\<lparr>mem := (mem s)(MEM_NIL :=
                                 (mem s MEM_NIL)\<lparr>start := a, end' := a + 1\<rparr>)\<rparr>)
            \<and> min_heap_address s' = min_heap_address s
            \<and> max_heap_address s' = max_heap_address s
            \<and> mem_root s' = mem_root s \<and> next_node s' = next_node s
            \<and> (\<forall>n. n \<noteq> MEM_NIL \<longrightarrow> mem s' n = mem s n)
            \<and> (a < min_heap_address s \<or> a > max_heap_address s \<longrightarrow> q = MEM_NIL))
       \<and> (\<exists>x s'. mem_insert st en ty s = Some (x, s')
            \<and> min_heap_address s' =
                 (if min_heap_address s = NULL \<or> st < min_heap_address s then st
                  else min_heap_address s)
            \<and> max_heap_address s' =
                 (if max_heap_address s = NULL \<or> en > max_heap_address s then en
                  else max_heap_address s))"
proof -
  let ?w = "s\<lparr>mem := (mem s)(MEM_NIL := (mem s MEM_NIL)\<lparr>start := a, end' := a + 1\<rparr>)\<rparr>"
  let ?s' = "if a < min_heap_address s \<or> a > max_heap_address s then s else ?w"
  have tr: "tree_of s T" using assms by (simp add: red_black_def)
  obtain q s1 where f: "mem_find a s = Some (q, s1)"
    using mem_find_correct [OF tr, of a] by blast
  have e: "s1 = ?s'"
    using f by (auto simp: mem_find_def Let_def split: if_splits)
  have o: "a < min_heap_address s \<or> a > max_heap_address s \<longrightarrow> q = MEM_NIL"
    using f by (auto simp: mem_find_def)
  have m: "min_heap_address ?s' = min_heap_address s" "max_heap_address ?s' = max_heap_address s"
    "mem_root ?s' = mem_root s" "next_node ?s' = next_node s"
    "\<forall>n. n \<noteq> MEM_NIL \<longrightarrow> mem ?s' n = mem s n"
    by simp_all
  have find: "\<exists>q s'. mem_find a s = Some (q, s') \<and> s' = ?s'
            \<and> min_heap_address s' = min_heap_address s
            \<and> max_heap_address s' = max_heap_address s
            \<and> mem_root s' = mem_root s \<and> next_node s' = next_node s
            \<and> (\<forall>n. n \<noteq> MEM_NIL \<longrightarrow> mem s' n = mem s n)
            \<and> (a < min_heap_address s \<or> a > max_heap_address s \<longrightarrow> q = MEM_NIL)"
    using f e o m by blast
  obtain s2 where i: "mem_insert st en ty s = Some (next_node s, s2)"
    and "min_heap_address s2 = min_heap_address (insert_bounds st en s)"
    and "max_heap_address s2 = max_heap_address (insert_bounds st en s)"
    using mem_insert_correct [OF assms, of st en ty] by blast
  then have "min_heap_address s2 =
                 (if min_heap_address s = NULL \<or> st < min_heap_address s then st
                  else min_heap_address s)"
    "max_heap_address s2 =
                 (if max_heap_address s = NULL \<or> en > max_heap_address s then en
                  else max_heap_address s)"
    by (simp_all add: insert_bounds_values)
  then have ins: "\<exists>x s'. mem_insert st en ty s = Some (x, s')
            \<and> min_heap_address s' =
                 (if min_heap_address s = NULL \<or> st < min_heap_address s then st
                  else min_heap_address s)
            \<and> max_heap_address s' =
                 (if max_heap_address s = NULL \<or> en > max_heap_address s then en
                  else max_heap_address s)"
    using i by blast
  show ?thesis using find ins by (rule conjI)
qed

text \<open>
  The theorem at work on the index that holds the one block from 16 to 32: a find
  on the address 20, inside the bounds, writes the sentinel only; a find on 40
  returns the sentinel at once; the insertion of the block from 8 to 12 lowers the
  minimum to 8.
\<close>

theorem find_keeps_bounds_witness:
  "(\<exists>q. mem_find 20 (snd (the (mem_insert 16 32 MEM_TYPE_CONS (mem_init mem_state0))))
         = Some (q, (snd (the (mem_insert 16 32 MEM_TYPE_CONS (mem_init mem_state0))))
                      \<lparr>mem := (mem (snd (the (mem_insert 16 32 MEM_TYPE_CONS
                                                 (mem_init mem_state0)))))
                         (MEM_NIL := (mem (snd (the (mem_insert 16 32 MEM_TYPE_CONS
                                                       (mem_init mem_state0)))) MEM_NIL)
                                       \<lparr>start := 20, end' := 21\<rparr>)\<rparr>))
   \<and> mem_find 40 (snd (the (mem_insert 16 32 MEM_TYPE_CONS (mem_init mem_state0))))
         = Some (MEM_NIL, snd (the (mem_insert 16 32 MEM_TYPE_CONS (mem_init mem_state0))))
   \<and> (\<exists>x s'. mem_insert 8 12 MEM_TYPE_CONS
                 (snd (the (mem_insert 16 32 MEM_TYPE_CONS (mem_init mem_state0))))
               = Some (x, s')
       \<and> min_heap_address s' = 8 \<and> max_heap_address s' = 32)"
proof -
  obtain s1 T1 where i: "mem_insert 16 32 MEM_TYPE_CONS (mem_init mem_state0)
                        = Some (next_node (mem_init mem_state0), s1)"
    and rb: "red_black s1 T1"
    and "min_heap_address s1 = min_heap_address (insert_bounds 16 32 (mem_init mem_state0))"
    and "max_heap_address s1 = max_heap_address (insert_bounds 16 32 (mem_init mem_state0))"
    using mem_insert_correct [OF red_black_init, of 16 32 MEM_TYPE_CONS] by blast
  then have m: "min_heap_address s1 = 16" "max_heap_address s1 = 32"
    by (simp_all add: insert_bounds_values mem_init_reads NULL_def)
  have e: "snd (the (mem_insert 16 32 MEM_TYPE_CONS (mem_init mem_state0))) = s1"
    by (simp add: i)
  show ?thesis
    unfolding e
    using find_keeps_bounds [OF rb, of 20 8 12 MEM_TYPE_CONS]
      find_keeps_bounds [OF rb, of 40 8 12 MEM_TYPE_CONS]
    by (auto simp: m NULL_def)
qed

text \<open>
  Claim C7 as stated fails: in the index holding the one block from 16 to 32, a find
  on the address 40 returns the sentinel and the bounds are still 16 and 32.
\<close>

theorem find_bounds_counterexample:
  "map_option (\<lambda>p. (fst p, min_heap_address (snd p), max_heap_address (snd p)))
     (mem_find 40 (snd (the (mem_insert 16 32 MEM_TYPE_CONS (mem_init mem_state0)))))
   = Some (MEM_NIL, 16, 32)"
proof -
  obtain s' where i: "mem_insert 16 32 MEM_TYPE_CONS (mem_init mem_state0)
                        = Some (next_node (mem_init mem_state0), s')"
    and "min_heap_address s' = min_heap_address (insert_bounds 16 32 (mem_init mem_state0))"
    and "max_heap_address s' = max_heap_address (insert_bounds 16 32 (mem_init mem_state0))"
    using mem_insert_correct [OF red_black_init, of 16 32 MEM_TYPE_CONS] by blast
  then have m: "min_heap_address s' = 16" "max_heap_address s' = 32"
    by (simp_all add: insert_bounds_values mem_init_reads NULL_def)
  have "mem_find 40 s' = Some (MEM_NIL, s')" using m by (simp add: mem_find_def)
  then show ?thesis using i m by simp
qed

subsection \<open>Vectors: the scan of the free lists\<close>

lemma scan_free_lists_find:
  "scan_free_lists v nbytes index r0 s =
     (case find (fits v s nbytes) [index .. VBLOCK_NFREE_LISTS v - 1] of
        Some i \<Rightarrow> (vector_free_lists s i, residual v nbytes i,
                   s\<lparr>vector_free_lists :=
                        (vector_free_lists s)(i := next_vector s (vector_free_lists s i))\<rparr>)
      | None \<Rightarrow> (NULL, if index < VBLOCK_NFREE_LISTS v
                        then residual v nbytes (VBLOCK_NFREE_LISTS v - 1) else r0, s))"
proof (induction v nbytes index r0 s rule: scan_free_lists.induct)
  case (1 v nbytes index r0 s)
  show ?case
  proof (cases "index < VBLOCK_NFREE_LISTS v")
    case False
    then have "[index .. VBLOCK_NFREE_LISTS v - 1] = []" by simp
    then show ?thesis using False by (subst scan_free_lists.simps) simp
  next
    case True
    then have u: "[index .. VBLOCK_NFREE_LISTS v - 1]
                    = index # [index + 1 .. VBLOCK_NFREE_LISTS v - 1]"
      by (simp add: upto_rec1)
    let ?rest = "index * int (word_size v) + LISP_VECTOR_MIN v - nbytes"
    have r: "residual v nbytes index = ?rest" by (simp add: residual_def class_size_def)
    have step: "scan_free_lists v nbytes index r0 s =
      (if (?rest = 0 \<or> ?rest \<ge> LISP_VECTOR_MIN v) \<and> vector_free_lists s index \<noteq> NULL
       then (vector_free_lists s index, ?rest,
              s\<lparr>vector_free_lists :=
                   (vector_free_lists s)(index := next_vector s (vector_free_lists s index))\<rparr>)
       else scan_free_lists v nbytes (index + 1) ?rest s)"
      by (subst scan_free_lists.simps) (simp only: True if_True Let_def)
    show ?thesis
    proof (cases "fits v s nbytes index")
      case f: True
      then have y: "(?rest = 0 \<or> ?rest \<ge> LISP_VECTOR_MIN v) \<and> vector_free_lists s index \<noteq> NULL"
        by (simp add: fits_def r)
      have "scan_free_lists v nbytes index r0 s = (vector_free_lists s index, ?rest,
              s\<lparr>vector_free_lists :=
                   (vector_free_lists s)(index := next_vector s (vector_free_lists s index))\<rparr>)"
        unfolding step by (rule if_P [OF y])
      then show ?thesis
        using f by (simp add: u r)
    next
      case f: False
      then have n: "\<not> ((?rest = 0 \<or> ?rest \<ge> LISP_VECTOR_MIN v)
                        \<and> vector_free_lists s index \<noteq> NULL)"
        by (simp add: fits_def r)
      have e: "scan_free_lists v nbytes index r0 s
                 = scan_free_lists v nbytes (index + 1) ?rest s"
        unfolding step by (rule if_not_P [OF n])
      have ih: "scan_free_lists v nbytes (index + 1) ?rest s =
         (case find (fits v s nbytes) [index + 1 .. VBLOCK_NFREE_LISTS v - 1] of
            Some i \<Rightarrow> (vector_free_lists s i, residual v nbytes i,
                   s\<lparr>vector_free_lists :=
                        (vector_free_lists s)(i := next_vector s (vector_free_lists s i))\<rparr>)
          | None \<Rightarrow> (NULL, if index + 1 < VBLOCK_NFREE_LISTS v
                        then residual v nbytes (VBLOCK_NFREE_LISTS v - 1) else ?rest, s))"
        using "1.IH" [OF True refl n] .
      have last: "?rest = residual v nbytes (VBLOCK_NFREE_LISTS v - 1)"
        if "\<not> index + 1 < VBLOCK_NFREE_LISTS v"
      proof -
        have "VBLOCK_NFREE_LISTS v - 1 = index" using True that by simp
        then show ?thesis by (simp only: r)
      qed
      show ?thesis
        unfolding e ih u using f True last
        by (auto split: option.splits)
    qed
  qed
qed

lemma sdiv_exact: "0 \<le> k \<Longrightarrow> 0 < w \<Longrightarrow> (k * w) sdiv w = (k :: int)"
  by (simp add: signed_divide_int_def sgn_mult abs_mult)
     (metis abs_of_nonneg mult_sgn_abs mult.commute sgn_pos mult.right_neutral mult_cancel_left1 sgn_0_0 mult_zero_left mult_zero_right order_le_less)

lemma class_size_VINDEX:
  assumes "word_aligned v" "rest = (k + 2) * int (word_size v)" "0 \<le> k"
  shows "VINDEX v rest = k" "class_size v (VINDEX v rest) = rest"
proof -
  have w: "0 < int (word_size v)" and m: "LISP_VECTOR_MIN v = 2 * int (word_size v)"
    using assms(1) by (simp_all add: word_aligned_def LISP_VECTOR_MIN_def)
  have d: "rest - LISP_VECTOR_MIN v = k * int (word_size v)"
    by (simp add: assms(2) m algebra_simps)
  have "VINDEX v rest = (k * int (word_size v)) sdiv int (word_size v)"
    by (simp only: VINDEX_def d)
  then show i: "VINDEX v rest = k"
    by (simp only: sdiv_exact [OF assms(3) w])
  show "class_size v (VINDEX v rest) = rest"
    by (simp only: i class_size_def m) (simp add: assms(2) algebra_simps)
qed

lemma add_vector_free_lists_reads [simp]:
  "vector_free_lists (add_vector_free_lists v p nbytes s)
     = (vector_free_lists s)(VINDEX v nbytes := p)"
  "contents0 (add_vector_free_lists v p nbytes s)
     = (contents0 s)(p := vector_free_lists s (VINDEX v nbytes))"
  "vector_blocks (add_vector_free_lists v p nbytes s) = vector_blocks s"
  "suspicious_objects (add_vector_free_lists v p nbytes s) = suspicious_objects s"
  "heap_next (add_vector_free_lists v p nbytes s) = heap_next s"
  by (simp_all add: add_vector_free_lists_def set_next_vector_def Let_def)

lemma allocate_vector_block_reads [simp]:
  "fst (allocate_vector_block v s) = heap_next s"
  "vector_free_lists (snd (allocate_vector_block v s)) = vector_free_lists s"
  "contents0 (snd (allocate_vector_block v s)) = contents0 s"
  "vector_blocks (snd (allocate_vector_block v s)) = heap_next s # vector_blocks s"
  "suspicious_objects (snd (allocate_vector_block v s)) = suspicious_objects s"
  by (simp_all add: allocate_vector_block_def Let_def)

lemma no_suspicious [simp]:
  "suspicious_objects s = [] \<Longrightarrow> find_suspicious_object_in_range s a b = NULL"
  by (simp add: find_suspicious_object_in_range_def)

lemma small_tail_reads [simp]:
  "vector_free_lists (small_tail v len nbytes q p rest s2)
     = requeue v (ADVANCE p nbytes) rest (vector_free_lists s2)"
  "contents0 (small_tail v len nbytes q p rest s2)
     = (if rest \<noteq> 0
        then (contents0 s2)(ADVANCE p nbytes := vector_free_lists s2 (VINDEX v rest))
        else contents0 s2)"
  "vector_blocks (small_tail v len nbytes q p rest s2) = vector_blocks s2"
  "header (small_tail v len nbytes q p rest s2) p = Header_size len"
  by (simp_all add: small_tail_def Let_def requeue_def)

lemma allocate_small:
  assumes "len \<noteq> 0" "\<not> len > VECTOR_ELTS_MAX v"
    and nb: "nbytes = int (header_size v) + len * int (word_size v)"
    and "\<not> nbytes > LARGE_VECTOR_THRESH v"
    and sus: "suspicious_objects s = []"
    and sc: "scan_free_lists v nbytes (VINDEX v nbytes) 0 s = (p0, r0, s1)"
    and ss: "suspicious_objects s1 = []"
  shows "allocate_vectorlike v len q_clear s =
           (if p0 = NULL
            then Inr (heap_next s1,
                      small_tail v len nbytes q_clear (heap_next s1) (VBLOCK_NBYTES v - nbytes)
                        (snd (allocate_vector_block v s1)))
            else Inr (p0, small_tail v len nbytes q_clear p0 r0 s1))"
proof -
  have sus4: "suspicious_objects
                (if q_clear then s3\<lparr>memcleared := (p, nbytes) # memcleared s3\<rparr> else s3) = []"
    if "suspicious_objects s3 = []" for s3 p
    using that by simp
  show ?thesis
  proof (cases "p0 = NULL")
    case True
    show ?thesis
      unfolding allocate_vectorlike_def nb [symmetric] Let_def
      using assms(1,2,4) True ss
      by (simp add: sc split_def small_tail_def Let_def)
  next
    case False
    show ?thesis
      unfolding allocate_vectorlike_def nb [symmetric] Let_def
      using assms(1,2,4) False ss
      by (simp add: sc split_def small_tail_def Let_def)
  qed
qed

text \<open>
  Claim C5.  On a build whose header, Lisp word and pointer all have the size of a
  word, a request for \<open>len > 0\<close> slots of at most \<open>LARGE_VECTOR_THRESH\<close> bytes
  returns a vector.  When some class from the exact one upward has a free vector
  and a residual that is zero or at least \<open>LISP_VECTOR_MIN\<close>, the vector is the head
  of the free list of the first such class, which is popped; otherwise it is the
  start of a new vector block.  A non-zero residual, which begins right after the
  requested bytes, becomes the head of the free list of the class of exactly its
  size, linked to the former head.
\<close>

theorem allocate_vectorlike_first_fit:
  assumes ok: "word_aligned v"
    and len: "0 < len" "len \<le> VECTOR_ELTS_MAX v"
    and nb: "nbytes = int (header_size v) + len * int (word_size v)"
    and small: "nbytes \<le> LARGE_VECTOR_THRESH v"
    and sus: "suspicious_objects s = []"
  shows "\<exists>p s' rest fl.
           allocate_vectorlike v len q_clear s = Inr (p, s')
           \<and> (case first_fit v s nbytes of
                 Some i \<Rightarrow> p = vector_free_lists s i \<and> p \<noteq> NULL
                           \<and> rest = residual v nbytes i
                           \<and> fl = (vector_free_lists s)(i := next_vector s p)
                           \<and> vector_blocks s' = vector_blocks s
               | None \<Rightarrow> p = heap_next s \<and> rest = VBLOCK_NBYTES v - nbytes
                         \<and> fl = vector_free_lists s
                         \<and> vector_blocks s' = p # vector_blocks s)
           \<and> vector_free_lists s' = requeue v (ADVANCE p nbytes) rest fl
           \<and> (rest = 0 \<or> LISP_VECTOR_MIN v \<le> rest
                          \<and> class_size v (VINDEX v rest) = rest
                          \<and> next_vector s' (ADVANCE p nbytes) = fl (VINDEX v rest))
           \<and> header s' p = Header_size len"
proof -
  let ?w = "int (word_size v)"
  have w: "0 < ?w" and hs: "int (header_size v) = ?w"
    and m: "LISP_VECTOR_MIN v = 2 * ?w" and nby: "VBLOCK_NBYTES v = VBLOCK_ALIGN v - ?w"
    and dv: "?w dvd VBLOCK_ALIGN v" and big: "8 * ?w \<le> VBLOCK_ALIGN v"
    using ok by (simp_all add: word_aligned_def LISP_VECTOR_MIN_def VBLOCK_NBYTES_def)
  have nbw: "nbytes = (len + 1) * ?w" by (simp add: nb hs algebra_simps)
  have a1: "len \<noteq> 0" "\<not> len > VECTOR_ELTS_MAX v" "\<not> nbytes > LARGE_VECTOR_THRESH v"
    using len small by simp_all
  show ?thesis
  proof (cases "first_fit v s nbytes")
    case None
    let ?rest = "VBLOCK_NBYTES v - nbytes"
    have sc: "scan_free_lists v nbytes (VINDEX v nbytes) 0 s =
                (NULL, if VINDEX v nbytes < VBLOCK_NFREE_LISTS v
                       then residual v nbytes (VBLOCK_NFREE_LISTS v - 1) else 0, s)"
      using None by (simp add: scan_free_lists_find first_fit_def)
    have e: "allocate_vectorlike v len q_clear s =
               Inr (heap_next s, small_tail v len nbytes q_clear (heap_next s) ?rest
                                   (snd (allocate_vector_block v s)))"
      using allocate_small [OF a1(1,2) nb a1(3) sus sc sus, of q_clear] by simp
    obtain a where a: "VBLOCK_ALIGN v = a * ?w" using dv by (metis dvd_def mult.commute)
    have "2 * nbytes \<le> VBLOCK_NBYTES v - 2 * ?w"
      using small by (simp add: LARGE_VECTOR_THRESH_def drop_bit_eq_div)
    then have l4: "2 * (len + 1) * ?w \<le> (a - 3) * ?w"
      by (simp add: nbw nby a algebra_simps)
    have a8: "8 \<le> a" using big w by (simp add: a)
    have "2 * (len + 1) \<le> a - 3" using l4 w by (simp only: mult_le_cancel_right)
    then have k: "0 \<le> a - len - 4" using len(1) by simp
    have r: "?rest = ((a - len - 4) + 2) * ?w" by (simp add: nby a nbw algebra_simps)
    note cs = class_size_VINDEX [OF ok r k]
    have rm: "LISP_VECTOR_MIN v \<le> ?rest"
      unfolding r m using k w by (simp add: mult_le_cancel_right)
    have r0: "?rest \<noteq> 0" using rm m w by simp
    show ?thesis
      unfolding e None
      by (intro exI [of _ "heap_next s"] exI [of _ ?rest] exI [of _ "vector_free_lists s"]
               exI [of _ "small_tail v len nbytes q_clear (heap_next s) ?rest
                            (snd (allocate_vector_block v s))"])
         (simp add: rm cs(2) r0 next_vector_def)
  next
    case (Some i)
    let ?p = "vector_free_lists s i" and ?rest = "residual v nbytes i"
    let ?s1 = "s\<lparr>vector_free_lists := (vector_free_lists s)(i := next_vector s ?p)\<rparr>"
    have f: "fits v s nbytes i" and ge: "VINDEX v nbytes \<le> i"
      using Some by (auto simp: first_fit_def find_Some_iff dest: nth_mem)
    have pn: "?p \<noteq> NULL" using f by (simp add: fits_def)
    have sc: "scan_free_lists v nbytes (VINDEX v nbytes) 0 s = (?p, ?rest, ?s1)"
      using Some by (simp add: scan_free_lists_find first_fit_def)
    have ss: "suspicious_objects ?s1 = []" using sus by simp
    have e: "allocate_vectorlike v len q_clear s =
               Inr (?p, small_tail v len nbytes q_clear ?p ?rest ?s1)"
      using allocate_small [OF a1(1,2) nb a1(3) sus sc ss, of q_clear] pn by simp
    have rr: "?rest = 0 \<or> LISP_VECTOR_MIN v \<le> ?rest" using f by (simp add: fits_def)
    have r: "?rest = ((i - len - 1) + 2) * ?w"
      by (simp add: residual_def class_size_def m nbw algebra_simps)
    have cs: "class_size v (VINDEX v ?rest) = ?rest" if "LISP_VECTOR_MIN v \<le> ?rest"
    proof -
      have "2 * ?w \<le> ((i - len - 1) + 2) * ?w" using that by (simp only: r m)
      then have "0 \<le> i - len - 1" using w by (simp only: mult_le_cancel_right) simp
      then show ?thesis using class_size_VINDEX(2) [OF ok r] by simp
    qed
    show ?thesis
      unfolding e Some
      using rr cs pn
      by (intro exI [of _ ?p] exI [of _ ?rest]
               exI [of _ "(vector_free_lists s)(i := next_vector s ?p)"]
               exI [of _ "small_tail v len nbytes q_clear ?p ?rest ?s1"])
         (auto simp: next_vector_def)
  qed
qed

lemma first_fit_example: "first_fit vabi64 vector_state1 32 = Some 5"
proof -
  have c: "VINDEX vabi64 32 = 2" "VBLOCK_NFREE_LISTS vabi64 - 1 = 509"
    by (simp_all add: VINDEX_def VBLOCK_NFREE_LISTS_def VBLOCK_NBYTES_def VBLOCK_ALIGN_def
        LISP_VECTOR_MIN_def vabi64_def signed_divide_int_def)
  have u: "[2 .. 509] = 2 # 3 # 4 # 5 # [6 .. (509::int)]" by (simp add: upto_rec1)
  show ?thesis
    unfolding first_fit_def c u
    by (simp add: fits_def residual_def class_size_def LISP_VECTOR_MIN_def vabi64_def
        vector_state1_def vector_state0_def NULL_def)
qed

theorem allocate_vectorlike_first_fit_witness:
  "\<exists>s'. allocate_vectorlike vabi64 3 False vector_state1 = Inr (5000, s')
     \<and> vector_free_lists s' = (\<lambda>i. if i = 1 then 5032 else if i = 3 then 6000 else NULL)
     \<and> next_vector s' 5032 = NULL \<and> vector_blocks s' = [4096]"
proof -
  have ok: "word_aligned vabi64"
    by (simp add: word_aligned_def vabi64_def VBLOCK_ALIGN_def)
  have t: "(32::int) \<le> LARGE_VECTOR_THRESH vabi64"
    by (simp add: LARGE_VECTOR_THRESH_def VBLOCK_NBYTES_def VBLOCK_ALIGN_def vabi64_def
        drop_bit_eq_div)
  have r: "residual vabi64 32 5 = 24" "VINDEX vabi64 24 = 1"
    by (simp_all add: residual_def class_size_def LISP_VECTOR_MIN_def vabi64_def VINDEX_def
        signed_divide_int_def)
  have fl: "vector_free_lists vector_state1
              = (\<lambda>i. if i = 3 then 6000 else if i = 5 then 5000 else NULL)"
    "next_vector vector_state1 5000 = NULL" "vector_blocks vector_state1 = [4096]"
    "suspicious_objects vector_state1 = []"
    by (simp_all add: vector_state1_def vector_state0_def next_vector_def)
  have n: "(32::int) = int (header_size vabi64) + 3 * int (word_size vabi64)"
    "(3::int) \<le> VECTOR_ELTS_MAX vabi64"
    by (simp_all add: vabi64_def)
  obtain p s' rest f where e: "allocate_vectorlike vabi64 3 False vector_state1 = Inr (p, s')"
    and c: "p = vector_free_lists vector_state1 5 \<and> p \<noteq> NULL
            \<and> rest = residual vabi64 32 5
            \<and> f = (vector_free_lists vector_state1)(5 := next_vector vector_state1 p)
            \<and> vector_blocks s' = vector_blocks vector_state1"
    and q: "vector_free_lists s' = requeue vabi64 (ADVANCE p 32) rest f"
    and l: "rest = 0 \<or> LISP_VECTOR_MIN vabi64 \<le> rest
                          \<and> class_size vabi64 (VINDEX vabi64 rest) = rest
                          \<and> next_vector s' (ADVANCE p 32) = f (VINDEX vabi64 rest)"
    using allocate_vectorlike_first_fit [OF ok _ n(2,1) t fl(4), of False]
    by (auto simp: first_fit_example)
  have p: "p = 5000" and rest: "rest = 24"
    and f: "f = (\<lambda>i. if i = 3 then 6000 else NULL)" and vb: "vector_blocks s' = [4096]"
    using c by (auto simp: fl r fun_eq_iff)
  have a: "ADVANCE p 32 = 5032" by (simp add: p ADVANCE_def)
  have "vector_free_lists s' = (\<lambda>i. if i = 1 then 5032 else if i = 3 then 6000 else NULL)"
    unfolding q a rest f by (auto simp: requeue_def r fun_eq_iff)
  moreover have "next_vector s' 5032 = NULL"
    using l unfolding a rest r f by simp
  ultimately show ?thesis using e p vb by simp
qed


subsection \<open>Marking and sweeping conses: a cycle survives a collection\<close>

lemma XMARK_CONS_reads [simp]:
  "conses (XMARK_CONS c a s) = conses s"
  "pure_p (XMARK_CONS c a s) = pure_p s"
  "mark_stk (XMARK_CONS c a s) = mark_stk s"
  "float_marked (XMARK_CONS c a s) = float_marked s"
  "string_marked (XMARK_CONS c a s) = string_marked s"
  "symbol_marked (XMARK_CONS c a s) = symbol_marked s"
  "vector_marked (XMARK_CONS c a s) = vector_marked s"
  "cons_block (XMARK_CONS c a s) = cons_block s"
  "cons_block_index (XMARK_CONS c a s) = cons_block_index s"
  "cons_free_list (XMARK_CONS c a s) = cons_free_list s"
  "cons_gcstat (XMARK_CONS c a s) = cons_gcstat s"
  "freed_blocks (XMARK_CONS c a s) = freed_blocks s"
  "XCAR (XMARK_CONS c a s) = XCAR s"
  "XCDR (XMARK_CONS c a s) = XCDR s"
  "kids (XMARK_CONS c a s) = kids s"
  by (simp_all add: XMARK_CONS_def XCAR_def XCDR_def kids_def fun_eq_iff)











lemma ureach_empty [simp]: "ureach c s {} = {}"
proof -
  have "x \<in> ureach c s {} \<Longrightarrow> False" for x by (induction rule: ureach.induct) auto
  then show ?thesis by auto
qed









lemma cons_addr_cases: "cons_addr obj = {} \<or> (\<exists>a. obj = Lisp_Cons a)"
  by (cases obj) simp_all




lemma cell_key_cell_at:
  assumes "cabi_ok c" "cblk mod BLOCK_ALIGN = 0" "pos < BLOCK_NCONS c"
  shows "CONS_BLOCK (cell_at c cblk pos) = cblk" "CONS_INDEX c (cell_at c cblk pos) = pos"
proof -
  let ?z = "sizeof_Lisp_Cons c"
  have z: "0 < ?z" and le: "BLOCK_NCONS c * ?z \<le> BLOCK_ALIGN"
    using assms(1) by (simp_all add: cabi_ok_def)
  have "Suc pos * ?z \<le> BLOCK_NCONS c * ?z"
    using assms(3) by (intro mult_le_mono1) simp
  then have lt: "pos * ?z < BLOCK_ALIGN" using le z by simp
  have m: "(cblk + pos * ?z) mod BLOCK_ALIGN = pos * ?z"
  proof -
    have "(cblk + pos * ?z) mod BLOCK_ALIGN
            = (cblk mod BLOCK_ALIGN + pos * ?z) mod BLOCK_ALIGN"
      by (simp add: mod_add_left_eq)
    then show ?thesis using assms(2) lt by simp
  qed
  show "CONS_BLOCK (cell_at c cblk pos) = cblk"
    by (simp add: CONS_BLOCK_def cell_at_def m)
  show "CONS_INDEX c (cell_at c cblk pos) = pos"
    using z by (simp add: CONS_INDEX_def cell_at_def m)
qed

lemma cell_at_inj:
  assumes "cabi_ok c" "b mod BLOCK_ALIGN = 0" "b' mod BLOCK_ALIGN = 0"
    "i < BLOCK_NCONS c" "i' < BLOCK_NCONS c" "cell_at c b i = cell_at c b' i'"
  shows "b = b' \<and> i = i'"
  using cell_key_cell_at [OF assms(1,2,4)] cell_key_cell_at [OF assms(1,3,5)] assms(6)
  by metis

























end
